(* ===== verification/KV_Prelude.thy ===== *)
theory KV_Prelude
  imports Main "HOL-Library.Char_ord" "HOL-Library.List_Lexorder"
begin

text \<open>
  Shared ground of the development: the bytes and character classes the C and C++ sources
  test (the "C" locale, which the program never changes), C strings, the exceptions and the
  results of an operation, the state-and-exception programs the request handlers are written
  in, and the generic list lemmas the component theories share.

  A \<^verbatim>\<open>std::string\<close> is a list of bytes (\<open>string\<close>).  An operation of the server may return a
  value, throw, wait on a mutex, or reach behaviour the C++ standard leaves undefined; each of
  the four is a constructor of the result type, so no path of the source is lost.
\<close>

section \<open>Collections of facts\<close>

named_theorems prog_simps "unfolding of the program combinators"
named_theorems char_simps "evaluation of the character classes"

section \<open>Bytes and character classes\<close>

type_synonym tid = nat
type_synonym addr = nat

definition char_code :: "char \<Rightarrow> nat" where
  "char_code c = of_char c"

abbreviation newline :: char where "newline \<equiv> CHR 0x0A"
abbreviation nul :: char where "nul \<equiv> CHR 0x00"
abbreviation blank :: char where "blank \<equiv> CHR 0x20"

definition isspace :: "char \<Rightarrow> bool" where
  "isspace c \<longleftrightarrow> c \<in> {CHR 0x20, CHR 0x09, CHR 0x0A, CHR 0x0B, CHR 0x0C, CHR 0x0D}"

definition isdigit :: "char \<Rightarrow> bool" where
  "isdigit c \<longleftrightarrow> 48 \<le> char_code c \<and> char_code c \<le> 57"

definition isalpha :: "char \<Rightarrow> bool" where
  "isalpha c \<longleftrightarrow> (65 \<le> char_code c \<and> char_code c \<le> 90) \<or> (97 \<le> char_code c \<and> char_code c \<le> 122)"

definition isalnum :: "char \<Rightarrow> bool" where
  "isalnum c \<longleftrightarrow> isalpha c \<or> isdigit c"

text \<open>The bytes of a C string: a buffer up to its first NUL.\<close>

definition c_str :: "string \<Rightarrow> string" where
  "c_str buf = takeWhile (\<lambda>c. c \<noteq> nul) buf"

lemmas char_class_defs [char_simps] =
  char_code_def isspace_def isdigit_def isalpha_def isalnum_def

lemma isspace_not_alnum: "isspace c \<Longrightarrow> \<not> isalnum c"
  by (auto simp: char_simps)

lemma isalnum_not_space [simp]: "isalnum c \<Longrightarrow> \<not> isspace c"
  by (auto simp: char_simps)

lemma isdigit_not_space [simp]: "isdigit c \<Longrightarrow> \<not> isspace c"
  by (auto simp: char_simps)

lemma nul_not_space [simp]: "\<not> isspace nul"
  by (simp add: char_simps)

lemma blank_is_space [simp]: "isspace blank"
  by (simp add: char_simps)

lemma newline_is_space [simp]: "isspace newline"
  by (simp add: char_simps)

lemma c_str_id: "nul \<notin> set s \<Longrightarrow> c_str s = s"
  by (auto simp: c_str_def takeWhile_eq_all_conv)

lemma c_str_append_nul: "nul \<notin> set s \<Longrightarrow> c_str (s @ nul # rest) = s"
  by (induction s) (auto simp: c_str_def)

lemma c_str_no_nul [simp]: "nul \<notin> set (c_str s)"
  by (auto simp: c_str_def dest: set_takeWhileD)

lemma length_c_str: "length (c_str s) \<le> length s"
  by (simp add: c_str_def length_takeWhile_le)

section \<open>Exceptions and results\<close>

text \<open>
  The exception classes of \<^verbatim>\<open>exceptions.h\<close>; each carries its \<^verbatim>\<open>what()\<close> text.
  \<open>RuntimeError\<close> is their common base class, which the clients throw directly.
\<close>

datatype exn =
    InvalidMessage string
  | CommException string
  | OperationException string
  | FailedTransaction string
  | RuntimeError string

fun exn_what :: "exn \<Rightarrow> string" where
  "exn_what (InvalidMessage s) = s"
| "exn_what (CommException s) = s"
| "exn_what (OperationException s) = s"
| "exn_what (FailedTransaction s) = s"
| "exn_what (RuntimeError s) = s"

text \<open>
  \<open>Blocked\<close>: the thread waits in \<^verbatim>\<open>pthread_mutex_lock\<close>.  \<open>Undef\<close>: behaviour the C++
  standard leaves undefined (signed overflow, an index past the end of a vector, access to a
  table without its mutex).
\<close>

datatype 'a res = Ok 'a | Exn exn | Blocked | Undef

type_synonym ('s, 'a) prog = "'s \<Rightarrow> 'a res \<times> 's"

definition ret :: "'a \<Rightarrow> ('s, 'a) prog" where
  "ret a = (\<lambda>s. (Ok a, s))"

definition throw :: "exn \<Rightarrow> ('s, 'a) prog" where
  "throw e = (\<lambda>s. (Exn e, s))"

definition block :: "('s, 'a) prog" where
  "block = (\<lambda>s. (Blocked, s))"

definition undef :: "('s, 'a) prog" where
  "undef = (\<lambda>s. (Undef, s))"

definition gets :: "('s \<Rightarrow> 'a) \<Rightarrow> ('s, 'a) prog" where
  "gets f = (\<lambda>s. (Ok (f s), s))"

definition modify :: "('s \<Rightarrow> 's) \<Rightarrow> ('s, unit) prog" where
  "modify f = (\<lambda>s. (Ok (), f s))"

definition bind :: "('s, 'a) prog \<Rightarrow> ('a \<Rightarrow> ('s, 'b) prog) \<Rightarrow> ('s, 'b) prog" where
  "bind m f = (\<lambda>s. case m s of
       (Ok a, s') \<Rightarrow> f a s'
     | (Exn e, s') \<Rightarrow> (Exn e, s')
     | (Blocked, s') \<Rightarrow> (Blocked, s')
     | (Undef, s') \<Rightarrow> (Undef, s'))"

definition seq :: "('s, 'a) prog \<Rightarrow> ('s, 'b) prog \<Rightarrow> ('s, 'b) prog" where
  "seq m m' = bind m (\<lambda>_. m')"

text \<open>
  \<open>finally_do m d\<close> runs the destructor \<open>d\<close> when \<open>m\<close> returns and when it throws, as C++ does for
  an automatic object; a thread that waits has not left the scope.
\<close>

definition finally_do :: "('s, 'a) prog \<Rightarrow> ('s, unit) prog \<Rightarrow> ('s, 'a) prog" where
  "finally_do m d = (\<lambda>s. case m s of
       (Ok a, s') \<Rightarrow> seq d (ret a) s'
     | (Exn e, s') \<Rightarrow> seq d (throw e) s'
     | (Blocked, s') \<Rightarrow> (Blocked, s')
     | (Undef, s') \<Rightarrow> (Undef, s'))"

text \<open>A result that is already known: a value or the exception that was thrown.\<close>

fun of_sum :: "exn + 'a \<Rightarrow> ('s, 'a) prog" where
  "of_sum (Inl e) = throw e"
| "of_sum (Inr a) = ret a"

fun of_option :: "'a option \<Rightarrow> ('s, 'a) prog" where
  "of_option None = undef"
| "of_option (Some a) = ret a"

lemmas prog_defs [prog_simps] =
  ret_def throw_def block_def undef_def gets_def modify_def seq_def

lemma bind_ret [simp]: "bind (ret a) f = f a"
  by (simp add: bind_def ret_def)

lemma bind_throw [simp]: "bind (throw e) f = throw e"
  by (simp add: bind_def throw_def)

lemma bind_undef [simp]: "bind undef f = undef"
  by (simp add: bind_def undef_def)

lemma bind_block [simp]: "bind block f = block"
  by (simp add: bind_def block_def)

lemma bind_assoc: "bind (bind m f) g = bind m (\<lambda>a. bind (f a) g)"
  by (auto simp: bind_def fun_eq_iff split: prod.splits res.splits)

lemma bind_ret_right [simp]: "bind m ret = m"
  by (auto simp: bind_def ret_def fun_eq_iff split: prod.splits res.splits)

lemma bind_run:
  "m s = (Ok a, s') \<Longrightarrow> bind m f s = f a s'"
  "m s = (Exn e, s') \<Longrightarrow> bind m f s = (Exn e, s')"
  "m s = (Blocked, s') \<Longrightarrow> bind m f s = (Blocked, s')"
  "m s = (Undef, s') \<Longrightarrow> bind m f s = (Undef, s')"
  by (simp_all add: bind_def)

section \<open>Lists\<close>

lemma dropWhile_length_le: "length (dropWhile P xs) \<le> length xs"
  by (induction xs) auto

lemma dropWhile_hd: "dropWhile P (x # xs) = x # xs \<longleftrightarrow> \<not> P x"
  by (cases "P x") (auto dest: arg_cong [where f = length] simp: dropWhile_length_le not_less_eq_eq
      intro: le_antisym, metis Suc_n_not_le_n dropWhile_length_le length_Cons)

lemma takeWhile_append_stop: "\<forall>x \<in> set xs. P x \<Longrightarrow> \<not> P y \<Longrightarrow> takeWhile P (xs @ y # ys) = xs"
  by (induction xs) auto

lemma dropWhile_append_stop: "\<forall>x \<in> set xs. P x \<Longrightarrow> \<not> P y \<Longrightarrow> dropWhile P (xs @ y # ys) = y # ys"
  by (induction xs) auto

lemma rev_butlast: "rev (butlast xs) = tl (rev xs)"
  by (cases xs rule: rev_cases) auto

lemma list_two_cases:
  obtains (few) "length xs < 2" | (two) x y zs where "xs = x # y # zs"
proof (cases xs)
  case (Cons x ys)
  then show thesis
    using few two by (cases ys) auto
qed (use few in simp)

end
