(* ===== verification/StdMap.thy ===== *)
theory StdMap
  imports KV_Prelude
begin

text \<open>
  \<^verbatim>\<open>std::map\<close> as the sources use it: lookup (\<^verbatim>\<open>find\<close>, \<^verbatim>\<open>count\<close>), assignment through
  \<^verbatim>\<open>operator[]\<close>, \<^verbatim>\<open>clear\<close> and iteration in key order.  A map is the list of its entries in
  ascending key order, which is the order a range-based \<^verbatim>\<open>for\<close> visits them; its contract is
  the locale \<open>std_map\<close>, stated over the partial map it stands for.
\<close>

section \<open>The container\<close>

type_synonym ('k, 'v) smap = "('k \<times> 'v) list"

fun smap_find :: "'k::linorder \<Rightarrow> ('k, 'v) smap \<Rightarrow> 'v option" where
  "smap_find k [] = None"
| "smap_find k ((k', v) # m) = (if k = k' then Some v else smap_find k m)"

fun smap_set :: "'k::linorder \<Rightarrow> 'v \<Rightarrow> ('k, 'v) smap \<Rightarrow> ('k, 'v) smap" where
  "smap_set k v [] = [(k, v)]"
| "smap_set k v ((k', v') # m) =
     (if k < k' then (k, v) # (k', v') # m
      else if k = k' then (k, v) # m
      else (k', v') # smap_set k v m)"

definition smap_wf :: "('k::linorder, 'v) smap \<Rightarrow> bool" where
  "smap_wf m \<longleftrightarrow> sorted (map fst m) \<and> distinct (map fst m)"

definition smap_abs :: "('k::linorder, 'v) smap \<Rightarrow> ('k \<rightharpoonup> 'v)" where
  "smap_abs m = (\<lambda>k. smap_find k m)"

definition smap_fold :: "('k \<Rightarrow> 'v \<Rightarrow> 'a \<Rightarrow> 'a) \<Rightarrow> ('k, 'v) smap \<Rightarrow> 'a \<Rightarrow> 'a" where
  "smap_fold f m a = fold (\<lambda>(k, v). f k v) m a"

section \<open>Its laws\<close>

lemma smap_find_map_of: "smap_find k m = map_of m k"
  by (induction k m rule: smap_find.induct) auto

lemma smap_find_set: "smap_find k (smap_set k' v m) = (if k = k' then Some v else smap_find k m)"
  by (induction k' v m rule: smap_set.induct) auto

lemma fst_smap_set: "set (map fst (smap_set k v m)) = insert k (set (map fst m))"
  by (induction k v m rule: smap_set.induct) auto

lemma smap_wf_Nil [simp]: "smap_wf []"
  by (simp add: smap_wf_def)

lemma smap_wf_Cons:
  "smap_wf ((k, v) # m) \<longleftrightarrow> smap_wf m \<and> (\<forall>k' \<in> set (map fst m). k < k')"
  by (auto simp: smap_wf_def order.order_iff_strict)

lemma smap_wf_set: "smap_wf m \<Longrightarrow> smap_wf (smap_set k v m)"
proof (induction k v m rule: smap_set.induct)
  case (2 k v k' v' m)
  have low: "k' < x" if "x \<in> set (map fst m)" for x
    using "2.prems" that by (auto simp only: smap_wf_Cons)
  have wf: "smap_wf m"
    using "2.prems" by (simp add: smap_wf_Cons)
  consider "k < k'" | "k = k'" | "k' < k"
    by (rule linorder_cases)
  then show ?case
  proof cases
    case 1
    then have "k < x" if "x \<in> set (map fst m)" for x
      using low [OF that] by (rule less_trans)
    with 1 low wf show ?thesis by (simp add: smap_wf_Cons)
  next
    case 2
    with low wf show ?thesis by (simp add: smap_wf_Cons)
  next
    case 3
    have "k' < x" if "x \<in> set (map fst (smap_set k v m))" for x
      using that 3 low unfolding fst_smap_set by blast
    moreover have "\<not> k < k'" "k \<noteq> k'"
      using 3 by auto
    ultimately show ?thesis
      using "2.IH" wf by (simp add: smap_wf_Cons)
  qed
qed (simp add: smap_wf_Cons)

lemma smap_find_None: "smap_find k m = None \<longleftrightarrow> k \<notin> set (map fst m)"
  by (simp add: smap_find_map_of map_of_eq_None_iff image_image)

lemma smap_find_SomeD: "smap_find k m = Some v \<Longrightarrow> (k, v) \<in> set m"
  by (simp add: smap_find_map_of map_of_SomeD)

lemma smap_find_mem: "smap_wf m \<Longrightarrow> (k, v) \<in> set m \<Longrightarrow> smap_find k m = Some v"
  by (simp add: smap_find_map_of smap_wf_def)

lemma set_smap_set: "smap_wf m \<Longrightarrow> set (smap_set k v m) = insert (k, v) {e \<in> set m. fst e \<noteq> k}"
  by (induction k v m rule: smap_set.induct) (auto simp: smap_wf_Cons)

text \<open>
  A map is determined by its lookups: the representation in key order is canonical.
\<close>

lemma smap_eqI:
  assumes wf: "smap_wf m" "smap_wf m'" and eq: "\<And>k. smap_find k m = smap_find k m'"
  shows "m = m'"
proof -
  have "map_of m = map_of m'"
    using eq by (auto simp: smap_find_map_of)
  with wf have set: "set m = set m'"
    by (simp add: smap_wf_def map_of_inject_set)
  have "inj_on fst (set m \<union> set m')"
    using wf by (simp add: set smap_wf_def distinct_map)
  moreover have "distinct m" "distinct m'" "sorted (map fst m)" "sorted (map fst m')"
    using wf by (auto simp: smap_wf_def distinct_map)
  ultimately show ?thesis
    by (intro map_sorted_distinct_set_unique [where f = fst]) (auto simp: set smap_wf_def wf [unfolded smap_wf_def])
qed

section \<open>The contract its users rely on\<close>

text \<open>
  \<open>get\<close> and \<open>put\<close> are the lookup and the assignment; \<open>wf\<close> is what every operation keeps.
  \<open>put_all\<close> is the loop \<^verbatim>\<open>for (pair : from) to[pair.first] = pair.second\<close>, and
  \<open>get_put_all\<close> says what it leaves behind, whatever the map.
\<close>

locale std_map =
  fixes emp :: "'m"
    and get :: "'k \<Rightarrow> 'm \<Rightarrow> 'v option"
    and put :: "'k \<Rightarrow> 'v \<Rightarrow> 'm \<Rightarrow> 'm"
    and wf :: "'m \<Rightarrow> bool"
  assumes get_emp: "get k emp = None"
    and get_put: "get k (put k' v m) = (if k = k' then Some v else get k m)"
    and wf_emp: "wf emp"
    and wf_put: "wf m \<Longrightarrow> wf (put k v m)"
begin

definition put_all :: "('k \<times> 'v) list \<Rightarrow> 'm \<Rightarrow> 'm" where
  "put_all kvs m = fold (\<lambda>(k, v). put k v) kvs m"

lemma put_all_Nil: "put_all [] m = m"
  by (simp add: put_all_def)

lemma put_all_Cons: "put_all ((k, v) # kvs) m = put_all kvs (put k v m)"
  by (simp add: put_all_def)

lemma get_put_update: "(\<lambda>k. get k (put k' v m)) = (\<lambda>k. get k m)(k' \<mapsto> v)"
  by (auto simp: get_put)

lemma get_put_all:
  "distinct (map fst kvs) \<Longrightarrow> (\<lambda>k. get k (put_all kvs m)) = (\<lambda>k. get k m) ++ map_of kvs"
proof (induction kvs arbitrary: m)
  case Nil
  then show ?case by (simp add: put_all_Nil)
next
  case (Cons kv kvs)
  obtain k v where kv: "kv = (k, v)" by (cases kv)
  have "(\<lambda>x. get x (put_all kvs (put k v m))) = (\<lambda>x. get x m)(k \<mapsto> v) ++ map_of kvs"
    using Cons by (simp add: get_put_update)
  moreover have "map_of kvs k = None"
    using Cons.prems by (simp add: kv map_of_eq_None_iff)
  ultimately show ?case
    by (auto simp: kv put_all_Cons map_add_def fun_eq_iff split: option.splits)
qed

lemma wf_put_all: "wf m \<Longrightarrow> wf (put_all kvs m)"
  by (induction kvs arbitrary: m) (auto simp: put_all_Nil put_all_Cons wf_put)

end

interpretation sm: std_map "[]" smap_find smap_set smap_wf
  by unfold_locales (auto simp: smap_find_set smap_wf_set)

lemma smap_fold_set: "smap_fold smap_set kvs m = sm.put_all kvs m"
  by (simp add: smap_fold_def sm.put_all_def)

text \<open>The assignment loop in terms of the partial maps, for a well-formed source map.\<close>

lemma smap_abs_fold:
  "smap_wf kvs \<Longrightarrow> smap_abs (smap_fold smap_set kvs m) = smap_abs m ++ smap_abs kvs"
  using sm.get_put_all [of kvs m]
  by (simp add: smap_abs_def smap_fold_set smap_wf_def smap_find_map_of)

lemma smap_find_fold:
  "smap_wf kvs \<Longrightarrow> smap_find k (smap_fold smap_set kvs m) =
     (case smap_find k kvs of Some v \<Rightarrow> Some v | None \<Rightarrow> smap_find k m)"
  using fun_cong [OF smap_abs_fold, of kvs m k]
  by (simp add: smap_abs_def map_add_def)

lemma smap_wf_fold: "smap_wf m \<Longrightarrow> smap_wf (smap_fold smap_set kvs m)"
  by (simp add: smap_fold_set sm.wf_put_all)

lemma smap_abs_Nil [simp]: "smap_abs [] = Map.empty"
  by (simp add: smap_abs_def)

lemma smap_abs_set [simp]: "smap_abs (smap_set k v m) = (smap_abs m)(k \<mapsto> v)"
  by (simp add: smap_abs_def sm.get_put_update)

end
