(* ===== verification/Mutexes.thy ===== *)
theory Mutexes
  imports KV_Prelude
begin

text \<open>
  The default (non-recursive) POSIX mutex and the RAII guard of \<^verbatim>\<open>guard.h\<close>.  A mutex is its
  owner.  Locking a mutex that is held waits, also for the owner itself; unlocking one that the
  caller does not hold is undefined.  A guarded scope is stated over any state that contains the
  mutex: the locale \<open>mutex_field\<close> is what such a field must satisfy.
\<close>

type_synonym mutex = "tid option"

definition mutex_init :: mutex where
  "mutex_init = None"

fun mutex_lock :: "tid \<Rightarrow> mutex \<Rightarrow> mutex res" where
  "mutex_lock i None = Ok (Some i)"
| "mutex_lock i (Some j) = Blocked"

fun mutex_trylock :: "tid \<Rightarrow> mutex \<Rightarrow> bool \<times> mutex" where
  "mutex_trylock i None = (True, Some i)"
| "mutex_trylock i (Some j) = (False, Some j)"

definition mutex_unlock :: "tid \<Rightarrow> mutex \<Rightarrow> mutex res" where
  "mutex_unlock i m = (if m = Some i then Ok None else Undef)"

text \<open>Lock and unlock as programs over a state with a mutex in it.\<close>

definition lock_at :: "('s \<Rightarrow> mutex) \<Rightarrow> (mutex \<Rightarrow> 's \<Rightarrow> 's) \<Rightarrow> tid \<Rightarrow> ('s, unit) prog" where
  "lock_at g p i = (\<lambda>s. case mutex_lock i (g s) of
       Ok m \<Rightarrow> (Ok (), p m s)
     | Exn e \<Rightarrow> (Exn e, s)
     | Blocked \<Rightarrow> (Blocked, s)
     | Undef \<Rightarrow> (Undef, s))"

definition unlock_at :: "('s \<Rightarrow> mutex) \<Rightarrow> (mutex \<Rightarrow> 's \<Rightarrow> 's) \<Rightarrow> tid \<Rightarrow> ('s, unit) prog" where
  "unlock_at g p i = (\<lambda>s. case mutex_unlock i (g s) of
       Ok m \<Rightarrow> (Ok (), p m s)
     | Exn e \<Rightarrow> (Exn e, s)
     | Blocked \<Rightarrow> (Blocked, s)
     | Undef \<Rightarrow> (Undef, s))"

text \<open>\<^verbatim>\<open>{ Guard g(m); body }\<close>: the constructor locks, the destructor unlocks on every way out.\<close>

definition guard :: "('s \<Rightarrow> mutex) \<Rightarrow> (mutex \<Rightarrow> 's \<Rightarrow> 's) \<Rightarrow> tid \<Rightarrow> ('s, 'a) prog \<Rightarrow> ('s, 'a) prog" where
  "guard g p i body = seq (lock_at g p i) (finally_do body (unlock_at g p i))"

lemma lock_at_free: "g s = None \<Longrightarrow> lock_at g p i s = (Ok (), p (Some i) s)"
  by (simp add: lock_at_def)

lemma lock_at_held: "g s = Some j \<Longrightarrow> lock_at g p i s = (Blocked, s)"
  by (simp add: lock_at_def)

lemma unlock_at_own: "g s = Some i \<Longrightarrow> unlock_at g p i s = (Ok (), p None s)"
  by (simp add: unlock_at_def mutex_unlock_def)

lemma unlock_at_other: "g s \<noteq> Some i \<Longrightarrow> unlock_at g p i s = (Undef, s)"
  by (simp add: unlock_at_def mutex_unlock_def)

lemma guard_held: "g s = Some j \<Longrightarrow> guard g p i body s = (Blocked, s)"
  by (simp add: guard_def seq_def lock_at_held bind_def)

lemma guard_free: "g s = None \<Longrightarrow> guard g p i body s = finally_do body (unlock_at g p i) (p (Some i) s)"
  by (simp add: guard_def seq_def bind_def lock_at_free)

text \<open>
  A body that keeps the mutex returns or throws with the mutex released; whatever it did to the
  rest of the state stays.
\<close>

lemma guard_Ok:
  assumes "g s = None" "body (p (Some i) s) = (Ok a, s')" "g s' = Some i"
  shows "guard g p i body s = (Ok a, p None s')"
  using assms
  by (simp add: guard_def seq_def bind_def lock_at_free finally_do_def unlock_at_own ret_def)

lemma guard_Exn:
  assumes "g s = None" "body (p (Some i) s) = (Exn e, s')" "g s' = Some i"
  shows "guard g p i body s = (Exn e, p None s')"
  using assms
  by (simp add: guard_def seq_def bind_def lock_at_free finally_do_def unlock_at_own throw_def)

text \<open>A mutex field of a state: what is put is what is read, and only the last put counts.\<close>

locale mutex_field =
  fixes g :: "'s \<Rightarrow> mutex"
    and p :: "mutex \<Rightarrow> 's \<Rightarrow> 's"
    and ok :: "'s \<Rightarrow> bool"
  assumes get_put: "ok s \<Longrightarrow> g (p m s) = m"
    and put_put: "p m (p m' s) = p m s"
    and put_get: "ok s \<Longrightarrow> p (g s) s = s"
    and ok_put: "ok (p m s) = ok s"
begin

text \<open>A scope that only reads leaves the state as it found it.\<close>

lemma guard_read:
  assumes "ok s" "g s = None" "\<And>s. f (p (Some i) s) = f s"
  shows "guard g p i (gets f) s = (Ok (f s), s)"
proof -
  have "guard g p i (gets f) s = (Ok (f s), p None (p (Some i) s))"
    using assms by (intro guard_Ok) (auto simp: gets_def get_put)
  then show ?thesis
    using put_get [OF assms(1)] assms(2) by (simp add: put_put)
qed

lemma guard_throw:
  assumes "ok s" "g s = None"
  shows "guard g p i (throw e) s = (Exn e, s)"
proof -
  have "guard g p i (throw e) s = (Exn e, p None (p (Some i) s))"
    using assms by (intro guard_Exn) (auto simp: throw_def get_put)
  then show ?thesis
    using put_get [OF assms(1)] assms(2) by (simp add: put_put)
qed

lemma lock_unlock:
  assumes "ok s" "g s = None"
  shows "seq (lock_at g p i) (unlock_at g p i) s = (Ok (), s)"
  using assms put_get [OF assms(1)]
  by (simp add: seq_def bind_def lock_at_free unlock_at_own get_put put_put)

lemma relock_waits:
  assumes "ok s" "g s = None"
  shows "fst (seq (lock_at g p i) (lock_at g p j) s) = Blocked"
  using assms by (simp add: seq_def bind_def lock_at_free lock_at_held get_put)

end

end
