(* ===== verification/Tables.thy ===== *)
theory Tables
  imports StdMap Mutexes
begin

text \<open>
  A table (\<^verbatim>\<open>table.h\<close>, \<^verbatim>\<open>table.cpp\<close>): committed entries, the pending entries of the transaction
  that holds it, and its mutex.  Its contract is the locale \<open>txn_store\<close>: a reader in the
  transaction sees the pending entries over the committed ones, \<^verbatim>\<open>commit_changes\<close> makes all of
  them permanent and \<^verbatim>\<open>rollback_changes\<close> none.
\<close>

section \<open>The class\<close>

record table =
  m_name :: string
  key_value :: "(string, string) smap"
  key_value_temp :: "(string, string) smap"
  table_mutex :: mutex

definition table_new :: "string \<Rightarrow> table" where
  "table_new name = \<lparr>m_name = name, key_value = [], key_value_temp = [], table_mutex = mutex_init\<rparr>"

definition table_set :: "string \<Rightarrow> string \<Rightarrow> table \<Rightarrow> table" where
  "table_set key val t = t\<lparr>key_value_temp := smap_set key val (key_value_temp t)\<rparr>"

definition table_get :: "string \<Rightarrow> table \<Rightarrow> exn + string" where
  "table_get key t = (case smap_find key (key_value_temp t) of
       Some v \<Rightarrow> Inr v
     | None \<Rightarrow> (case smap_find key (key_value t) of
           Some v \<Rightarrow> Inr v
         | None \<Rightarrow> Inl (OperationException ''The key is not in the map'')))"

definition has_key :: "string \<Rightarrow> table \<Rightarrow> bool" where
  "has_key key t =
    (if smap_find key (key_value_temp t) \<noteq> None then True
     else if smap_find key (key_value t) \<noteq> None then True
     else False)"

definition commit_changes :: "table \<Rightarrow> table" where
  "commit_changes t =
    t\<lparr>key_value := smap_fold smap_set (key_value_temp t) (key_value t), key_value_temp := []\<rparr>"

definition rollback_changes :: "table \<Rightarrow> table" where
  "rollback_changes t = t\<lparr>key_value_temp := []\<rparr>"

definition lock_table :: "tid \<Rightarrow> (table, unit) prog" where
  "lock_table i = lock_at table_mutex (\<lambda>m t. t\<lparr>table_mutex := m\<rparr>) i"

definition unlock_table :: "tid \<Rightarrow> (table, unit) prog" where
  "unlock_table i = unlock_at table_mutex (\<lambda>m t. t\<lparr>table_mutex := m\<rparr>) i"

definition trylock_table :: "tid \<Rightarrow> table \<Rightarrow> bool \<times> table" where
  "trylock_table i t = (case mutex_trylock i (table_mutex t) of
       (b, m) \<Rightarrow> (b, t\<lparr>table_mutex := m\<rparr>))"

section \<open>What a table stands for\<close>

definition table_wf :: "table \<Rightarrow> bool" where
  "table_wf t \<longleftrightarrow> smap_wf (key_value t) \<and> smap_wf (key_value_temp t)"

definition committed :: "table \<Rightarrow> string \<rightharpoonup> string" where
  "committed t = smap_abs (key_value t)"

definition pending :: "table \<Rightarrow> string \<rightharpoonup> string" where
  "pending t = smap_abs (key_value_temp t)"

definition view :: "table \<Rightarrow> string \<rightharpoonup> string" where
  "view t = committed t ++ pending t"

lemma committed_simps [simp]:
  "committed (table_new n) = Map.empty"
  "committed (table_set k v t) = committed t"
  "committed (rollback_changes t) = committed t"
  "committed (t\<lparr>table_mutex := m\<rparr>) = committed t"
  by (simp_all add: committed_def table_new_def table_set_def rollback_changes_def)

lemma committed_commit: "table_wf t \<Longrightarrow> committed (commit_changes t) = view t"
  by (simp add: committed_def commit_changes_def view_def pending_def table_wf_def smap_abs_fold)

lemma pending_simps [simp]:
  "pending (table_new n) = Map.empty"
  "pending (table_set k v t) = (pending t)(k \<mapsto> v)"
  "pending (commit_changes t) = Map.empty"
  "pending (rollback_changes t) = Map.empty"
  "pending (t\<lparr>table_mutex := m\<rparr>) = pending t"
  by (simp_all add: pending_def table_new_def table_set_def rollback_changes_def commit_changes_def)

lemma view_simps [simp]:
  "view (table_set k v t) = (view t)(k \<mapsto> v)"
  "view (rollback_changes t) = committed t"
  "view (t\<lparr>table_mutex := m\<rparr>) = view t"
  by (simp_all add: view_def)

lemma table_wf_simps [simp]:
  "table_wf (table_new n)"
  "table_wf t \<Longrightarrow> table_wf (table_set k v t)"
  "table_wf t \<Longrightarrow> table_wf (commit_changes t)"
  "table_wf t \<Longrightarrow> table_wf (rollback_changes t)"
  "table_wf (t\<lparr>table_mutex := m\<rparr>) = table_wf t"
  by (auto simp: table_wf_def table_new_def table_set_def commit_changes_def rollback_changes_def
      smap_wf_set smap_wf_fold)

lemma table_mutex_simps [simp]:
  "table_mutex (table_new n) = None"
  "table_mutex (table_set k v t) = table_mutex t"
  "table_mutex (commit_changes t) = table_mutex t"
  "table_mutex (rollback_changes t) = table_mutex t"
  by (simp_all add: table_new_def table_set_def commit_changes_def rollback_changes_def mutex_init_def)

lemma m_name_simps [simp]:
  "m_name (table_new n) = n"
  "m_name (table_set k v t) = m_name t"
  "m_name (commit_changes t) = m_name t"
  "m_name (rollback_changes t) = m_name t"
  by (simp_all add: table_new_def table_set_def commit_changes_def rollback_changes_def)

lemma key_value_temp_simps [simp]:
  "key_value_temp (table_new n) = []"
  "key_value_temp (commit_changes t) = []"
  "key_value_temp (rollback_changes t) = []"
  by (simp_all add: table_new_def commit_changes_def rollback_changes_def)

lemma table_get_view: "table_get k t = (case view t k of
     Some v \<Rightarrow> Inr v | None \<Rightarrow> Inl (OperationException ''The key is not in the map''))"
  by (simp add: table_get_def view_def committed_def pending_def smap_abs_def map_add_def
      split: option.splits)

lemma has_key_view: "has_key k t \<longleftrightarrow> view t k \<noteq> None"
  by (simp add: has_key_def view_def committed_def pending_def smap_abs_def map_add_def
      split: option.splits)

section \<open>The contract\<close>

locale txn_store =
  fixes lookup :: "'k \<Rightarrow> 't \<Rightarrow> 'e + 'v"
    and store :: "'k \<Rightarrow> 'v \<Rightarrow> 't \<Rightarrow> 't"
    and commit :: "'t \<Rightarrow> 't"
    and rollback :: "'t \<Rightarrow> 't"
    and seen :: "'t \<Rightarrow> 'k \<rightharpoonup> 'v"
    and durable :: "'t \<Rightarrow> 'k \<rightharpoonup> 'v"
    and wf :: "'t \<Rightarrow> bool"
  assumes lookup_seen: "(\<exists>v. lookup k t = Inr v) \<longleftrightarrow> k \<in> dom (seen t)"
    and lookup_Inr: "lookup k t = Inr v \<Longrightarrow> seen t k = Some v"
    and seen_store: "seen (store k v t) = (seen t)(k \<mapsto> v)"
    and durable_store: "durable (store k v t) = durable t"
    and durable_commit: "wf t \<Longrightarrow> durable (commit t) = seen t"
    and seen_commit: "wf t \<Longrightarrow> seen (commit t) = seen t"
    and durable_rollback: "durable (rollback t) = durable t"
    and seen_rollback: "seen (rollback t) = durable t"
    and wf_store: "wf t \<Longrightarrow> wf (store k v t)"
begin

definition store_all :: "('k \<times> 'v) list \<Rightarrow> 't \<Rightarrow> 't" where
  "store_all kvs t = fold (\<lambda>(k, v). store k v) kvs t"

lemma store_all_Nil [simp]: "store_all [] t = t"
  by (simp add: store_all_def)

lemma store_all_Cons [simp]: "store_all ((k, v) # kvs) t = store_all kvs (store k v t)"
  by (simp add: store_all_def)

lemma read_own_write: "lookup k (store k v t) = Inr v"
  using lookup_seen [of k "store k v t"] lookup_Inr [of k "store k v t"]
  by (auto simp: seen_store)

lemma seen_store_all: "seen (store_all kvs t) = seen t ++ map_of (rev kvs)"
proof (induction kvs arbitrary: t)
  case (Cons kv kvs)
  then show ?case
    by (cases kv) (simp add: seen_store map_add_upd_left map_add_assoc fun_eq_iff map_add_def
        split: option.splits)
qed simp

lemma durable_store_all: "durable (store_all kvs t) = durable t"
  by (induction kvs arbitrary: t) (auto simp: durable_store)

lemma wf_store_all: "wf t \<Longrightarrow> wf (store_all kvs t)"
  by (induction kvs arbitrary: t) (auto simp: wf_store)

text \<open>All or nothing: a committed run of stores is durable as a whole, a rolled back one leaves no trace.\<close>

lemma commit_all: "wf t \<Longrightarrow> durable (commit (store_all kvs t)) = seen t ++ map_of (rev kvs)"
  by (simp add: durable_commit wf_store_all seen_store_all)

lemma rollback_all:
  "seen (rollback (store_all kvs t)) = durable t" "durable (rollback (store_all kvs t)) = durable t"
  by (simp_all add: seen_rollback durable_rollback durable_store_all)

end

interpretation ts: txn_store table_get table_set commit_changes rollback_changes view committed table_wf
  by unfold_locales
    (auto simp: table_get_view committed_commit view_def split: option.splits)

interpretation tmx: mutex_field table_mutex "\<lambda>m t. t\<lparr>table_mutex := m\<rparr>" "\<lambda>_. True"
  by unfold_locales auto

section \<open>Further facts\<close>

text \<open>Any number of sets on a table, then a commit: the committed entries become the old view with
  all of those sets in it, the last one to a key winning, and nothing is pending. The same sets,
  then a rollback: the committed entries are the ones there were, and that is again what a reader
  sees.\<close>

lemma commit_all_or_nothing:
  fixes t :: table and kvs :: "(string \<times> string) list"
  assumes "table_wf t"
  defines "t' \<equiv> fold (\<lambda>(k, v). table_set k v) kvs t"
  shows "committed (commit_changes t') = view t ++ map_of (rev kvs) \<and> pending (commit_changes t') = Map.empty
    \<and> committed (rollback_changes t') = committed t \<and> view (rollback_changes t') = committed t"
  using ts.commit_all [OF assms(1), of kvs] ts.rollback_all [of kvs t]
  by (simp add: t'_def ts.store_all_def)

lemma commit_all_or_nothing_witness:
  "committed (commit_changes (fold (\<lambda>(k, v). table_set k v) [(''a'', ''1''), (''b'', ''2''), (''a'', ''3'')]
     (table_new ''t''))) ''a'' = Some ''3''"
  using commit_all_or_nothing [of "table_new ''t''" "[(''a'', ''1''), (''b'', ''2''), (''a'', ''3'')]"] by simp

end
