(* ===== verification/Server.thy ===== *)
theory Server
  imports Tables
begin

text \<open>
  The server object (\<^verbatim>\<open>server.h\<close>, \<^verbatim>\<open>server.cpp\<close>): the listening descriptor, the map from names to
  tables with the mutex that protects it, and the tables themselves.  A \<^verbatim>\<open>Table*\<close> is an index
  into the list of tables in the order they were allocated; tables are never freed while the
  server runs.  Using a table without holding its mutex is a data race, so \<open>undef\<close>: that is the
  rule \<^verbatim>\<open>table.h\<close> states for its members.
\<close>

section \<open>The class\<close>

record server =
  listen_fd :: int
  set_of_table :: "(string, addr) smap"
  table_heap :: "table list"
  table_lock :: mutex

definition server_new :: server where
  "server_new = \<lparr>listen_fd = -1, set_of_table = [], table_heap = [], table_lock = mutex_init\<rparr>"

text \<open>\<open>fd\<close> is what \<^verbatim>\<open>open_listenfd\<close> returned for the port.\<close>

definition server_listen :: "int \<Rightarrow> (server, unit) prog" where
  "server_listen fd = seq (modify (\<lambda>s. s\<lparr>listen_fd := fd\<rparr>))
     (bind (gets listen_fd) (\<lambda>l. if l = -1 then throw (OperationException ''fail to listen'')
                                 else ret ()))"

definition server_guard :: "tid \<Rightarrow> (server, 'a) prog \<Rightarrow> (server, 'a) prog" where
  "server_guard i body = guard table_lock (\<lambda>m s. s\<lparr>table_lock := m\<rparr>) i body"

definition new_table :: "string \<Rightarrow> (server, addr) prog" where
  "new_table name = (\<lambda>s. (Ok (length (table_heap s)),
      s\<lparr>table_heap := table_heap s @ [table_new name]\<rparr>))"

definition create_table :: "tid \<Rightarrow> string \<Rightarrow> (server, unit) prog" where
  "create_table i name = server_guard i
     (bind (gets (\<lambda>s. smap_find name (set_of_table s))) (\<lambda>found.
        if found \<noteq> None then throw (OperationException ''Table with that name already exists'')
        else bind (new_table name) (\<lambda>a.
          modify (\<lambda>s. s\<lparr>set_of_table := smap_set name a (set_of_table s)\<rparr>))))"

definition find_table :: "tid \<Rightarrow> string \<Rightarrow> (server, addr) prog" where
  "find_table i name = server_guard i
     (bind (gets (\<lambda>s. smap_find name (set_of_table s))) (\<lambda>found.
        case found of
          Some a \<Rightarrow> ret a
        | None \<Rightarrow> throw (OperationException ''The table that you want to find is not exist'')))"

section \<open>Reaching a table through its pointer\<close>

definition table_at :: "addr \<Rightarrow> server \<Rightarrow> table" where
  "table_at a s = table_heap s ! a"

definition put_table :: "addr \<Rightarrow> table \<Rightarrow> server \<Rightarrow> server" where
  "put_table a t s = s\<lparr>table_heap := (table_heap s)[a := t]\<rparr>"

definition valid_ptr :: "addr \<Rightarrow> server \<Rightarrow> bool" where
  "valid_ptr a s \<longleftrightarrow> a < length (table_heap s)"

text \<open>A member function of the table, which the caller may run only while it holds the mutex.\<close>

definition held :: "tid \<Rightarrow> addr \<Rightarrow> (table \<Rightarrow> exn + 'a) \<Rightarrow> (table \<Rightarrow> table) \<Rightarrow> (server, 'a) prog" where
  "held i a f u = (\<lambda>s.
     if valid_ptr a s \<and> table_mutex (table_at a s) = Some i
     then (case f (table_at a s) of
             Inl e \<Rightarrow> (Exn e, s)
           | Inr x \<Rightarrow> (Ok x, put_table a (u (table_at a s)) s))
     else (Undef, s))"

definition tab_get :: "tid \<Rightarrow> addr \<Rightarrow> string \<Rightarrow> (server, string) prog" where
  "tab_get i a key = held i a (table_get key) id"

definition tab_set :: "tid \<Rightarrow> addr \<Rightarrow> string \<Rightarrow> string \<Rightarrow> (server, unit) prog" where
  "tab_set i a key val = held i a (\<lambda>_. Inr ()) (table_set key val)"

definition tab_commit :: "tid \<Rightarrow> addr \<Rightarrow> (server, unit) prog" where
  "tab_commit i a = held i a (\<lambda>_. Inr ()) commit_changes"

definition tab_rollback :: "tid \<Rightarrow> addr \<Rightarrow> (server, unit) prog" where
  "tab_rollback i a = held i a (\<lambda>_. Inr ()) rollback_changes"

definition tab_trylock :: "tid \<Rightarrow> addr \<Rightarrow> (server, bool) prog" where
  "tab_trylock i a = (\<lambda>s.
     if valid_ptr a s
     then (case trylock_table i (table_at a s) of (b, t) \<Rightarrow> (Ok b, put_table a t s))
     else (Undef, s))"

definition tab_unlock :: "tid \<Rightarrow> addr \<Rightarrow> (server, unit) prog" where
  "tab_unlock i a = (\<lambda>s.
     if valid_ptr a s
     then (case unlock_table i (table_at a s) of (r, t) \<Rightarrow> (r, put_table a t s))
     else (Undef, s))"

section \<open>Well-formed servers\<close>

definition server_wf :: "server \<Rightarrow> bool" where
  "server_wf s \<longleftrightarrow> smap_wf (set_of_table s)
     \<and> (\<forall>n a. smap_find n (set_of_table s) = Some a \<longrightarrow> valid_ptr a s \<and> m_name (table_at a s) = n)
     \<and> (\<forall>a. valid_ptr a s \<longrightarrow> smap_find (m_name (table_at a s)) (set_of_table s) = Some a)
     \<and> (\<forall>a. valid_ptr a s \<longrightarrow> table_wf (table_at a s))
     \<and> (\<forall>a. valid_ptr a s \<longrightarrow> table_mutex (table_at a s) = None \<longrightarrow> key_value_temp (table_at a s) = [])
     \<and> table_lock s = None"

lemma server_wf_new: "server_wf server_new"
  by (simp add: server_wf_def server_new_def valid_ptr_def mutex_init_def)

lemma valid_ptr_simps [simp]:
  "valid_ptr a (put_table b t s) = valid_ptr a s"
  "valid_ptr a (s\<lparr>table_lock := m\<rparr>) = valid_ptr a s"
  "valid_ptr a (s\<lparr>set_of_table := st\<rparr>) = valid_ptr a s"
  by (simp_all add: valid_ptr_def put_table_def)

lemma table_at_simps [simp]:
  "valid_ptr a s \<Longrightarrow> table_at a (put_table b t s) = (if a = b then t else table_at a s)"
  "table_at a (s\<lparr>table_lock := m\<rparr>) = table_at a s"
  "table_at a (s\<lparr>set_of_table := st\<rparr>) = table_at a s"
  by (auto simp: table_at_def valid_ptr_def put_table_def)

lemma put_table_sel [simp]:
  "set_of_table (put_table a t s) = set_of_table s"
  "table_lock (put_table a t s) = table_lock s"
  "listen_fd (put_table a t s) = listen_fd s"
  "length (table_heap (put_table a t s)) = length (table_heap s)"
  by (simp_all add: put_table_def)

lemma put_table_put [simp]: "put_table a t (put_table a t' s) = put_table a t s"
  by (simp add: put_table_def)

lemma put_table_same: "put_table a (table_at a s) s = s"
  by (simp add: put_table_def table_at_def)

lemma server_wfD:
  assumes "server_wf s"
  shows "smap_wf (set_of_table s)" "table_lock s = None"
    and "\<And>n a. smap_find n (set_of_table s) = Some a \<Longrightarrow> valid_ptr a s"
    and "\<And>n a. smap_find n (set_of_table s) = Some a \<Longrightarrow> m_name (table_at a s) = n"
    and "\<And>a. valid_ptr a s \<Longrightarrow> table_wf (table_at a s)"
    and "\<And>a. valid_ptr a s \<Longrightarrow> table_mutex (table_at a s) = None \<Longrightarrow> key_value_temp (table_at a s) = []"
    and "\<And>a. valid_ptr a s \<Longrightarrow> smap_find (m_name (table_at a s)) (set_of_table s) = Some a"
  using assms by (auto simp: server_wf_def)

text \<open>Two names never share a table.\<close>

lemma server_wf_inj:
  "server_wf s \<Longrightarrow> smap_find n (set_of_table s) = Some a \<Longrightarrow> smap_find n' (set_of_table s) = Some a \<Longrightarrow> n = n'"
  by (metis server_wfD(4))

text \<open>Replacing a table by one with the same name, and no pending entries unless it is held.\<close>

lemma server_wf_put:
  assumes "server_wf s" "m_name t = m_name (table_at a s)" "table_wf t"
    and "table_mutex t = None \<Longrightarrow> key_value_temp t = []"
  shows "server_wf (put_table a t s)"
  using assms by (auto simp: server_wf_def)

section \<open>The operations in closed form\<close>

interpretation slk: mutex_field table_lock "\<lambda>m s. s\<lparr>table_lock := m\<rparr>" "\<lambda>_. True"
  by unfold_locales auto

lemmas guard_run = server_guard_def guard_free finally_do_def seq_def bind_def unlock_at_own
  gets_def ret_def throw_def modify_def

lemma relock_same: "table_lock s = None \<Longrightarrow> s\<lparr>table_lock := None\<rparr> = s"
  using slk.put_get [of s] by simp

lemma find_table_run:
  "table_lock s = None \<Longrightarrow> find_table i name s = (case smap_find name (set_of_table s) of
      Some a \<Rightarrow> (Ok a, s)
    | None \<Rightarrow> (Exn (OperationException ''The table that you want to find is not exist''), s))"
  by (cases "smap_find name (set_of_table s)") (simp_all add: find_table_def guard_run relock_same)

lemma find_table_waits: "table_lock s = Some j \<Longrightarrow> find_table i name s = (Blocked, s)"
  by (simp add: find_table_def server_guard_def guard_held)

definition add_table :: "string \<Rightarrow> server \<Rightarrow> server" where
  "add_table name s = s\<lparr>table_heap := table_heap s @ [table_new name],
     set_of_table := smap_set name (length (table_heap s)) (set_of_table s)\<rparr>"

lemma create_table_run:
  assumes "table_lock s = None"
  shows "create_table i name s =
    (if smap_find name (set_of_table s) \<noteq> None
     then (Exn (OperationException ''Table with that name already exists''), s)
     else (Ok (), add_table name s))"
proof -
  have "(add_table name (s\<lparr>table_lock := Some i\<rparr>))\<lparr>table_lock := None\<rparr> = add_table name s"
    using assms by (cases s) (simp add: add_table_def)
  then show ?thesis
    using assms
    by (cases "smap_find name (set_of_table s)")
       (simp_all add: create_table_def guard_run relock_same new_table_def add_table_def)
qed

lemma valid_ptr_add: "valid_ptr a (add_table name s) \<longleftrightarrow> a = length (table_heap s) \<or> valid_ptr a s"
  by (auto simp: valid_ptr_def add_table_def)

lemma table_at_add [simp]:
  "valid_ptr a s \<Longrightarrow> table_at a (add_table name s) = table_at a s"
  "table_at (length (table_heap s)) (add_table name s) = table_new name"
  by (auto simp: table_at_def add_table_def nth_append valid_ptr_def)

lemma add_table_sel [simp]:
  "smap_find n (set_of_table (add_table name s)) =
     (if n = name then Some (length (table_heap s)) else smap_find n (set_of_table s))"
  "table_lock (add_table name s) = table_lock s"
  "listen_fd (add_table name s) = listen_fd s"
  by (simp_all add: add_table_def smap_find_set)

lemma server_wf_add:
  assumes "server_wf s" "smap_find name (set_of_table s) = None"
  shows "server_wf (add_table name s)"
proof -
  have "smap_wf (set_of_table (add_table name s))"
    using assms by (simp add: server_wf_def add_table_def smap_wf_set)
  then show ?thesis
    using server_wfD [OF assms(1)] assms(2) by (auto simp: server_wf_def valid_ptr_add)
qed

lemma tab_trylock_run:
  "valid_ptr a s \<Longrightarrow> tab_trylock i a s = (case table_mutex (table_at a s) of
      None \<Rightarrow> (Ok True, put_table a ((table_at a s)\<lparr>table_mutex := Some i\<rparr>) s)
    | Some j \<Rightarrow> (Ok False, s))"
proof (cases "table_mutex (table_at a s)")
  case (Some j)
  have "(table_at a s)\<lparr>table_mutex := Some j\<rparr> = table_at a s"
    using Some by (cases "table_at a s") simp
  then have "put_table a ((table_at a s)\<lparr>table_mutex := Some j\<rparr>) s = s"
    by (simp only: put_table_same)
  with Some show "valid_ptr a s \<Longrightarrow> ?thesis"
    by (simp add: tab_trylock_def trylock_table_def put_table_same)
qed (simp add: tab_trylock_def trylock_table_def)

lemma tab_unlock_own:
  "valid_ptr a s \<Longrightarrow> table_mutex (table_at a s) = Some i \<Longrightarrow>
   tab_unlock i a s = (Ok (), put_table a ((table_at a s)\<lparr>table_mutex := None\<rparr>) s)"
  by (simp add: tab_unlock_def unlock_table_def unlock_at_own)

lemma held_run:
  "valid_ptr a s \<Longrightarrow> table_mutex (table_at a s) = Some i \<Longrightarrow>
   held i a f u s = (case f (table_at a s) of
      Inl e \<Rightarrow> (Exn e, s) | Inr x \<Rightarrow> (Ok x, put_table a (u (table_at a s)) s))"
  by (simp add: held_def)

lemma held_race: "table_mutex (table_at a s) \<noteq> Some i \<Longrightarrow> held i a f u s = (Undef, s)"
  by (simp add: held_def)

section \<open>Further facts\<close>

text \<open>Creating a table under a new name succeeds, keeps the server well-formed and its lock free;
  afterwards the name is found, creating it again is refused and changes nothing, and every other
  name is found or not found as before.\<close>

lemma create_then_find:
  assumes "server_wf s" "smap_find n (set_of_table s) = None"
  shows "\<exists>s'. create_table i n s = (Ok (), s') \<and> server_wf s'
    \<and> find_table j n s' = (Ok (length (table_heap s)), s')
    \<and> create_table j n s' = (Exn (OperationException ''Table with that name already exists''), s')
    \<and> (\<forall>m. m \<noteq> n \<longrightarrow> fst (find_table j m s') = fst (find_table j m s))"
proof -
  have wf: "server_wf (add_table n s)"
    by (rule server_wf_add [OF assms])
  show ?thesis
    using wf assms server_wfD(2) [OF assms(1)] server_wfD(2) [OF wf]
    by (auto simp: create_table_run find_table_run split: option.split)
qed

lemma create_then_find_witness:
  "\<exists>s'. create_table 0 ''t'' server_new = (Ok (), s') \<and> find_table 1 ''t'' s' = (Ok 0, s')"
  using create_then_find [OF server_wf_new, of "''t''" 0 1] by (auto simp: server_new_def)

end
