(* ===== verification/ValueStack.thy ===== *)
theory ValueStack
  imports KV_Prelude
begin

text \<open>
  The operand stack of a client (\<^verbatim>\<open>value_stack.h\<close>, \<^verbatim>\<open>value_stack.cpp\<close>): a vector whose back is the
  top.  Its contract is the locale \<open>lifo\<close>, over the list of its values from the top down.
\<close>

section \<open>The class\<close>

record value_stack =
  m_vector :: "string list"

definition vs_new :: value_stack where
  "vs_new = \<lparr>m_vector = []\<rparr>"

definition vs_is_empty :: "value_stack \<Rightarrow> bool" where
  "vs_is_empty s \<longleftrightarrow> m_vector s = []"

definition vs_push :: "string \<Rightarrow> value_stack \<Rightarrow> value_stack" where
  "vs_push v s = s\<lparr>m_vector := m_vector s @ [v]\<rparr>"

definition vs_get_top :: "value_stack \<Rightarrow> exn + string" where
  "vs_get_top s =
    (if m_vector s = [] then Inl (OperationException ''fail to get top: The stack is empty'')
     else Inr (last (m_vector s)))"

definition vs_pop :: "value_stack \<Rightarrow> exn + value_stack" where
  "vs_pop s =
    (if m_vector s = [] then Inl (OperationException ''fail to pop: The stack is empty'')
     else Inr (s\<lparr>m_vector := butlast (m_vector s)\<rparr>))"

definition vs_num_of_stack :: "value_stack \<Rightarrow> int" where
  "vs_num_of_stack s = int (length (m_vector s))"

text \<open>The values from the top down: what the stack stands for.\<close>

definition vs_contents :: "value_stack \<Rightarrow> string list" where
  "vs_contents s = rev (m_vector s)"

section \<open>The contract\<close>

locale lifo =
  fixes emp :: "'s"
    and is_emp :: "'s \<Rightarrow> bool"
    and push :: "'v \<Rightarrow> 's \<Rightarrow> 's"
    and top :: "'s \<Rightarrow> 'e + 'v"
    and pop :: "'s \<Rightarrow> 'e + 's"
    and contents :: "'s \<Rightarrow> 'v list"
  assumes contents_emp: "contents emp = []"
    and contents_inj: "contents s = contents s' \<Longrightarrow> s = s'"
    and is_emp_iff: "is_emp s \<longleftrightarrow> contents s = []"
    and contents_push: "contents (push v s) = v # contents s"
    and top_Nil: "contents s = [] \<Longrightarrow> \<exists>e. top s = Inl e"
    and top_Cons: "contents s = v # vs \<Longrightarrow> top s = Inr v"
    and pop_Nil: "contents s = [] \<Longrightarrow> \<exists>e. pop s = Inl e"
    and pop_Cons: "contents s = v # vs \<Longrightarrow> \<exists>s'. pop s = Inr s' \<and> contents s' = vs"
begin

lemma push_not_emp: "\<not> is_emp (push v s)"
  by (simp add: is_emp_iff contents_push)

lemma top_push: "top (push v s) = Inr v"
  by (rule top_Cons) (rule contents_push)

lemma pop_push: "pop (push v s) = Inr s"
  using pop_Cons [OF contents_push, of v s] contents_inj by blast

lemma fails_iff_emp: "(\<exists>e. top s = Inl e) \<longleftrightarrow> is_emp s" "(\<exists>e. pop s = Inl e) \<longleftrightarrow> is_emp s"
  using top_Nil [of s] top_Cons [of s] pop_Nil [of s] pop_Cons [of s]
  by (cases "contents s"; fastforce simp: is_emp_iff)+

text \<open>Taking every value off a stack, top first: \<open>n\<close> times \<open>top\<close> then \<open>pop\<close>.\<close>

fun drain :: "nat \<Rightarrow> 's \<Rightarrow> ('v list \<times> 's) option" where
  "drain 0 s = Some ([], s)"
| "drain (Suc n) s = (case (top s, pop s) of
       (Inr v, Inr s') \<Rightarrow> map_option (\<lambda>(vs, t). (v # vs, t)) (drain n s')
     | _ \<Rightarrow> None)"

lemma drain_push_all: "drain (length vs) (fold push (rev vs) s) = Some (vs, s)"
  by (induction vs) (auto simp: top_push pop_push)

lemma drain_contents: "n \<le> length (contents s) \<Longrightarrow>
    \<exists>t. drain n s = Some (take n (contents s), t) \<and> contents t = drop n (contents s)"
proof (induction n arbitrary: s)
  case (Suc n)
  then obtain v vs where c: "contents s = v # vs"
    by (cases "contents s") auto
  then obtain s' where s': "pop s = Inr s'" "contents s' = vs"
    using pop_Cons by blast
  with Suc.IH [of s'] Suc.prems c show ?case
    by (auto simp: top_Cons)
qed simp

end

lemma vs_contents_inj: "vs_contents s = vs_contents s' \<Longrightarrow> s = s'"
  by (cases s; cases s') (simp add: vs_contents_def)

interpretation vs: lifo vs_new vs_is_empty vs_push vs_get_top vs_pop vs_contents
  by unfold_locales
    (auto simp: vs_new_def vs_is_empty_def vs_push_def vs_get_top_def vs_pop_def vs_contents_def
      last_rev butlast_rev hd_rev rev_swap dest: vs_contents_inj [unfolded vs_contents_def])

lemma vs_num_contents: "vs_num_of_stack s = int (length (vs_contents s))"
  by (simp add: vs_num_of_stack_def vs_contents_def)

text \<open>Reading two operands needs two values, the later one on top.\<close>

lemma vs_two:
  assumes "\<not> vs_num_of_stack s < 2"
  obtains r l vs where "vs_contents s = r # l # vs"
proof -
  from assms have "2 \<le> length (vs_contents s)"
    by (simp add: vs_num_contents)
  then show thesis
    by (metis One_nat_def Suc_1 Suc_le_length_iff that)
qed

lemma vs_pop_Inr: "vs_pop s = Inr s' \<Longrightarrow> vs_contents s' = tl (vs_contents s) \<and> vs_contents s \<noteq> []"
  by (auto simp: vs_pop_def vs_contents_def split: if_splits) (metis butlast_rev rev_rev_ident)

lemma vs_contents_push [simp]: "vs_contents (vs_push v s) = v # vs_contents s"
  by (rule vs.contents_push)

section \<open>Further facts\<close>

text \<open>A client's stack is last in, first out: after pushing a list of values the top is the last one
  pushed, popping gives back the stack before the last push, and get_top and pop throw on exactly
  the empty stack.\<close>

lemma stack_is_lifo:
  "vs_get_top (vs_push v s) = Inr v \<and> vs_pop (vs_push v s) = Inr s
   \<and> vs_num_of_stack (fold vs_push xs s) = vs_num_of_stack s + int (length xs)
   \<and> vs_contents (fold vs_push xs s) = rev xs @ vs_contents s
   \<and> ((\<exists>e. vs_get_top s = Inl (OperationException e)) \<longleftrightarrow> vs_is_empty s)
   \<and> ((\<exists>e. vs_pop s = Inl (OperationException e)) \<longleftrightarrow> vs_is_empty s)"
proof -
  have "vs_contents (fold vs_push xs s) = rev xs @ vs_contents s"
    by (induction xs arbitrary: s) auto
  moreover have "(\<exists>e. vs_get_top s = Inl (OperationException e)) \<longleftrightarrow> vs_is_empty s"
    "(\<exists>e. vs_pop s = Inl (OperationException e)) \<longleftrightarrow> vs_is_empty s"
    by (simp_all add: vs_get_top_def vs_pop_def vs_is_empty_def)
  ultimately show ?thesis
    by (simp add: vs.top_push vs.pop_push vs_num_contents)
qed

end
