(* ===== verification/CInt.thy ===== *)
theory CInt
  imports KV_Prelude "HOL-Library.Signed_Division"
begin

text \<open>
  The parts of the C++ standard library and language that the arithmetic handlers use:
  \<^verbatim>\<open>std::stoi\<close>, \<^verbatim>\<open>std::to_string\<close> and the operators on \<^verbatim>\<open>int\<close>.  An \<^verbatim>\<open>int\<close> is 32 bits wide; an
  operation whose mathematical result does not fit is undefined (\<open>None\<close>), and division truncates
  towards zero.
\<close>

section \<open>int\<close>

definition INT_MIN :: int where "INT_MIN = -(2 ^ 31)"
definition INT_MAX :: int where "INT_MAX = 2 ^ 31 - 1"

definition in_int :: "int \<Rightarrow> bool" where
  "in_int i \<longleftrightarrow> INT_MIN \<le> i \<and> i \<le> INT_MAX"

definition to_int :: "int \<Rightarrow> int option" where
  "to_int i = (if in_int i then Some i else None)"

definition c_add :: "int \<Rightarrow> int \<Rightarrow> int option" where
  "c_add a b = to_int (a + b)"

definition c_sub :: "int \<Rightarrow> int \<Rightarrow> int option" where
  "c_sub a b = to_int (a - b)"

definition c_mul :: "int \<Rightarrow> int \<Rightarrow> int option" where
  "c_mul a b = to_int (a * b)"

definition c_div :: "int \<Rightarrow> int \<Rightarrow> int option" where
  "c_div a b = (if b = 0 then None else to_int (a sdiv b))"

section \<open>stoi and to_string\<close>

datatype stoi_error = Invalid_argument | Out_of_range

definition digit_value :: "char \<Rightarrow> int" where
  "digit_value c = int (char_code c) - 48"

definition digits_value :: "string \<Rightarrow> int" where
  "digits_value ds = foldl (\<lambda>a c. 10 * a + digit_value c) 0 ds"

text \<open>
  \<^verbatim>\<open>strtol(s, &end, 10)\<close>: white space, an optional sign, then as many digits as there are; no digit
  means no conversion.  What follows the digits is not looked at.
\<close>

definition strtol10 :: "string \<Rightarrow> int option" where
  "strtol10 s =
    (let s1 = dropWhile isspace s;
         neg = (s1 \<noteq> [] \<and> hd s1 = CHR ''-'');
         s2 = (if s1 \<noteq> [] \<and> (hd s1 = CHR ''-'' \<or> hd s1 = CHR ''+'') then tl s1 else s1);
         ds = takeWhile isdigit s2
     in if ds = [] then None
        else Some (if neg then - digits_value ds else digits_value ds))"

definition stoi :: "string \<Rightarrow> stoi_error + int" where
  "stoi s = (case strtol10 s of
       None \<Rightarrow> Inl Invalid_argument
     | Some i \<Rightarrow> (if in_int i then Inr i else Inl Out_of_range))"

definition digit_char :: "nat \<Rightarrow> char" where
  "digit_char n = char_of (48 + n)"

fun nat_digits :: "nat \<Rightarrow> string" where
  "nat_digits n = (if n < 10 then [digit_char n] else nat_digits (n div 10) @ [digit_char (n mod 10)])"

declare nat_digits.simps [simp del]

definition int_to_string :: "int \<Rightarrow> string" where
  "int_to_string i = (if i < 0 then CHR ''-'' # nat_digits (nat (- i)) else nat_digits (nat i))"

section \<open>Lemmas\<close>

lemma in_int_bounds: "in_int i \<longleftrightarrow> -2147483648 \<le> i \<and> i \<le> 2147483647"
  by (simp add: in_int_def INT_MIN_def INT_MAX_def)

lemma to_int_Some: "to_int i = Some j \<longleftrightarrow> in_int i \<and> j = i"
  by (auto simp: to_int_def)

lemma sdiv_small:
  fixes a b :: int
  assumes "2 \<le> \<bar>b\<bar>"
  shows "\<bar>a sdiv b\<bar> \<le> \<bar>a\<bar> div 2"
proof -
  have q: "0 \<le> \<bar>a\<bar> div \<bar>b\<bar>" "\<bar>a\<bar> div \<bar>b\<bar> \<le> \<bar>a\<bar> div 2"
    using assms by (auto intro: zdiv_mono2 simp: pos_imp_zdiv_nonneg_iff)
  have "\<bar>a sdiv b\<bar> = \<bar>sgn a * sgn b\<bar> * \<bar>\<bar>a\<bar> div \<bar>b\<bar>\<bar>"
    by (simp add: signed_divide_int_def abs_mult)
  also have "\<dots> \<le> 1 * (\<bar>a\<bar> div \<bar>b\<bar>)"
    using q by (intro mult_mono) (auto simp: abs_mult sgn_if)
  finally show ?thesis using q by simp
qed

text \<open>Division of two ints is undefined for the quotient \<open>INT_MIN / -1\<close> only, past the zero check.\<close>

lemma c_div_None_iff:
  assumes "in_int a" "in_int b" "b \<noteq> 0"
  shows "c_div a b = None \<longleftrightarrow> a = INT_MIN \<and> b = -1"
proof (cases "2 \<le> \<bar>b\<bar>")
  case True
  have "\<bar>a\<bar> \<le> 2147483648"
    using assms(1) by (auto simp: in_int_bounds)
  then have "\<bar>a sdiv b\<bar> \<le> 1073741824"
    using sdiv_small [OF True, of a] by linarith
  then have "in_int (a sdiv b)"
    by (simp add: in_int_bounds abs_le_iff)
  with True assms(3) show ?thesis by (auto simp: c_div_def to_int_def)
next
  case False
  with assms(3) have "b = 1 \<or> b = -1" by linarith
  moreover have "a sdiv 1 = a" "a sdiv -1 = - a"
    by (simp_all add: signed_divide_int_def sgn_if)
  ultimately show ?thesis
    using assms(1) by (auto simp: c_div_def to_int_def in_int_bounds INT_MIN_def)
qed

lemma char_code_digit: "n < 10 \<Longrightarrow> char_code (digit_char n) = 48 + n"
  by (simp add: char_code_def digit_char_def)

lemma isdigit_digit_char: "n < 10 \<Longrightarrow> isdigit (digit_char n)"
  by (simp add: isdigit_def char_code_digit)

lemma digit_value_char: "n < 10 \<Longrightarrow> digit_value (digit_char n) = int n"
  by (simp add: digit_value_def char_code_digit)

lemma nat_digits_digits: "c \<in> set (nat_digits n) \<Longrightarrow> isdigit c"
  by (induction n rule: nat_digits.induct)
     (subst (asm) (2) nat_digits.simps, auto simp: isdigit_digit_char split: if_splits)

lemma nat_digits_ne: "nat_digits n \<noteq> []"
  by (subst nat_digits.simps) simp

lemma digits_value_snoc: "digits_value (ds @ [d]) = 10 * digits_value ds + digit_value d"
  by (simp add: digits_value_def)

lemma digits_value_nat_digits: "digits_value (nat_digits n) = int n"
proof (induction n rule: nat_digits.induct)
  case (1 n)
  show ?case
  proof (cases "n < 10")
    case True
    then show ?thesis
      by (subst nat_digits.simps) (simp add: digits_value_def digit_value_char)
  next
    case False
    have "10 * int (n div 10) + int (n mod 10) = int n"
      by presburger
    with False 1 show ?thesis
      by (subst nat_digits.simps) (simp add: digits_value_snoc digit_value_char)
  qed
qed

lemma length_nat_digits: "n < 10 ^ k \<Longrightarrow> 0 < k \<Longrightarrow> length (nat_digits n) \<le> k"
proof (induction k arbitrary: n)
  case (Suc k)
  show ?case
  proof (cases "n < 10")
    case False
    then have "n div 10 < 10 ^ k" "0 < k"
      using Suc.prems by (auto simp: less_mult_imp_div_less intro: Nat.gr0I)
    with Suc.IH False show ?thesis
      by (subst nat_digits.simps) simp
  qed (simp add: nat_digits.simps)
qed simp

lemma digit_not_sign: "isdigit c \<Longrightarrow> c \<noteq> CHR ''-'' \<and> c \<noteq> CHR ''+''"
  by (auto simp: isdigit_def char_code_def)

lemma strtol10_digits:
  assumes "ds \<noteq> []" "\<forall>c \<in> set ds. isdigit c" "rest = [] \<or> \<not> isdigit (hd rest)"
  shows "strtol10 (ds @ rest) = Some (digits_value ds)"
    and "strtol10 (CHR ''-'' # ds @ rest) = Some (- digits_value ds)"
proof -
  obtain d ds' where d: "ds = d # ds'" "isdigit d" "\<not> isspace d"
    using assms(1,2) by (cases ds) auto
  have tw: "takeWhile isdigit (ds @ rest) = ds"
    using assms(2,3) by (cases rest) (auto simp: takeWhile_append2)
  have dw: "dropWhile isspace (ds @ rest) = ds @ rest"
    using d by simp
  show "strtol10 (ds @ rest) = Some (digits_value ds)"
    using tw dw d digit_not_sign [OF d(2)] by (simp add: strtol10_def)
  show "strtol10 (CHR ''-'' # ds @ rest) = Some (- digits_value ds)"
    using tw assms(1) by (simp add: strtol10_def isspace_def)
qed

lemma strtol10_to_string: "strtol10 (int_to_string i) = Some i"
  using strtol10_digits [of "nat_digits (nat i)" "[]"] strtol10_digits [of "nat_digits (nat (- i))" "[]"]
  by (auto simp: int_to_string_def nat_digits_ne nat_digits_digits digits_value_nat_digits)

lemma stoi_to_string: "in_int i \<Longrightarrow> stoi (int_to_string i) = Inr i"
  by (simp add: stoi_def strtol10_to_string)

lemma stoi_in_int: "stoi s = Inr i \<Longrightarrow> in_int i"
  by (auto simp: stoi_def split: option.splits if_splits)

lemma int_to_string_chars: "c \<in> set (int_to_string i) \<Longrightarrow> isdigit c \<or> c = CHR ''-''"
  by (auto simp: int_to_string_def dest: nat_digits_digits split: if_splits)

lemma int_to_string_ne: "int_to_string i \<noteq> []"
  by (simp add: int_to_string_def nat_digits_ne)

lemma length_int_to_string:
  assumes "in_int i"
  shows "length (int_to_string i) \<le> 11"
proof -
  have "length (nat_digits (nat i)) \<le> 10" "length (nat_digits (nat (- i))) \<le> 10"
    using assms by (auto intro!: length_nat_digits simp: in_int_bounds)
  then show ?thesis by (simp add: int_to_string_def)
qed

section \<open>Further facts\<close>

text \<open>Past its check for zero, DIV is undefined for one pair of ints only, the least int divided by
  -1.\<close>

lemma division_undefined_iff:
  assumes "in_int a" "in_int b" "b \<noteq> 0"
  shows "c_div a b = None \<longleftrightarrow> a = INT_MIN \<and> b = -1"
  by (rule c_div_None_iff [OF assms])

lemma division_undefined_iff_witness:
  "c_div (-2147483648) (-1) = None \<and> c_div 7 (-1) \<noteq> None"
  using division_undefined_iff [of "-2147483648" "-1"] division_undefined_iff [of 7 "-1"]
  by (simp add: in_int_bounds INT_MIN_def)

end
