(* ===== verification/Messages.thy ===== *)
theory Messages
  imports KV_Prelude
begin

text \<open>
  The protocol's messages (\<^verbatim>\<open>message.h\<close>, \<^verbatim>\<open>message.cpp\<close>): the type tag, the argument vector,
  the accessors and the validity check.  The accessors of the source index the vector without
  a check (\<^verbatim>\<open>m_args[i]\<close>), which past its end is undefined: they return an option, \<open>None\<close> for
  undefined, and \<open>valid_accessors\<close> shows that a valid message never gets there.
\<close>

section \<open>Message types and messages\<close>

datatype message_type =
    NONE
  | LOGIN | CREATE | PUSH | POP | TOP | SET | GET | ADD | SUB | MUL | DIV | BEGIN | COMMIT | BYE
  | OK | FAILED | ERROR | DATA

text \<open>The value of an enumerator; requests come before responses.\<close>

fun message_code :: "message_type \<Rightarrow> nat" where
  "message_code NONE = 0"
| "message_code LOGIN = 1"
| "message_code CREATE = 2"
| "message_code PUSH = 3"
| "message_code POP = 4"
| "message_code TOP = 5"
| "message_code SET = 6"
| "message_code GET = 7"
| "message_code ADD = 8"
| "message_code SUB = 9"
| "message_code MUL = 10"
| "message_code DIV = 11"
| "message_code BEGIN = 12"
| "message_code COMMIT = 13"
| "message_code BYE = 14"
| "message_code OK = 15"
| "message_code FAILED = 16"
| "message_code ERROR = 17"
| "message_code DATA = 18"

lemma message_code_inject: "message_code s = message_code t \<longleftrightarrow> s = t"
  by (cases s; cases t; simp)

instantiation message_type :: linorder
begin

definition less_eq_message_type :: "message_type \<Rightarrow> message_type \<Rightarrow> bool" where
  "less_eq_message_type s t \<longleftrightarrow> message_code s \<le> message_code t"

definition less_message_type :: "message_type \<Rightarrow> message_type \<Rightarrow> bool" where
  "less_message_type s t \<longleftrightarrow> message_code s < message_code t"

instance
  by standard (auto simp: less_eq_message_type_def less_message_type_def message_code_inject)

end

text \<open>The types a client may send.\<close>

definition request_type :: "message_type \<Rightarrow> bool" where
  "request_type t \<longleftrightarrow> LOGIN \<le> t \<and> t \<le> BYE"

record message =
  m_message_type :: message_type
  m_args :: "string list"

definition MAX_ENCODED_LEN :: nat where
  "MAX_ENCODED_LEN = 1024"

definition message_empty :: message where
  "message_empty = \<lparr>m_message_type = NONE, m_args = []\<rparr>"

definition Message :: "message_type \<Rightarrow> string list \<Rightarrow> message" where
  "Message t args = \<lparr>m_message_type = t, m_args = args\<rparr>"

definition get_message_type :: "message \<Rightarrow> message_type" where
  "get_message_type msg = m_message_type msg"

definition set_message_type :: "message_type \<Rightarrow> message \<Rightarrow> message" where
  "set_message_type t msg = msg\<lparr>m_message_type := t\<rparr>"

definition push_arg :: "string \<Rightarrow> message \<Rightarrow> message" where
  "push_arg arg msg = msg\<lparr>m_args := m_args msg @ [arg]\<rparr>"

definition get_num_args :: "message \<Rightarrow> nat" where
  "get_num_args msg = length (m_args msg)"

text \<open>\<^verbatim>\<open>m_args[i]\<close>: undefined past the end of the vector.\<close>

fun vec_at :: "'a list \<Rightarrow> nat \<Rightarrow> 'a option" where
  "vec_at [] i = None"
| "vec_at (x # xs) 0 = Some x"
| "vec_at (x # xs) (Suc i) = vec_at xs i"

text \<open>\<^verbatim>\<open>m_args.at(i)\<close>: throws past the end of the vector.\<close>

definition get_arg :: "nat \<Rightarrow> message \<Rightarrow> exn + string" where
  "get_arg i msg = (case vec_at (m_args msg) i of
       None \<Rightarrow> Inl (RuntimeError ''vector::at'') | Some s \<Rightarrow> Inr s)"

definition get_username :: "message \<Rightarrow> string option" where
  "get_username msg = vec_at (m_args msg) 0"

definition get_table :: "message \<Rightarrow> string option" where
  "get_table msg = vec_at (m_args msg) 0"

definition get_key :: "message \<Rightarrow> string option" where
  "get_key msg = vec_at (m_args msg) 1"

definition get_value :: "message \<Rightarrow> string option" where
  "get_value msg = vec_at (m_args msg) 0"

definition unquote :: "string \<Rightarrow> string" where
  "unquote arg = (if 2 \<le> length arg \<and> hd arg = CHR 0x22 \<and> last arg = CHR 0x22
                  then butlast (tl arg) else arg)"

definition get_quoted_text :: "message \<Rightarrow> string" where
  "get_quoted_text msg = (case m_args msg of [] \<Rightarrow> [] | arg # _ \<Rightarrow> unquote arg)"

section \<open>Validity\<close>

fun is_identifier :: "string \<Rightarrow> bool" where
  "is_identifier [] = False"
| "is_identifier (c # cs) = (isalpha c \<and> list_all (\<lambda>d. isalnum d \<or> d = CHR 0x5F) cs)"

definition is_value :: "string \<Rightarrow> bool" where
  "is_value s = (s \<noteq> [] \<and> list_all (\<lambda>c. \<not> isspace c) s)"

definition args_identifier1 :: "string list \<Rightarrow> bool" where
  "args_identifier1 args = (case args of [a] \<Rightarrow> is_identifier a | _ \<Rightarrow> False)"

definition args_identifier2 :: "string list \<Rightarrow> bool" where
  "args_identifier2 args = (case args of [a, b] \<Rightarrow> is_identifier a \<and> is_identifier b | _ \<Rightarrow> False)"

definition args_value1 :: "string list \<Rightarrow> bool" where
  "args_value1 args = (case args of [a] \<Rightarrow> is_value a | _ \<Rightarrow> False)"

fun is_valid :: "message \<Rightarrow> bool" where
  "is_valid msg =
    (let args = m_args msg in
     case m_message_type msg of
       LOGIN \<Rightarrow> args_identifier1 args
     | CREATE \<Rightarrow> args_identifier1 args
     | PUSH \<Rightarrow> args_value1 args
     | SET \<Rightarrow> args_identifier2 args
     | GET \<Rightarrow> args_identifier2 args
     | POP \<Rightarrow> args = [] | TOP \<Rightarrow> args = [] | ADD \<Rightarrow> args = [] | SUB \<Rightarrow> args = []
     | MUL \<Rightarrow> args = [] | DIV \<Rightarrow> args = [] | BEGIN \<Rightarrow> args = [] | COMMIT \<Rightarrow> args = []
     | BYE \<Rightarrow> args = [] | OK \<Rightarrow> args = []
     | FAILED \<Rightarrow> length args = 1
     | ERROR \<Rightarrow> length args = 1
     | DATA \<Rightarrow> args_value1 args
     | NONE \<Rightarrow> False)"

section \<open>Lemmas\<close>

declare is_valid.simps [simp del]

lemma message_sel [simp]:
  "m_message_type (Message t args) = t" "m_args (Message t args) = args"
  by (simp_all add: Message_def)

lemma get_message_type_message [simp]: "get_message_type (Message t args) = t"
  by (simp add: get_message_type_def)

lemma message_collapse: "Message (m_message_type msg) (m_args msg) = msg"
  by (simp add: Message_def)

lemma identifier_chars:
  "is_identifier s \<Longrightarrow> c \<in> set s \<Longrightarrow> isalnum c \<or> c = CHR 0x5F"
  by (cases s) (auto simp: list_all_iff isalnum_def)

lemma identifier_no_space: "is_identifier s \<Longrightarrow> c \<in> set s \<Longrightarrow> \<not> isspace c"
  by (drule (1) identifier_chars) (auto simp: char_simps)

lemma identifier_is_value: "is_identifier s \<Longrightarrow> is_value s"
  using identifier_no_space [of s] by (cases "s = []") (auto simp: is_value_def list_all_iff)

lemma identifier_no_nul: "is_identifier s \<Longrightarrow> nul \<notin> set s"
  by (auto dest: identifier_chars simp: char_simps)

lemma value_no_space: "is_value s \<Longrightarrow> c \<in> set s \<Longrightarrow> \<not> isspace c"
  by (auto simp: is_value_def list_all_iff)

text \<open>The arguments of a message that is not a FAILED or ERROR text are blank-free words.\<close>

lemma valid_args_values:
  assumes "is_valid msg" "m_message_type msg \<notin> {FAILED, ERROR}" "a \<in> set (m_args msg)"
  shows "is_value a"
  using assms
  by (cases "m_message_type msg")
     (auto simp: is_valid.simps args_identifier1_def args_identifier2_def args_value1_def
       identifier_is_value split: list.splits)

lemma valid_accessors:
  "is_valid msg \<Longrightarrow> m_message_type msg \<in> {LOGIN, CREATE} \<Longrightarrow>
     \<exists>t. m_args msg = [t] \<and> get_table msg = Some t \<and> get_username msg = Some t \<and> is_identifier t"
  "is_valid msg \<Longrightarrow> m_message_type msg \<in> {SET, GET} \<Longrightarrow>
     \<exists>t k. m_args msg = [t, k] \<and> get_table msg = Some t \<and> get_key msg = Some k
       \<and> is_identifier t \<and> is_identifier k"
  "is_valid msg \<Longrightarrow> m_message_type msg \<in> {PUSH, DATA} \<Longrightarrow>
     \<exists>v. m_args msg = [v] \<and> get_value msg = Some v \<and> is_value v"
  by (auto simp: is_valid.simps args_identifier1_def args_identifier2_def args_value1_def
      get_table_def get_username_def get_key_def get_value_def split: list.splits)

end
