(* ===== verification/Serialization.thy ===== *)
theory Serialization
  imports Messages
begin

text \<open>
  The wire format (\<^verbatim>\<open>message_serialization.cpp\<close>).  \<open>encode\<close> writes the command word, then each
  argument after a blank, then a newline; \<open>decode\<close> checks length and terminator, skips leading
  white space, cuts the command word at the first blank, takes the rest of a FAILED or ERROR line
  whole and splits the rest of any other line into words, and validates the result.
\<close>

section \<open>encode\<close>

fun command_str :: "message_type \<Rightarrow> string option" where
  "command_str LOGIN = Some ''LOGIN''"
| "command_str CREATE = Some ''CREATE''"
| "command_str PUSH = Some ''PUSH''"
| "command_str POP = Some ''POP''"
| "command_str TOP = Some ''TOP''"
| "command_str SET = Some ''SET''"
| "command_str GET = Some ''GET''"
| "command_str ADD = Some ''ADD''"
| "command_str SUB = Some ''SUB''"
| "command_str MUL = Some ''MUL''"
| "command_str DIV = Some ''DIV''"
| "command_str BEGIN = Some ''BEGIN''"
| "command_str COMMIT = Some ''COMMIT''"
| "command_str BYE = Some ''BYE''"
| "command_str OK = Some ''OK''"
| "command_str FAILED = Some ''FAILED''"
| "command_str ERROR = Some ''ERROR''"
| "command_str DATA = Some ''DATA''"
| "command_str NONE = None"

text \<open>The loop over the arguments: each is written after a blank.\<close>

fun args_str :: "string list \<Rightarrow> string" where
  "args_str [] = []"
| "args_str (a # as) = blank # a @ args_str as"

definition encode :: "message \<Rightarrow> exn + string" where
  "encode msg = (case command_str (get_message_type msg) of
       None \<Rightarrow> Inl (InvalidMessage ''Cannot encode message with invalid or NONE type'')
     | Some cmd \<Rightarrow>
         (let encoded_msg = cmd @ args_str (m_args msg) @ [newline]
          in if length encoded_msg > MAX_ENCODED_LEN
             then Inl (InvalidMessage ''Encoded message exceeds maximum length'')
             else Inr encoded_msg))"

section \<open>decode\<close>

text \<open>The words \<^verbatim>\<open>ss >> token\<close> extracts until the stream is exhausted.\<close>

function tokens :: "string \<Rightarrow> string list" where
  "tokens s = (let s' = dropWhile isspace s in
     if s' = [] then []
     else takeWhile (\<lambda>c. \<not> isspace c) s' # tokens (dropWhile (\<lambda>c. \<not> isspace c) s'))"
  by pat_completeness auto
termination
proof (relation "measure length")
  fix s s' :: string
  assume s': "s' = dropWhile isspace s" and ne: "s' \<noteq> []"
  then have "\<not> isspace (hd s')"
    using hd_dropWhile [of isspace s] by simp
  with ne have "length (dropWhile (\<lambda>c. \<not> isspace c) s') < length s'"
    by (cases s') (auto simp: less_Suc_eq_le dropWhile_length_le)
  also have "\<dots> \<le> length s"
    by (simp add: s' dropWhile_length_le)
  finally show "(dropWhile (\<lambda>c. \<not> isspace c) s', s) \<in> measure length"
    by simp
qed simp

declare tokens.simps [simp del]

text \<open>\<^verbatim>\<open>line.find(' ')\<close>: the position of the first blank.\<close>

definition find_blank :: "string \<Rightarrow> nat option" where
  "find_blank s = (let i = length (takeWhile (\<lambda>c. c \<noteq> blank) s)
                   in if i < length s then Some i else None)"

definition command_of :: "string \<Rightarrow> message_type option" where
  "command_of s =
    (if s = ''LOGIN'' then Some LOGIN
     else if s = ''CREATE'' then Some CREATE
     else if s = ''PUSH'' then Some PUSH
     else if s = ''POP'' then Some POP
     else if s = ''TOP'' then Some TOP
     else if s = ''SET'' then Some SET
     else if s = ''GET'' then Some GET
     else if s = ''ADD'' then Some ADD
     else if s = ''SUB'' then Some SUB
     else if s = ''MUL'' then Some MUL
     else if s = ''DIV'' then Some DIV
     else if s = ''BEGIN'' then Some BEGIN
     else if s = ''COMMIT'' then Some COMMIT
     else if s = ''BYE'' then Some BYE
     else if s = ''OK'' then Some OK
     else if s = ''FAILED'' then Some FAILED
     else if s = ''ERROR'' then Some ERROR
     else if s = ''DATA'' then Some DATA
     else None)"

text \<open>The command word and the arguments of a line without its terminator.\<close>

definition split_line :: "string \<Rightarrow> string \<times> string list" where
  "split_line line = (case find_blank line of
       None \<Rightarrow> (line, [])
     | Some i \<Rightarrow>
         (let cmd = take i line; rest = drop (Suc i) line
          in if cmd = ''FAILED'' \<or> cmd = ''ERROR'' then (cmd, [rest])
             else (cmd, tokens rest)))"

definition decode_line :: "string \<Rightarrow> exn + message" where
  "decode_line line =
    (if line = [] then Inl (InvalidMessage ''Message is empty'')
     else (case split_line line of (cmd, args) \<Rightarrow>
       (case command_of cmd of
          None \<Rightarrow> Inl (InvalidMessage ''Unknown command'')
        | Some t \<Rightarrow>
            (let msg = fold push_arg args (set_message_type t message_empty)
             in if is_valid msg then Inr msg
                else Inl (InvalidMessage ''Invalid message format for the given type'')))))"

definition decode :: "string \<Rightarrow> exn + message" where
  "decode s =
    (if length s > MAX_ENCODED_LEN
     then Inl (InvalidMessage ''Encoded message exceeds maximum length'')
     else if s = [] \<or> last s \<noteq> newline
     then Inl (InvalidMessage ''Message is not terminated by newline'')
     else decode_line (dropWhile isspace (butlast s)))"

section \<open>Lemmas on words and lines\<close>

lemma args_str_conv: "args_str args = concat (map (\<lambda>a. blank # a) args)"
  by (induction args) auto

lemma tokens_Nil [simp]: "tokens [] = []"
  by (simp add: tokens.simps)

lemma tokens_skip: "isspace c \<Longrightarrow> tokens (c # s) = tokens s"
  by (subst (1 2) tokens.simps) simp

text \<open>A word followed by the end of the line or by white space is the first token.\<close>

lemma tokens_word:
  assumes "is_value a" "rest = [] \<or> isspace (hd rest)"
  shows "tokens (a @ rest) = a # tokens rest"
proof -
  have ne: "a \<noteq> []" and ns: "\<forall>c \<in> set a. \<not> isspace c"
    using assms(1) by (auto simp: is_value_def list_all_iff)
  have d: "dropWhile isspace (a @ rest) = a @ rest"
    using ne ns by (cases a) auto
  have "takeWhile (\<lambda>c. \<not> isspace c) (a @ rest) = a"
    and "dropWhile (\<lambda>c. \<not> isspace c) (a @ rest) = rest"
    using ns assms(2) by (cases rest; simp add: takeWhile_append2 dropWhile_append2)+
  then show ?thesis
    using ne by (subst tokens.simps) (simp add: d)
qed

lemma tokens_args: "list_all is_value args \<Longrightarrow> tokens (args_str args) = args"
proof (induction args)
  case (Cons a args)
  have "args_str args = [] \<or> isspace (hd (args_str args))"
    by (cases args) auto
  with Cons show ?case
    by (simp add: tokens_skip tokens_word)
qed simp

lemma tokens_are_values: "t \<in> set (tokens s) \<Longrightarrow> is_value t"
proof (induction s rule: tokens.induct)
  case (1 s)
  let ?s' = "dropWhile isspace s"
  have ne: "?s' \<noteq> []"
    using "1.prems" by (subst (asm) tokens.simps) (auto simp: Let_def split: if_splits)
  then obtain c cs where s': "?s' = c # cs" and c: "\<not> isspace c"
    using hd_dropWhile [of isspace s] by (cases ?s') auto
  from "1.prems" ne have "t = takeWhile (\<lambda>c. \<not> isspace c) ?s'
      \<or> t \<in> set (tokens (dropWhile (\<lambda>c. \<not> isspace c) ?s'))"
    by (subst (asm) tokens.simps) (simp add: Let_def del: dropWhile_eq_Nil_conv)
  then show ?case
  proof
    assume t: "t = takeWhile (\<lambda>c. \<not> isspace c) ?s'"
    then show ?thesis
      using c by (auto simp: is_value_def list_all_iff s' dest: set_takeWhileD)
  qed (use "1.IH" ne in blast)
qed

text \<open>Splitting a line into words never yields more bytes than the line has.\<close>

lemma args_str_tokens_length:
  "(s = [] \<or> isspace (hd s) \<longrightarrow> length (args_str (tokens s)) \<le> length s)
   \<and> length (args_str (tokens s)) \<le> Suc (length s)"
proof (induction s rule: tokens.induct)
  case (1 s)
  let ?s' = "dropWhile isspace s"
  let ?d = "dropWhile (\<lambda>c. \<not> isspace c) ?s'"
  show ?case
  proof (cases "?s' = []")
    case True
    then show ?thesis by (subst (1 2) tokens.simps) simp
  next
    case False
    have split: "length (takeWhile (\<lambda>c. \<not> isspace c) ?s') + length ?d = length ?s'"
      by (metis length_append takeWhile_dropWhile_id)
    have "?d = [] \<or> isspace (hd ?d)"
      using hd_dropWhile [of "\<lambda>c. \<not> isspace c" ?s'] by blast
    with "1.IH" False have "length (args_str (tokens ?d)) \<le> length ?d"
      by blast
    moreover have "args_str (tokens s) =
        blank # takeWhile (\<lambda>c. \<not> isspace c) ?s' @ args_str (tokens ?d)"
      using False by (subst tokens.simps) (simp add: Let_def del: dropWhile_eq_Nil_conv)
    ultimately have "length (args_str (tokens s)) \<le> Suc (length ?s')"
      using split by simp
    moreover have "length ?s' \<le> length s"
      by (rule dropWhile_length_le)
    moreover have "length ?s' < length s" if "s \<noteq> []" "isspace (hd s)"
      using that by (cases s) (auto simp: less_Suc_eq_le dropWhile_length_le)
    moreover have "s \<noteq> []"
      using False by auto
    ultimately show ?thesis by linarith
  qed
qed

lemma command_of_str: "command_str t = Some s \<Longrightarrow> command_of s = Some t"
  by (cases t; simp add: command_of_def; erule subst; simp)

lemma if_SomeE:
  "(if b then Some x else r) = Some t \<Longrightarrow> (b \<Longrightarrow> x = t \<Longrightarrow> P) \<Longrightarrow> (r = Some t \<Longrightarrow> P) \<Longrightarrow> P"
  by (cases b) simp_all

lemma command_str_of: "command_of s = Some t \<Longrightarrow> command_str t = Some s"
  unfolding command_of_def by (elim if_SomeE) (simp_all, blast?)

lemma command_of_iff: "command_of s = Some t \<longleftrightarrow> command_str t = Some s"
  by (auto dest: command_of_str command_str_of)

lemma command_str_props:
  assumes "command_str t = Some s"
  shows "s \<noteq> []" "\<forall>c \<in> set s. c \<noteq> blank \<and> \<not> isspace c \<and> c \<noteq> nul \<and> c \<noteq> newline" "length s \<le> 6"
  using assms by (cases t; auto simp: isspace_def)+

lemma command_str_text:
  "command_str t = Some s \<Longrightarrow> (s = ''FAILED'' \<or> s = ''ERROR'') = (t = FAILED \<or> t = ERROR)"
  by (cases t) auto

lemma is_valid_command: "is_valid msg \<Longrightarrow> \<exists>s. command_str (m_message_type msg) = Some s"
  by (cases "m_message_type msg") (auto simp: is_valid.simps)

lemma find_blank_None: "find_blank s = None \<longleftrightarrow> blank \<notin> set s"
proof -
  have "length (takeWhile (\<lambda>c. c \<noteq> blank) s) < length s \<longleftrightarrow> blank \<in> set s"
    by (induction s) auto
  then show ?thesis by (auto simp: find_blank_def Let_def)
qed

lemma find_blank_append:
  "\<forall>c \<in> set s. c \<noteq> blank \<Longrightarrow> find_blank (s @ blank # r) = Some (length s)"
  by (simp add: find_blank_def takeWhile_append_stop)

lemma find_blank_SomeD:
  "find_blank s = Some i \<Longrightarrow> s = take i s @ blank # drop (Suc i) s \<and> i < length s"
proof -
  assume "find_blank s = Some i"
  then have i: "i = length (takeWhile (\<lambda>c. c \<noteq> blank) s)" "i < length s"
    by (auto simp: find_blank_def Let_def split: if_splits)
  then have "s ! i = blank"
    using nth_length_takeWhile [of "\<lambda>c. c \<noteq> blank" s] by simp
  with i show ?thesis
    using id_take_nth_drop [of i s] by simp
qed

lemma fold_push_arg:
  "fold push_arg args msg = msg\<lparr>m_args := m_args msg @ args\<rparr>"
  by (induction args arbitrary: msg) (auto simp: push_arg_def)

lemma decoded_message: "fold push_arg args (set_message_type t message_empty) = Message t args"
  by (simp add: fold_push_arg set_message_type_def message_empty_def Message_def)

section \<open>Lemmas on whole messages\<close>

text \<open>The line \<open>encode\<close> writes, before its newline.\<close>

definition message_line :: "string \<Rightarrow> message \<Rightarrow> string" where
  "message_line cmd msg = cmd @ args_str (m_args msg)"

lemma encode_Inr:
  "encode msg = Inr s \<longleftrightarrow>
     (\<exists>cmd. command_str (m_message_type msg) = Some cmd \<and> s = message_line cmd msg @ [newline]
        \<and> length s \<le> MAX_ENCODED_LEN)"
  by (auto simp: encode_def get_message_type_def message_line_def Let_def split: option.splits if_splits)

lemma encode_Inl: "encode msg = Inl e \<Longrightarrow> \<exists>t. e = InvalidMessage t"
  by (auto simp: encode_def Let_def split: option.splits if_splits)

lemma split_line_message:
  assumes valid: "is_valid msg" and cmd: "command_str (m_message_type msg) = Some cmd"
  shows "split_line (message_line cmd msg) = (cmd, m_args msg)"
proof (cases "m_args msg")
  case Nil
  have "blank \<notin> set cmd"
    using command_str_props(2) [OF cmd] by blast
  then have "find_blank cmd = None"
    by (simp only: find_blank_None not_False_eq_True)
  with Nil show ?thesis
    by (simp add: split_line_def message_line_def)
next
  case (Cons a as)
  have fb: "find_blank (message_line cmd msg) = Some (length cmd)"
    using command_str_props(2) [OF cmd] Cons by (simp add: message_line_def find_blank_append)
  show ?thesis
  proof (cases "m_message_type msg = FAILED \<or> m_message_type msg = ERROR")
    case True
    then have "as = []"
      using valid Cons by (auto simp: is_valid.simps)
    with True fb Cons command_str_text [OF cmd] show ?thesis
      by (simp add: split_line_def message_line_def)
  next
    case False
    then have vals: "list_all is_value (m_args msg)"
      using valid_args_values [OF valid] by (auto simp: list_all_iff)
    have "tokens (a @ args_str as) = m_args msg"
      using tokens_args [OF vals] Cons by (simp add: tokens_skip)
    with False fb Cons command_str_text [OF cmd] show ?thesis
      by (simp add: split_line_def message_line_def)
  qed
qed

lemma decode_line_message:
  assumes "is_valid msg" "command_str (m_message_type msg) = Some cmd"
  shows "decode_line (message_line cmd msg) = Inr msg"
proof -
  have "message_line cmd msg \<noteq> []"
    using command_str_props(1) [OF assms(2)] by (simp add: message_line_def)
  with assms show ?thesis
    by (simp add: decode_line_def split_line_message command_of_str decoded_message
        message_collapse)
qed

lemma decode_encode:
  assumes "is_valid msg" "encode msg = Inr s"
  shows "decode s = Inr msg"
proof -
  obtain cmd where cmd: "command_str (m_message_type msg) = Some cmd"
    and s: "s = message_line cmd msg @ [newline]" and len: "length s \<le> MAX_ENCODED_LEN"
    using assms(2) unfolding encode_Inr by blast
  have "dropWhile isspace (message_line cmd msg) = message_line cmd msg"
    using command_str_props(1,2) [OF cmd] by (cases cmd) (auto simp: message_line_def)
  with len show ?thesis
    by (simp add: decode_def s decode_line_message [OF assms(1) cmd])
qed

text \<open>What \<open>decode\<close> accepts: a valid message, the line of whose canonical form is no longer.\<close>

lemma split_line_length:
  assumes "split_line line = (cmd, args)"
  shows "length (cmd @ args_str args) \<le> length line"
proof (cases "find_blank line")
  case (Some i)
  let ?rest = "drop (Suc i) line"
  have i: "i < length line"
    using find_blank_SomeD [OF Some] by simp
  have "length (args_str (tokens ?rest)) \<le> Suc (length ?rest)"
    using args_str_tokens_length by blast
  moreover have "args_str [?rest] = blank # ?rest" "length ?rest = length line - Suc i"
    by simp_all
  moreover have "cmd = take i line \<and> (args = [?rest] \<or> args = tokens ?rest)"
    using assms Some by (simp add: split_line_def Let_def split: if_splits)
  ultimately show ?thesis
    using i by auto
qed (use assms in \<open>auto simp: split_line_def\<close>)

lemma decode_lineD:
  assumes "decode_line line = Inr msg"
  shows "is_valid msg \<and> (\<exists>cmd. command_str (m_message_type msg) = Some cmd
           \<and> split_line line = (cmd, m_args msg))"
  using assms
  unfolding decode_line_def decoded_message Let_def
  by (auto simp: command_of_iff split: if_splits option.splits prod.splits)

lemma decodeD:
  assumes "decode s = Inr msg"
  shows "is_valid msg" "length s \<le> MAX_ENCODED_LEN"
    and "\<exists>cmd. command_str (m_message_type msg) = Some cmd
           \<and> split_line (dropWhile isspace (butlast s)) = (cmd, m_args msg)"
  using assms by (auto simp: decode_def split: if_splits dest: decode_lineD)

lemma decode_Inl: "decode s = Inl e \<Longrightarrow> \<exists>t. e = InvalidMessage t"
  by (auto simp: decode_def decode_line_def Let_def split: if_splits option.splits prod.splits)

lemma decode_reencode:
  assumes "decode s = Inr msg"
  shows "\<exists>s'. encode msg = Inr s' \<and> length s' \<le> length s"
proof -
  obtain cmd where cmd: "command_str (m_message_type msg) = Some cmd"
    and split: "split_line (dropWhile isspace (butlast s)) = (cmd, m_args msg)"
    using decodeD(3) [OF assms] by blast
  have "s \<noteq> []"
    using assms by (auto simp: decode_def split: if_splits)
  then have "length (dropWhile isspace (butlast s)) < length s"
    using dropWhile_length_le [of isspace "butlast s"] by (cases s rule: rev_cases) auto
  then have "length (message_line cmd msg @ [newline]) \<le> length s"
    using split_line_length [OF split] by (simp add: message_line_def)
  moreover from this have "length (message_line cmd msg @ [newline]) \<le> MAX_ENCODED_LEN"
    using decodeD(2) [OF assms] by simp
  ultimately show ?thesis
    using cmd by (auto simp: encode_Inr)
qed

section \<open>Further facts\<close>

text \<open>What decode accepts: only valid messages, and each of them has an encoding no longer than the
  accepted line, which decodes to the same message.\<close>

lemma decode_canonical:
  assumes "decode s = Inr msg"
  shows "is_valid msg \<and> (\<exists>s'. encode msg = Inr s' \<and> length s' \<le> length s \<and> decode s' = Inr msg)"
  using decodeD(1) [OF assms] decode_reencode [OF assms] decode_encode by blast

lemma decode_canonical_witness:
  "is_valid (Message GET [''t'', ''k''])"
proof -
  have "decode (''  GET   t  k '' @ [newline]) = Inr (Message GET [''t'', ''k''])"
    by code_simp
  with decode_canonical show ?thesis by blast
qed

section \<open>Properties\<close>

text \<open>C19: Decoding the encoding of a valid message gives the message back, for every message type and
  every argument.\<close>

theorem decode_encode_roundtrip:
  assumes "is_valid msg" "encode msg = Inr s"
  shows "decode s = Inr msg"
  by (rule decode_encode [OF assms])

theorem decode_encode_roundtrip_witness:
  "decode (''SET accounts k_1'' @ [newline]) = Inr (Message SET [''accounts'', ''k_1''])"
proof -
  have "is_valid (Message SET [''accounts'', ''k_1''])"
    "encode (Message SET [''accounts'', ''k_1'']) = Inr (''SET accounts k_1'' @ [newline])"
    by code_simp+
  then show ?thesis by (rule decode_encode_roundtrip)
qed

end
