(* ===== verification/Connection.thy ===== *)
theory Connection
  imports Server ValueStack CInt Serialization
begin

text \<open>
  One client's session (\<^verbatim>\<open>client_connection.h\<close>, \<^verbatim>\<open>client_connection.cpp\<close>): the connection object,
  the fourteen request handlers, and the loop that reads a line, decodes it, dispatches it and
  turns an exception into a response.  The state of a running handler is the \<open>world\<close>: the server
  object shared with the other threads, this thread's connection, and the bytes handed to
  \<^verbatim>\<open>rio_writen\<close> for the client (whose result the code ignores).  The \<^verbatim>\<open>std::set<Table*>\<close> of locked
  tables is the ascending list of its pointers, the order in which it is iterated.
\<close>

section \<open>The class\<close>

record connection =
  m_client_fd :: int
  m_stack :: value_stack
  m_logged_in :: bool
  m_in_transaction :: bool
  locked_tables :: "addr list"

record world =
  srv :: server
  conn :: connection
  wire :: string
  wire_open :: bool

definition connection_new :: "int \<Rightarrow> connection" where
  "connection_new client_fd = \<lparr>m_client_fd = client_fd, m_stack = vs_new, m_logged_in = False,
     m_in_transaction = False, locked_tables = []\<rparr>"

definition world_new :: "server \<Rightarrow> int \<Rightarrow> world" where
  "world_new s client_fd = \<lparr>srv = s, conn = connection_new client_fd, wire = [], wire_open = True\<rparr>"

section \<open>Reaching the parts of the state\<close>

definition on_srv :: "(server, 'a) prog \<Rightarrow> (world, 'a) prog" where
  "on_srv m = (\<lambda>w. case m (srv w) of (r, s) \<Rightarrow> (r, w\<lparr>srv := s\<rparr>))"

definition on_conn :: "(connection \<Rightarrow> connection) \<Rightarrow> (world, unit) prog" where
  "on_conn f = modify (\<lambda>w. w\<lparr>conn := f (conn w)\<rparr>)"

definition stack_push :: "string \<Rightarrow> (world, unit) prog" where
  "stack_push v = on_conn (\<lambda>c. c\<lparr>m_stack := vs_push v (m_stack c)\<rparr>)"

definition stack_top :: "(world, string) prog" where
  "stack_top = bind (gets (\<lambda>w. vs_get_top (m_stack (conn w)))) of_sum"

definition stack_pop :: "(world, unit) prog" where
  "stack_pop = bind (gets (\<lambda>w. vs_pop (m_stack (conn w)))) (\<lambda>r.
     bind (of_sum r) (\<lambda>s. on_conn (\<lambda>c. c\<lparr>m_stack := s\<rparr>)))"

definition send_message :: "message \<Rightarrow> (world, unit) prog" where
  "send_message msg = bind (of_sum (encode msg)) (\<lambda>encoded.
     modify (\<lambda>w. w\<lparr>wire := wire w @ encoded\<rparr>))"

definition send_ok :: "(world, unit) prog" where
  "send_ok = send_message (Message OK [])"

fun for_each :: "('x \<Rightarrow> ('s, unit) prog) \<Rightarrow> 'x list \<Rightarrow> ('s, unit) prog" where
  "for_each f [] = ret ()"
| "for_each f (x # xs) = seq (f x) (for_each f xs)"

section \<open>Handlers for the session and the stack\<close>

definition handle_login :: "message \<Rightarrow> (world, unit) prog" where
  "handle_login msg = bind (gets (\<lambda>w. m_logged_in (conn w))) (\<lambda>logged_in.
     seq (if logged_in then throw (OperationException ''User already logged in'')
          else on_conn (\<lambda>c. c\<lparr>m_logged_in := True\<rparr>))
       send_ok)"

definition handle_bye :: "message \<Rightarrow> (world, unit) prog" where
  "handle_bye msg = send_ok"

definition handle_push :: "message \<Rightarrow> (world, unit) prog" where
  "handle_push msg = bind (of_option (get_value msg)) (\<lambda>value.
     seq (stack_push value) send_ok)"

definition handle_pop :: "message \<Rightarrow> (world, unit) prog" where
  "handle_pop msg = seq stack_pop send_ok"

definition handle_top :: "message \<Rightarrow> (world, unit) prog" where
  "handle_top msg = bind stack_top (\<lambda>value. send_message (Message DATA [value]))"

section \<open>Arithmetic\<close>

definition parse_operand :: "string \<Rightarrow> (world, int) prog" where
  "parse_operand s = (case stoi s of
       Inr n \<Rightarrow> ret n
     | Inl Invalid_argument \<Rightarrow> throw (OperationException ''Invalid operand, not an integer'')
     | Inl Out_of_range \<Rightarrow> throw (OperationException ''Invalid operand, number is out of range''))"

text \<open>
  What the four handlers share: the count check, taking the right operand and then the left one
  off the stack, parsing the left one first, and pushing the result.
\<close>

definition binary_operation :: "string \<Rightarrow> (int \<Rightarrow> int \<Rightarrow> (world, int) prog) \<Rightarrow> (world, unit) prog" where
  "binary_operation too_few f =
     bind (gets (\<lambda>w. vs_num_of_stack (m_stack (conn w)))) (\<lambda>n.
     if n < 2 then throw (OperationException too_few)
     else bind stack_top (\<lambda>right. seq stack_pop
         (bind stack_top (\<lambda>left. seq stack_pop
         (bind (parse_operand left) (\<lambda>left_num.
          bind (parse_operand right) (\<lambda>right_num.
          bind (f left_num right_num) (\<lambda>result_num.
          seq (stack_push (int_to_string result_num)) send_ok))))))))"

definition handle_add :: "(world, unit) prog" where
  "handle_add = binary_operation ''the number of the stack is too few to add''
     (\<lambda>left_num right_num. of_option (c_add left_num right_num))"

definition handle_sub :: "(world, unit) prog" where
  "handle_sub = binary_operation ''the number of the stack is too few to sub''
     (\<lambda>left_num right_num. of_option (c_sub left_num right_num))"

definition handle_mul :: "(world, unit) prog" where
  "handle_mul = binary_operation ''the number of the stack is too few to mul''
     (\<lambda>left_num right_num. of_option (c_mul left_num right_num))"

definition handle_div :: "(world, unit) prog" where
  "handle_div = binary_operation ''the number of the stack is too few to div''
     (\<lambda>left_num right_num.
        if right_num = 0 then throw (OperationException ''the division is 0'')
        else of_option (c_div left_num right_num))"

section \<open>Tables\<close>

definition handle_create :: "tid \<Rightarrow> message \<Rightarrow> (world, unit) prog" where
  "handle_create i msg = bind (of_option (get_table msg)) (\<lambda>table_name.
     seq (on_srv (create_table i table_name)) send_ok)"

text \<open>In a transaction: lock a table not locked before, or fail the transaction at once.\<close>

definition txn_acquire :: "tid \<Rightarrow> string \<Rightarrow> addr \<Rightarrow> (world, unit) prog" where
  "txn_acquire i table_name a =
     bind (gets (\<lambda>w. a \<in> set (locked_tables (conn w)))) (\<lambda>mine.
     if mine then ret ()
     else bind (on_srv (tab_trylock i a)) (\<lambda>got.
       if \<not> got then throw (FailedTransaction (''Could not acquire lock on table '' @ table_name))
       else on_conn (\<lambda>c. c\<lparr>locked_tables := insort_insert a (locked_tables c)\<rparr>)))"

text \<open>Outside a transaction: \<^verbatim>\<open>Guard G(handle_table->get_mutex())\<close> around the body.\<close>

definition table_guard :: "tid \<Rightarrow> addr \<Rightarrow> (world, 'a) prog \<Rightarrow> (world, 'a) prog" where
  "table_guard i a body = guard (\<lambda>w. table_mutex (table_at a (srv w)))
     (\<lambda>m w. w\<lparr>srv := put_table a ((table_at a (srv w))\<lparr>table_mutex := m\<rparr>) (srv w)\<rparr>) i body"

definition handle_get :: "tid \<Rightarrow> message \<Rightarrow> (world, unit) prog" where
  "handle_get i msg =
     bind (of_option (get_table msg)) (\<lambda>table_name.
     bind (of_option (get_key msg)) (\<lambda>key_name.
     bind (on_srv (find_table i table_name)) (\<lambda>handle_table.
     bind (gets (\<lambda>w. m_in_transaction (conn w))) (\<lambda>in_transaction.
     seq (if in_transaction
          then seq (txn_acquire i table_name handle_table)
                 (bind (on_srv (tab_get i handle_table key_name)) stack_push)
          else table_guard i handle_table
                 (bind (on_srv (tab_get i handle_table key_name)) stack_push))
       send_ok))))"

definition handle_set :: "tid \<Rightarrow> message \<Rightarrow> (world, unit) prog" where
  "handle_set i msg =
     bind (gets (\<lambda>w. vs_is_empty (m_stack (conn w)))) (\<lambda>empty.
     if empty then throw (OperationException ''The stack is empty!'')
     else
       bind (of_option (get_table msg)) (\<lambda>table_name.
       bind (of_option (get_key msg)) (\<lambda>key_name.
       bind stack_top (\<lambda>value.
       seq stack_pop
       (bind (on_srv (find_table i table_name)) (\<lambda>handle_table.
        bind (gets (\<lambda>w. m_in_transaction (conn w))) (\<lambda>in_transaction.
        seq (if in_transaction
             then seq (txn_acquire i table_name handle_table)
                    (on_srv (tab_set i handle_table key_name value))
             else table_guard i handle_table
                    (seq (on_srv (tab_set i handle_table key_name value))
                         (on_srv (tab_commit i handle_table))))
          send_ok)))))))"

section \<open>Transactions\<close>

definition handle_begin :: "(world, unit) prog" where
  "handle_begin = bind (gets (\<lambda>w. m_in_transaction (conn w))) (\<lambda>in_transaction.
     seq (if in_transaction then throw (FailedTransaction ''Nested transaction not allowed'')
          else on_conn (\<lambda>c. c\<lparr>m_in_transaction := True\<rparr>))
       send_ok)"

definition commit_all_tables :: "tid \<Rightarrow> (world, unit) prog" where
  "commit_all_tables i = bind (gets (\<lambda>w. locked_tables (conn w)))
     (for_each (\<lambda>a. seq (on_srv (tab_commit i a)) (on_srv (tab_unlock i a))))"

definition rollback_all_tables :: "tid \<Rightarrow> (world, unit) prog" where
  "rollback_all_tables i = bind (gets (\<lambda>w. locked_tables (conn w)))
     (for_each (\<lambda>a. seq (on_srv (tab_rollback i a)) (on_srv (tab_unlock i a))))"

definition end_transaction :: "(world, unit) prog" where
  "end_transaction = on_conn (\<lambda>c. c\<lparr>m_in_transaction := False, locked_tables := []\<rparr>)"

definition handle_commit :: "tid \<Rightarrow> (world, unit) prog" where
  "handle_commit i = bind (gets (\<lambda>w. m_in_transaction (conn w))) (\<lambda>in_transaction.
     if \<not> in_transaction then throw (OperationException ''Not in a transaction'')
     else seq (commit_all_tables i) (seq end_transaction send_ok))"

section \<open>The conversation\<close>

text \<open>The switch over the request type; its value is \<^verbatim>\<open>chat_is_active\<close>.\<close>

definition dispatch :: "tid \<Rightarrow> message \<Rightarrow> (world, bool) prog" where
  "dispatch i req = (case get_message_type req of
       LOGIN \<Rightarrow> seq (handle_login req) (ret True)
     | CREATE \<Rightarrow> seq (handle_create i req) (ret True)
     | GET \<Rightarrow> seq (handle_get i req) (ret True)
     | SET \<Rightarrow> seq (handle_set i req) (ret True)
     | PUSH \<Rightarrow> seq (handle_push req) (ret True)
     | POP \<Rightarrow> seq (handle_pop req) (ret True)
     | TOP \<Rightarrow> seq (handle_top req) (ret True)
     | ADD \<Rightarrow> seq handle_add (ret True)
     | SUB \<Rightarrow> seq handle_sub (ret True)
     | MUL \<Rightarrow> seq handle_mul (ret True)
     | DIV \<Rightarrow> seq handle_div (ret True)
     | BEGIN \<Rightarrow> seq handle_begin (ret True)
     | COMMIT \<Rightarrow> seq (handle_commit i) (ret True)
     | BYE \<Rightarrow> seq (handle_bye req) (ret False)
     | _ \<Rightarrow> throw (InvalidMessage ''Unknown or invalid command received''))"

definition chat_body :: "tid \<Rightarrow> string \<Rightarrow> (world, bool) prog" where
  "chat_body i buf = bind (of_sum (decode (c_str buf))) (\<lambda>req.
     bind (gets (\<lambda>w. m_logged_in (conn w))) (\<lambda>logged_in.
     if get_message_type req \<noteq> LOGIN \<and> get_message_type req \<noteq> BYE \<and> \<not> logged_in
     then throw (OperationException ''User has not logged in'')
     else dispatch i req))"

text \<open>
  The catch clauses.  An exception thrown inside one of them is not caught: it leaves
  \<^verbatim>\<open>chat_with_client\<close> as the exception it is.
\<close>

definition chat_catch :: "tid \<Rightarrow> (world, bool) prog \<Rightarrow> (world, bool) prog" where
  "chat_catch i m = (\<lambda>w. case m w of
       (Exn (OperationException e), w') \<Rightarrow>
         seq (send_message (Message FAILED [e])) (ret True) w'
     | (Exn (FailedTransaction e), w') \<Rightarrow>
         seq (rollback_all_tables i) (seq end_transaction
           (seq (send_message (Message FAILED [e])) (ret True))) w'
     | (Exn (InvalidMessage e), w') \<Rightarrow>
         seq (send_message (Message ERROR [e])) (ret False) w'
     | (r, w') \<Rightarrow> (r, w'))"

definition chat_iteration :: "tid \<Rightarrow> string \<Rightarrow> (world, bool) prog" where
  "chat_iteration i buf = chat_catch i (chat_body i buf)"

text \<open>The loop, over the lines \<^verbatim>\<open>rio_readlineb\<close> delivers until it reports end of file or an error.\<close>

fun chat_with_client :: "tid \<Rightarrow> string list \<Rightarrow> (world, unit) prog" where
  "chat_with_client i [] = ret ()"
| "chat_with_client i (buf # bufs) = bind (chat_iteration i buf) (\<lambda>chat_is_active.
     if chat_is_active then chat_with_client i bufs else ret ())"

text \<open>The destructor: an unfinished transaction is rolled back, then the descriptor is closed.\<close>

definition connection_destroy :: "tid \<Rightarrow> (world, unit) prog" where
  "connection_destroy i = bind (gets (\<lambda>w. m_in_transaction (conn w))) (\<lambda>in_transaction.
     seq (if in_transaction then rollback_all_tables i else ret ())
         (modify (\<lambda>w. w\<lparr>wire_open := False\<rparr>)))"

text \<open>The thread: the conversation, then the destructor of the connection it owns.\<close>

definition client_worker :: "tid \<Rightarrow> string list \<Rightarrow> (world, unit) prog" where
  "client_worker i bufs = seq (chat_with_client i bufs) (connection_destroy i)"

section \<open>Further facts\<close>

text \<open>Parsing as an operand the text of an int that an arithmetic handler pushed gives the int back,
  whatever it is; that text is a value the protocol can carry, of at most eleven characters.\<close>

lemma operands_round_trip:
  assumes "in_int i"
  shows "parse_operand (int_to_string i) w = (Ok i, w) \<and> is_value (int_to_string i)
    \<and> length (int_to_string i) \<le> 11"
  using stoi_to_string [OF assms] length_int_to_string [OF assms] int_to_string_ne [of i]
  by (auto simp: parse_operand_def ret_def is_value_def list_all_iff isspace_def char_simps
      dest!: int_to_string_chars)

lemma operands_round_trip_witness:
  "fst (parse_operand (int_to_string (-2147483648)) (world_new server_new 3)) = Ok (-2147483648)"
  using operands_round_trip [of "-2147483648"] by (simp add: in_int_bounds)

text \<open>An operand is taken as the integer its leading digits spell, whatever follows them: a value
  such as 12abc counts as 12, although the handlers' message speaks of operands that are not
  integers. With a minus sign before it, it is the negated integer, refused when that is not an
  int.\<close>

lemma operands_ignore_the_rest:
  assumes "ds \<noteq> []" "\<forall>c \<in> set ds. isdigit c" "rest = [] \<or> \<not> isdigit (hd rest)" "in_int (digits_value ds)"
  shows "parse_operand (ds @ rest) w = (Ok (digits_value ds), w)
    \<and> parse_operand (CHR ''-'' # ds @ rest) w = (if in_int (- digits_value ds) then (Ok (- digits_value ds), w)
        else (Exn (OperationException ''Invalid operand, number is out of range''), w))"
  using strtol10_digits [OF assms(1-3)] assms(4)
  by (simp add: stoi_def parse_operand_def ret_def throw_def)

lemma operands_ignore_the_rest_witness:
  "fst (parse_operand ''12abc'' (world_new server_new 3)) = Ok 12"
proof -
  have "digits_value ''12'' = 12" "in_int 12" "\<forall>c \<in> set ''12''. isdigit c" "\<not> isdigit (hd ''abc'')"
    by code_simp+
  then show ?thesis
    using operands_ignore_the_rest [of "''12''" "''abc''" "world_new server_new 3"] by simp
qed

end
