(* ===== verification/ConnectionFacts.thy ===== *)
theory ConnectionFacts
  imports Connection
begin

text \<open>
  What each handler does, in closed form, in a state that satisfies the session's invariant: one
  equation per handler with every branch of it, errors and waiting included.  The invariants of
  a session and of the whole server are read off these equations.
\<close>

named_theorems runs "handlers in closed form"

section \<open>Effects on the world\<close>

definition say :: "string \<Rightarrow> world \<Rightarrow> world" where
  "say bytes w = w\<lparr>wire := wire w @ bytes\<rparr>"

definition upd_conn :: "(connection \<Rightarrow> connection) \<Rightarrow> world \<Rightarrow> world" where
  "upd_conn f w = w\<lparr>conn := f (conn w)\<rparr>"

definition upd_table :: "addr \<Rightarrow> (table \<Rightarrow> table) \<Rightarrow> world \<Rightarrow> world" where
  "upd_table a f w = w\<lparr>srv := put_table a (f (table_at a (srv w))) (srv w)\<rparr>"

definition upd_srv :: "server \<Rightarrow> world \<Rightarrow> world" where
  "upd_srv s w = w\<lparr>srv := s\<rparr>"

definition operands :: "world \<Rightarrow> string list" where
  "operands w = vs_contents (m_stack (conn w))"

definition push_value :: "string \<Rightarrow> world \<Rightarrow> world" where
  "push_value v w = upd_conn (\<lambda>c. c\<lparr>m_stack := vs_push v (m_stack c)\<rparr>) w"

text \<open>Dropping the top value; only used on a stack that has one.\<close>

definition drop_value :: "world \<Rightarrow> world" where
  "drop_value w = upd_conn (\<lambda>c. c\<lparr>m_stack := (m_stack c)\<lparr>m_vector := butlast (m_vector (m_stack c))\<rparr>\<rparr>) w"

definition ok_line :: string where
  "ok_line = ''OK'' @ [newline]"

lemma world_sel [simp]:
  "srv (say b w) = srv w" "conn (say b w) = conn w" "wire (say b w) = wire w @ b"
  "srv (upd_conn f w) = srv w" "conn (upd_conn f w) = f (conn w)" "wire (upd_conn f w) = wire w"
  "conn (upd_table a g w) = conn w" "wire (upd_table a g w) = wire w"
  "srv (upd_table a g w) = put_table a (g (table_at a (srv w))) (srv w)"
  "srv (upd_srv s w) = s" "conn (upd_srv s w) = conn w" "wire (upd_srv s w) = wire w"
  "wire_open (say b w) = wire_open w" "wire_open (upd_conn f w) = wire_open w"
  "wire_open (upd_table a g w) = wire_open w" "wire_open (upd_srv s w) = wire_open w"
  by (simp_all add: say_def upd_conn_def upd_table_def upd_srv_def)

lemma operands_simps [simp]:
  "operands (say b w) = operands w"
  "operands (upd_table a g w) = operands w"
  "operands (upd_srv s w) = operands w"
  "operands (w\<lparr>srv := s\<rparr>) = operands w"
  "operands (push_value v w) = v # operands w"
  "operands (drop_value w) = tl (operands w)"
  by (simp_all add: operands_def push_value_def drop_value_def vs_contents_def vs_push_def
      rev_butlast)

lemma push_drop_sel [simp]:
  "srv (push_value v w) = srv w" "wire (push_value v w) = wire w"
  "wire_open (push_value v w) = wire_open w"
  "m_logged_in (conn (push_value v w)) = m_logged_in (conn w)"
  "m_in_transaction (conn (push_value v w)) = m_in_transaction (conn w)"
  "locked_tables (conn (push_value v w)) = locked_tables (conn w)"
  "srv (drop_value w) = srv w" "wire (drop_value w) = wire w"
  "wire_open (drop_value w) = wire_open w"
  "m_logged_in (conn (drop_value w)) = m_logged_in (conn w)"
  "m_in_transaction (conn (drop_value w)) = m_in_transaction (conn w)"
  "locked_tables (conn (drop_value w)) = locked_tables (conn w)"
  by (simp_all add: push_value_def drop_value_def)

section \<open>The steps the handlers are made of\<close>

lemma on_conn_run [runs]: "on_conn f w = (Ok (), upd_conn f w)"
  by (simp add: on_conn_def modify_def upd_conn_def)

lemma stack_push_run [runs]: "stack_push v w = (Ok (), push_value v w)"
  by (simp add: stack_push_def on_conn_run push_value_def)

lemma stack_top_run [runs]: "stack_top w = (case operands w of
     [] \<Rightarrow> (Exn (OperationException ''fail to get top: The stack is empty''), w)
   | v # _ \<Rightarrow> (Ok v, w))"
  by (cases "m_vector (m_stack (conn w))" rule: rev_cases)
     (simp_all add: stack_top_def vs_get_top_def operands_def vs_contents_def bind_def gets_def
       throw_def ret_def)

lemma stack_pop_run [runs]: "stack_pop w = (case operands w of
     [] \<Rightarrow> (Exn (OperationException ''fail to pop: The stack is empty''), w)
   | _ # _ \<Rightarrow> (Ok (), drop_value w))"
  by (cases "m_vector (m_stack (conn w))" rule: rev_cases)
     (simp_all add: stack_pop_def vs_pop_def operands_def vs_contents_def bind_def gets_def
       throw_def ret_def on_conn_run drop_value_def upd_conn_def)

lemma encode_short:
  "command_str t = Some cmd \<Longrightarrow> length cmd + length (args_str as) < MAX_ENCODED_LEN \<Longrightarrow>
   encode (Message t as) = Inr (cmd @ args_str as @ [newline])"
  by (simp add: encode_def get_message_type_def)

lemma send_ok_run [runs]: "send_ok w = (Ok (), say ok_line w)"
  by (simp add: send_ok_def send_message_def encode_short MAX_ENCODED_LEN_def modify_def say_def
      ok_line_def)

lemma send_message_run: "send_message msg w = (case encode msg of
     Inl e \<Rightarrow> (Exn e, w) | Inr bytes \<Rightarrow> (Ok (), say bytes w))"
  unfolding send_message_def
  by (cases "encode msg"; simp) (simp_all add: modify_def say_def throw_def)

lemma bind_case [runs]:
  "bind m k w = (case m w of (Ok a, w') \<Rightarrow> k a w' | (Exn e, w') \<Rightarrow> (Exn e, w')
      | (Blocked, w') \<Rightarrow> (Blocked, w') | (Undef, w') \<Rightarrow> (Undef, w'))"
  by (simp add: bind_def)

lemma seq_run [runs]:
  "seq m k w = (case m w of (Ok a, w') \<Rightarrow> k w' | (Exn e, w') \<Rightarrow> (Exn e, w')
      | (Blocked, w') \<Rightarrow> (Blocked, w') | (Undef, w') \<Rightarrow> (Undef, w'))"
  by (simp add: seq_def bind_def)

lemma seq_Ok: "m w = (Ok a, w') \<Longrightarrow> seq m k w = k w'"
  by (simp add: seq_run)

lemma basic_runs [runs]: "ret a w = (Ok a, w)" "throw e w = (Exn e, w)" "undef w = (Undef, w)"
  "gets f w = (Ok (f w), w)"
  by (simp_all add: ret_def throw_def undef_def gets_def)

lemma of_option_run: "of_option x w = (case x of None \<Rightarrow> (Undef, w) | Some a \<Rightarrow> (Ok a, w))"
  by (cases x) (simp_all add: undef_def ret_def)

section \<open>The session's invariant\<close>

text \<open>
  The server is well-formed, and this thread owns exactly the mutexes of the tables in its locked
  set, which is empty outside a transaction.
\<close>

definition conn_inv :: "tid \<Rightarrow> world \<Rightarrow> bool" where
  "conn_inv i w \<longleftrightarrow> server_wf (srv w)
     \<and> (\<forall>a. valid_ptr a (srv w) \<longrightarrow>
          (table_mutex (table_at a (srv w)) = Some i \<longleftrightarrow> a \<in> set (locked_tables (conn w))))
     \<and> (\<forall>a \<in> set (locked_tables (conn w)). valid_ptr a (srv w))
     \<and> sorted (locked_tables (conn w)) \<and> distinct (locked_tables (conn w))
     \<and> (\<not> m_in_transaction (conn w) \<longrightarrow> locked_tables (conn w) = [])"

lemma conn_invD:
  assumes "conn_inv i w"
  shows "server_wf (srv w)" "table_lock (srv w) = None"
    and "\<And>a. a \<in> set (locked_tables (conn w)) \<Longrightarrow> valid_ptr a (srv w)"
    and "\<And>a. a \<in> set (locked_tables (conn w)) \<Longrightarrow> table_mutex (table_at a (srv w)) = Some i"
    and "\<And>a. valid_ptr a (srv w) \<Longrightarrow> table_mutex (table_at a (srv w)) = Some i \<Longrightarrow>
           a \<in> set (locked_tables (conn w))"
    and "\<not> m_in_transaction (conn w) \<Longrightarrow> locked_tables (conn w) = []"
    and "sorted (locked_tables (conn w))" "distinct (locked_tables (conn w))"
  using assms by (auto simp: conn_inv_def dest: server_wfD)

lemma conn_inv_cong:
  "srv w' = srv w \<Longrightarrow> locked_tables (conn w') = locked_tables (conn w) \<Longrightarrow>
   m_in_transaction (conn w') = m_in_transaction (conn w) \<Longrightarrow> conn_inv i w' = conn_inv i w"
  by (simp add: conn_inv_def)

lemma conn_inv_simps [simp]:
  "conn_inv i (say b w) = conn_inv i w"
  "conn_inv i (push_value v w) = conn_inv i w"
  "conn_inv i (drop_value w) = conn_inv i w"
  by (rule conn_inv_cong; simp)+

lemma on_find_run [runs]: "conn_inv i w \<Longrightarrow> on_srv (find_table j n) w =
   (case smap_find n (set_of_table (srv w)) of
      Some a \<Rightarrow> (Ok a, w)
    | None \<Rightarrow> (Exn (OperationException ''The table that you want to find is not exist''), w))"
  by (auto simp: on_srv_def find_table_run conn_invD split: option.splits)

lemma on_held_run:
  assumes "valid_ptr a (srv w)" "table_mutex (table_at a (srv w)) = Some i"
  shows "on_srv (tab_get i a k) w = (case view (table_at a (srv w)) k of
       Some v \<Rightarrow> (Ok v, w) | None \<Rightarrow> (Exn (OperationException ''The key is not in the map''), w))"
    and "on_srv (tab_set i a k v) w = (Ok (), upd_table a (table_set k v) w)"
    and "on_srv (tab_commit i a) w = (Ok (), upd_table a commit_changes w)"
    and "on_srv (tab_rollback i a) w = (Ok (), upd_table a rollback_changes w)"
    and "on_srv (tab_unlock i a) w = (Ok (), upd_table a (\<lambda>t. t\<lparr>table_mutex := None\<rparr>) w)"
  using assms
  by (auto simp: on_srv_def tab_get_def tab_set_def tab_commit_def tab_rollback_def held_run
      tab_unlock_own upd_table_def table_get_view put_table_same split: option.splits)

lemma upd_table_upd [simp]:
  "valid_ptr a (srv w) \<Longrightarrow> upd_table a f (upd_table a g w) = upd_table a (\<lambda>t. f (g t)) w"
  by (simp add: upd_table_def)

lemma upd_table_cong:
  "f (table_at a (srv w)) = g (table_at a (srv w)) \<Longrightarrow> upd_table a f w = upd_table a g w"
  by (simp add: upd_table_def)

lemma upd_table_same: "f (table_at a (srv w)) = table_at a (srv w) \<Longrightarrow> upd_table a f w = w"
  by (simp add: upd_table_def put_table_same)

lemma upd_table_push: "upd_table a f (push_value v w) = push_value v (upd_table a f w)"
  by (simp add: upd_table_def push_value_def upd_conn_def)

lemma table_mutex_same: "table_mutex t = m \<Longrightarrow> t\<lparr>table_mutex := m\<rparr> = t"
  by (cases t) simp

lemma table_ops_mutex:
  "table_set k v (t\<lparr>table_mutex := m\<rparr>) = (table_set k v t)\<lparr>table_mutex := m\<rparr>"
  "commit_changes (t\<lparr>table_mutex := m\<rparr>) = (commit_changes t)\<lparr>table_mutex := m\<rparr>"
  "rollback_changes (t\<lparr>table_mutex := m\<rparr>) = (rollback_changes t)\<lparr>table_mutex := m\<rparr>"
  by (simp_all add: table_set_def commit_changes_def rollback_changes_def)

text \<open>A guarded scope on a table that is held waits; on a free one it runs with the mutex taken.\<close>

abbreviation (input) set_mutex :: "addr \<Rightarrow> mutex \<Rightarrow> world \<Rightarrow> world" where
  "set_mutex a m w \<equiv> upd_table a (\<lambda>t. t\<lparr>table_mutex := m\<rparr>) w"

lemma table_guard_eq:
  "table_guard i a body = guard (\<lambda>w. table_mutex (table_at a (srv w))) (\<lambda>m w. set_mutex a m w) i body"
  by (simp add: table_guard_def upd_table_def)

lemma table_guard_held:
  "table_mutex (table_at a (srv w)) = Some j \<Longrightarrow> table_guard i a body w = (Blocked, w)"
  by (simp add: table_guard_eq guard_held)

lemma table_guard_free:
  assumes "table_mutex (table_at a (srv w)) = None" "table_mutex (table_at a (srv w')) = Some i"
  shows "body (set_mutex a (Some i) w) = (Ok x, w') \<Longrightarrow> table_guard i a body w = (Ok x, set_mutex a None w')"
    and "body (set_mutex a (Some i) w) = (Exn e, w') \<Longrightarrow> table_guard i a body w = (Exn e, set_mutex a None w')"
  using assms by (auto simp: table_guard_eq intro: guard_Ok guard_Exn)

lemma table_guard_get:
  assumes "valid_ptr a (srv w)" "table_mutex (table_at a (srv w)) = None"
  shows "table_guard i a (bind (on_srv (tab_get i a k)) stack_push) w =
    (case view (table_at a (srv w)) k of
       Some v \<Rightarrow> (Ok (), push_value v w)
     | None \<Rightarrow> (Exn (OperationException ''The key is not in the map''), w))"
proof -
  have restored: "set_mutex a None w = w"
    using assms(2) by (intro upd_table_same table_mutex_same)
  show ?thesis
    using assms
    by (cases "view (table_at a (srv w)) k")
       (subst table_guard_free [where w' = "set_mutex a (Some i) w"]
          table_guard_free [where w' = "push_value (the (view (table_at a (srv w)) k)) (set_mutex a (Some i) w)"];
        simp add: on_held_run runs upd_table_push restored)+
qed

lemma table_guard_set:
  assumes "valid_ptr a (srv w)" "table_mutex (table_at a (srv w)) = None"
  shows "table_guard i a (seq (on_srv (tab_set i a k v)) (on_srv (tab_commit i a))) w =
    (Ok (), upd_table a (\<lambda>t. commit_changes (table_set k v t)) w)"
proof -
  let ?w = "upd_table a (\<lambda>t. commit_changes (table_set k v (t\<lparr>table_mutex := Some i\<rparr>))) w"
  have "table_guard i a (seq (on_srv (tab_set i a k v)) (on_srv (tab_commit i a))) w =
      (Ok (), set_mutex a None ?w)"
    using assms by (intro table_guard_free) (auto simp: runs on_held_run)
  moreover have "set_mutex a None ?w = upd_table a (\<lambda>t. commit_changes (table_set k v t)) w"
    using assms by (simp add: table_ops_mutex) (rule upd_table_cong, simp add: table_mutex_same)
  ultimately show ?thesis by simp
qed

section \<open>The handlers\<close>

text \<open>\<open>acquire i a\<close>: the mutex of the table taken and its pointer in the locked set.\<close>

definition acquire :: "tid \<Rightarrow> addr \<Rightarrow> world \<Rightarrow> world" where
  "acquire i a w = upd_conn (\<lambda>c. c\<lparr>locked_tables := insort_insert a (locked_tables c)\<rparr>)
     (set_mutex a (Some i) w)"

lemma acquire_sel [simp]:
  "srv (acquire i a w) = put_table a ((table_at a (srv w))\<lparr>table_mutex := Some i\<rparr>) (srv w)"
  "wire (acquire i a w) = wire w" "wire_open (acquire i a w) = wire_open w"
  "operands (acquire i a w) = operands w"
  "m_logged_in (conn (acquire i a w)) = m_logged_in (conn w)"
  "m_in_transaction (conn (acquire i a w)) = m_in_transaction (conn w)"
  "locked_tables (conn (acquire i a w)) = insort_insert a (locked_tables (conn w))"
  by (simp_all add: acquire_def operands_def)

lemma txn_acquire_run:
  assumes "valid_ptr a (srv w)"
  shows "txn_acquire i n a w =
    (if a \<in> set (locked_tables (conn w)) then (Ok (), w)
     else if table_mutex (table_at a (srv w)) = None then (Ok (), acquire i a w)
     else (Exn (FailedTransaction (''Could not acquire lock on table '' @ n)), w))"
  using assms
  by (auto simp: txn_acquire_def runs on_srv_def tab_trylock_run acquire_def upd_table_def
      put_table_same split: option.splits)

text \<open>The outcome of the locking step of GET and SET in a transaction.\<close>

definition lock_step :: "tid \<Rightarrow> addr \<Rightarrow> world \<Rightarrow> world option" where
  "lock_step i a w =
    (if a \<in> set (locked_tables (conn w)) then Some w
     else if table_mutex (table_at a (srv w)) = None then Some (acquire i a w)
     else None)"

lemma handle_get_run:
  assumes inv: "conn_inv i w" and args: "get_table msg = Some n" "get_key msg = Some k"
  shows "handle_get i msg w = (case smap_find n (set_of_table (srv w)) of
      None \<Rightarrow> (Exn (OperationException ''The table that you want to find is not exist''), w)
    | Some a \<Rightarrow>
       (if m_in_transaction (conn w)
        then (case lock_step i a w of
            None \<Rightarrow> (Exn (FailedTransaction (''Could not acquire lock on table '' @ n)), w)
          | Some w' \<Rightarrow> (case view (table_at a (srv w)) k of
                Some v \<Rightarrow> (Ok (), say ok_line (push_value v w'))
              | None \<Rightarrow> (Exn (OperationException ''The key is not in the map''), w')))
        else if table_mutex (table_at a (srv w)) = None
        then (case view (table_at a (srv w)) k of
            Some v \<Rightarrow> (Ok (), say ok_line (push_value v w))
          | None \<Rightarrow> (Exn (OperationException ''The key is not in the map''), w))
        else (Blocked, w)))"
proof (cases "smap_find n (set_of_table (srv w))")
  case None
  with inv args show ?thesis
    by (simp add: handle_get_def runs)
next
  case (Some a)
  then have ptr: "valid_ptr a (srv w)"
    using server_wfD(3) [OF conn_invD(1) [OF inv]] by blast
  have own: "table_mutex (table_at a (srv w)) = Some i" if "a \<in> set (locked_tables (conn w))"
    using conn_invD(4) [OF inv that] .
  let ?rest = "seq (if m_in_transaction (conn w)
          then seq (txn_acquire i n a) (bind (on_srv (tab_get i a k)) stack_push)
          else table_guard i a (bind (on_srv (tab_get i a k)) stack_push)) send_ok"
  have "handle_get i msg w = ?rest w"
    using inv args Some by (simp add: handle_get_def runs)
  also have "\<dots> = (if m_in_transaction (conn w)
        then (case lock_step i a w of
            None \<Rightarrow> (Exn (FailedTransaction (''Could not acquire lock on table '' @ n)), w)
          | Some w' \<Rightarrow> (case view (table_at a (srv w)) k of
                Some v \<Rightarrow> (Ok (), say ok_line (push_value v w'))
              | None \<Rightarrow> (Exn (OperationException ''The key is not in the map''), w')))
        else if table_mutex (table_at a (srv w)) = None
        then (case view (table_at a (srv w)) k of
            Some v \<Rightarrow> (Ok (), say ok_line (push_value v w))
          | None \<Rightarrow> (Exn (OperationException ''The key is not in the map''), w))
        else (Blocked, w))"
    using ptr own
    by (cases "view (table_at a (srv w)) k")
       (auto simp: runs txn_acquire_run lock_step_def on_held_run table_guard_get
         table_guard_held)
  finally show ?thesis using Some by simp
qed

lemma handle_set_empty:
  "operands w = [] \<Longrightarrow> handle_set i msg w = (Exn (OperationException ''The stack is empty!''), w)"
  by (simp add: handle_set_def runs vs.is_emp_iff operands_def)

lemma handle_set_run:
  assumes inv: "conn_inv i w" and args: "get_table msg = Some n" "get_key msg = Some k"
    and top: "operands w = v # vs"
  shows "handle_set i msg w = (case smap_find n (set_of_table (srv w)) of
      None \<Rightarrow> (Exn (OperationException ''The table that you want to find is not exist''), drop_value w)
    | Some a \<Rightarrow>
       (if m_in_transaction (conn w)
        then (case lock_step i a (drop_value w) of
            None \<Rightarrow> (Exn (FailedTransaction (''Could not acquire lock on table '' @ n)), drop_value w)
          | Some w' \<Rightarrow> (Ok (), say ok_line (upd_table a (table_set k v) w')))
        else if table_mutex (table_at a (srv w)) = None
        then (Ok (), say ok_line (upd_table a (\<lambda>t. commit_changes (table_set k v t)) (drop_value w)))
        else (Blocked, drop_value w)))"
proof -
  let ?w = "drop_value w"
  have inv': "conn_inv i ?w" using inv by simp
  have ne: "\<not> vs_is_empty (m_stack (conn w))"
    using top by (simp add: vs.is_emp_iff operands_def)
  let ?tail = "\<lambda>a. seq (if m_in_transaction (conn w)
          then seq (txn_acquire i n a) (on_srv (tab_set i a k v))
          else table_guard i a (seq (on_srv (tab_set i a k v)) (on_srv (tab_commit i a)))) send_ok"
  have split: "handle_set i msg w = (case smap_find n (set_of_table (srv w)) of
      None \<Rightarrow> (Exn (OperationException ''The table that you want to find is not exist''), ?w)
    | Some a \<Rightarrow> ?tail a ?w)"
    using inv' args top ne
    by (cases "smap_find n (set_of_table (srv w))") (simp_all add: handle_set_def runs)
  show ?thesis
  proof (cases "smap_find n (set_of_table (srv w))")
    case (Some a)
    then have ptr: "valid_ptr a (srv ?w)"
      using server_wfD(3) [OF conn_invD(1) [OF inv]] by simp
    have own: "table_mutex (table_at a (srv ?w)) = Some i" if "a \<in> set (locked_tables (conn ?w))"
      using conn_invD(4) [OF inv' that] .
    have "?tail a ?w = (if m_in_transaction (conn w)
        then (case lock_step i a ?w of
            None \<Rightarrow> (Exn (FailedTransaction (''Could not acquire lock on table '' @ n)), ?w)
          | Some w' \<Rightarrow> (Ok (), say ok_line (upd_table a (table_set k v) w')))
        else if table_mutex (table_at a (srv w)) = None
        then (Ok (), say ok_line (upd_table a (\<lambda>t. commit_changes (table_set k v t)) ?w))
        else (Blocked, ?w))"
      using ptr own
      by (auto simp: runs txn_acquire_run lock_step_def on_held_run table_guard_set table_guard_held)
    with split Some show ?thesis by simp
  qed (simp add: split)
qed

lemma handle_login_run [runs]: "handle_login msg w =
   (if m_logged_in (conn w) then (Exn (OperationException ''User already logged in''), w)
    else (Ok (), say ok_line (upd_conn (\<lambda>c. c\<lparr>m_logged_in := True\<rparr>) w)))"
  by (simp add: handle_login_def runs)

lemma handle_bye_run [runs]: "handle_bye msg w = (Ok (), say ok_line w)"
  by (simp add: handle_bye_def runs)

lemma handle_push_run [runs]:
  "get_value msg = Some v \<Longrightarrow> handle_push msg w = (Ok (), say ok_line (push_value v w))"
  by (simp add: handle_push_def runs)

lemma handle_pop_run [runs]: "handle_pop msg w = (case operands w of
     [] \<Rightarrow> (Exn (OperationException ''fail to pop: The stack is empty''), w)
   | _ # _ \<Rightarrow> (Ok (), say ok_line (drop_value w)))"
  by (simp add: handle_pop_def runs split: list.split)

lemma handle_top_run [runs]: "handle_top msg w = (case operands w of
     [] \<Rightarrow> (Exn (OperationException ''fail to get top: The stack is empty''), w)
   | v # _ \<Rightarrow> send_message (Message DATA [v]) w)"
  by (simp add: handle_top_def runs split: list.split)

lemma handle_create_run:
  assumes "conn_inv i w" "get_table msg = Some n"
  shows "handle_create i msg w =
    (if smap_find n (set_of_table (srv w)) \<noteq> None
     then (Exn (OperationException ''Table with that name already exists''), w)
     else (Ok (), say ok_line (upd_srv (add_table n (srv w)) w)))"
  using assms
  by (auto simp: handle_create_def runs on_srv_def create_table_run conn_invD upd_srv_def say_def)

lemma handle_begin_run [runs]: "handle_begin w =
   (if m_in_transaction (conn w) then (Exn (FailedTransaction ''Nested transaction not allowed''), w)
    else (Ok (), say ok_line (upd_conn (\<lambda>c. c\<lparr>m_in_transaction := True\<rparr>) w)))"
  by (simp add: handle_begin_def runs)

section \<open>Arithmetic\<close>

lemma parse_operand_run [runs]: "parse_operand s w = (case stoi s of
     Inr n \<Rightarrow> (Ok n, w)
   | Inl Invalid_argument \<Rightarrow> (Exn (OperationException ''Invalid operand, not an integer''), w)
   | Inl Out_of_range \<Rightarrow> (Exn (OperationException ''Invalid operand, number is out of range''), w))"
  by (simp add: parse_operand_def runs split: sum.split stoi_error.split)

text \<open>
  Too few values: nothing happens.  Otherwise both operands are gone, whatever comes of the
  operation, and a result that exists is pushed.
\<close>

lemma binary_operation_few:
  "length (operands w) < 2 \<Longrightarrow> binary_operation msg f w = (Exn (OperationException msg), w)"
  by (simp add: binary_operation_def runs vs_num_contents operands_def)

lemma binary_operation_run:
  assumes "operands w = r # l # vs"
  shows "binary_operation msg f w =
    (let w' = drop_value (drop_value w) in
     case (stoi l, stoi r) of
       (Inl Invalid_argument, _) \<Rightarrow> (Exn (OperationException ''Invalid operand, not an integer''), w')
     | (Inl Out_of_range, _) \<Rightarrow> (Exn (OperationException ''Invalid operand, number is out of range''), w')
     | (_, Inl Invalid_argument) \<Rightarrow> (Exn (OperationException ''Invalid operand, not an integer''), w')
     | (_, Inl Out_of_range) \<Rightarrow> (Exn (OperationException ''Invalid operand, number is out of range''), w')
     | (Inr a, Inr b) \<Rightarrow> (case f a b w' of
           (Ok n, w'') \<Rightarrow> (Ok (), say ok_line (push_value (int_to_string n) w''))
         | (Exn e, w'') \<Rightarrow> (Exn e, w'')
         | (Blocked, w'') \<Rightarrow> (Blocked, w'')
         | (Undef, w'') \<Rightarrow> (Undef, w'')))"
proof -
  have "vs_num_of_stack (m_stack (conn w)) = int (length vs) + 2"
    using assms by (simp add: vs_num_contents operands_def)
  then show ?thesis
    using assms
    by (cases "stoi l"; cases "stoi r")
       (auto simp: binary_operation_def runs Let_def split: stoi_error.split prod.split res.split)
qed

section \<open>Ending a transaction\<close>

text \<open>\<open>release f as w\<close>: every table of \<open>as\<close> changed by \<open>f\<close> and its mutex released.\<close>

definition release :: "(table \<Rightarrow> table) \<Rightarrow> addr list \<Rightarrow> world \<Rightarrow> world" where
  "release f as w = fold (\<lambda>a. upd_table a (\<lambda>t. (f t)\<lparr>table_mutex := None\<rparr>)) as w"

lemma release_simps [simp]:
  "release f [] w = w"
  "release f (a # as) w = release f as (upd_table a (\<lambda>t. (f t)\<lparr>table_mutex := None\<rparr>) w)"
  by (simp_all add: release_def)

lemma release_sel [simp]:
  "conn (release f as w) = conn w" "wire (release f as w) = wire w"
  "wire_open (release f as w) = wire_open w"
  "operands (release f as w) = operands w"
  "set_of_table (srv (release f as w)) = set_of_table (srv w)"
  "table_lock (srv (release f as w)) = table_lock (srv w)"
  "valid_ptr a (srv (release f as w)) = valid_ptr a (srv w)"
  by (induction as arbitrary: w) auto

lemma release_at:
  "distinct as \<Longrightarrow> valid_ptr a (srv w) \<Longrightarrow> table_at a (srv (release f as w)) =
     (if a \<in> set as then (f (table_at a (srv w)))\<lparr>table_mutex := None\<rparr> else table_at a (srv w))"
  by (induction as arbitrary: w) auto

lemma release_run:
  assumes op: "\<And>a w. valid_ptr a (srv w) \<Longrightarrow> table_mutex (table_at a (srv w)) = Some i \<Longrightarrow>
      op a w = (Ok (), upd_table a f w)"
    and keeps: "\<And>t. table_mutex (f t) = table_mutex t"
    and "distinct as" "\<And>a. a \<in> set as \<Longrightarrow> valid_ptr a (srv w) \<and> table_mutex (table_at a (srv w)) = Some i"
  shows "for_each (\<lambda>a. seq (op a) (on_srv (tab_unlock i a))) as w = (Ok (), release f as w)"
  using assms(3,4)
proof (induction as arbitrary: w)
  case (Cons a as)
  let ?w = "upd_table a (\<lambda>t. (f t)\<lparr>table_mutex := None\<rparr>) w"
  have "seq (op a) (on_srv (tab_unlock i a)) w = (Ok (), ?w)"
    using Cons.prems(2) [of a] by (simp add: runs op on_held_run keeps)
  then have "for_each (\<lambda>a. seq (op a) (on_srv (tab_unlock i a))) (a # as) w =
      for_each (\<lambda>a. seq (op a) (on_srv (tab_unlock i a))) as ?w"
    by (simp only: for_each.simps seq_Ok)
  also have "\<dots> = (Ok (), release f as ?w)"
    using Cons.prems by (intro Cons.IH) auto
  finally show ?case by simp
qed (simp add: runs)

definition finish :: "world \<Rightarrow> world" where
  "finish w = upd_conn (\<lambda>c. c\<lparr>m_in_transaction := False, locked_tables := []\<rparr>) w"

lemma finish_sel [simp]:
  "srv (finish w) = srv w" "wire (finish w) = wire w" "wire_open (finish w) = wire_open w"
  "operands (finish w) = operands w"
  "m_logged_in (conn (finish w)) = m_logged_in (conn w)"
  "\<not> m_in_transaction (conn (finish w))" "locked_tables (conn (finish w)) = []"
  by (simp_all add: finish_def operands_def)

lemma commit_all_run: "conn_inv i w \<Longrightarrow>
  commit_all_tables i w = (Ok (), release commit_changes (locked_tables (conn w)) w)"
  unfolding commit_all_tables_def
  by (simp add: runs) (rule release_run; simp add: on_held_run conn_invD)

lemma rollback_all_run: "conn_inv i w \<Longrightarrow>
  rollback_all_tables i w = (Ok (), release rollback_changes (locked_tables (conn w)) w)"
  unfolding rollback_all_tables_def
  by (simp add: runs) (rule release_run; simp add: on_held_run conn_invD)

lemma end_transaction_run [runs]: "end_transaction w = (Ok (), finish w)"
  by (simp add: end_transaction_def runs finish_def)

text \<open>What COMMIT makes of the state, and what every failure of the transaction makes of it.\<close>

definition commit_world :: "world \<Rightarrow> world" where
  "commit_world w = finish (release commit_changes (locked_tables (conn w)) w)"

definition abort_world :: "world \<Rightarrow> world" where
  "abort_world w = finish (release rollback_changes (locked_tables (conn w)) w)"

lemma handle_commit_run: "conn_inv i w \<Longrightarrow> handle_commit i w =
   (if m_in_transaction (conn w) then (Ok (), say ok_line (commit_world w))
    else (Exn (OperationException ''Not in a transaction''), w))"
  by (simp add: handle_commit_def runs commit_all_run commit_world_def)

end
