(* ===== verification/SessionInv.thy ===== *)
theory SessionInv
  imports ConnectionFacts
begin

text \<open>
  What one iteration of a session keeps: the session's invariant, and the frame of the other
  threads.  The effects the handlers have on the server are few (taking a mutex, changing a table
  that is owned or free, adding a table, ending a transaction); each keeps both, and a handler's
  closed form says which of them it is.
\<close>

section \<open>The frame of the other threads\<close>

text \<open>
  \<open>step_ok\<close> is the session's invariant and the frame, for a step that leaves the descriptor open.
  \<open>frame i s s'\<close>: tables stay where they are and keep their names; a table that another thread
  holds is untouched, mutex and entries; and no mutex becomes another thread's.
\<close>

definition frame :: "tid \<Rightarrow> server \<Rightarrow> server \<Rightarrow> bool" where
  "frame i s s' \<longleftrightarrow>
     (\<forall>a. valid_ptr a s \<longrightarrow> valid_ptr a s' \<and> m_name (table_at a s') = m_name (table_at a s))
     \<and> (\<forall>n a. smap_find n (set_of_table s) = Some a \<longrightarrow> smap_find n (set_of_table s') = Some a)
     \<and> (\<forall>a j. valid_ptr a s \<longrightarrow> table_mutex (table_at a s) = Some j \<longrightarrow> j \<noteq> i \<longrightarrow>
          table_at a s' = table_at a s)
     \<and> (\<forall>a j. valid_ptr a s' \<longrightarrow> table_mutex (table_at a s') = Some j \<longrightarrow> j \<noteq> i \<longrightarrow>
          valid_ptr a s \<and> table_mutex (table_at a s) = Some j)"

lemma frame_refl [simp]: "frame i s s"
  by (simp add: frame_def)

lemma frameD:
  assumes "frame i s s'"
  shows "valid_ptr a s \<Longrightarrow> valid_ptr a s'"
    and "valid_ptr a s \<Longrightarrow> m_name (table_at a s') = m_name (table_at a s)"
    and "smap_find n (set_of_table s) = Some a \<Longrightarrow> smap_find n (set_of_table s') = Some a"
    and "valid_ptr a s \<Longrightarrow> table_mutex (table_at a s) = Some j \<Longrightarrow> j \<noteq> i \<Longrightarrow> table_at a s' = table_at a s"
    and "valid_ptr a s' \<Longrightarrow> table_mutex (table_at a s') = Some j \<Longrightarrow> j \<noteq> i \<Longrightarrow>
           valid_ptr a s \<and> table_mutex (table_at a s) = Some j"
  using assms unfolding frame_def by blast+

lemma frame_trans:
  assumes "frame i s t" "frame i t u"
  shows "frame i s u"
  unfolding frame_def
proof (intro conjI allI impI)
  fix a assume "valid_ptr a s"
  then show "valid_ptr a u" "m_name (table_at a u) = m_name (table_at a s)"
    using frameD(1,2) [OF assms(1)] frameD(1,2) [OF assms(2)] by auto
next
  fix n a assume "smap_find n (set_of_table s) = Some a"
  then show "smap_find n (set_of_table u) = Some a"
    using frameD(3) [OF assms(1)] frameD(3) [OF assms(2)] by blast
next
  fix a j assume a: "valid_ptr a s" "table_mutex (table_at a s) = Some j" "j \<noteq> i"
  then have t: "table_at a t = table_at a s" "valid_ptr a t"
    using frameD(1,4) [OF assms(1)] by auto
  with a frameD(4) [OF assms(2), of a j] show "table_at a u = table_at a s" by simp
next
  fix a j assume "valid_ptr a u" "table_mutex (table_at a u) = Some j" "j \<noteq> i"
  then show "valid_ptr a s" "table_mutex (table_at a s) = Some j"
    using frameD(5) [OF assms(1), of a j] frameD(5) [OF assms(2), of a j] by auto
qed

definition step_ok :: "tid \<Rightarrow> world \<Rightarrow> world \<Rightarrow> bool" where
  "step_ok i w w' \<longleftrightarrow> conn_inv i w' \<and> frame i (srv w) (srv w') \<and> wire_open w' = wire_open w"

lemma step_ok_refl: "conn_inv i w \<Longrightarrow> step_ok i w w"
  by (simp add: step_ok_def)

lemma step_ok_trans: "step_ok i w w' \<Longrightarrow> step_ok i w' w'' \<Longrightarrow> step_ok i w w''"
  by (auto simp: step_ok_def intro: frame_trans)

lemma step_ok_simps [simp]:
  "step_ok i w (say b w') = step_ok i w w'"
  "step_ok i w (push_value v w') = step_ok i w w'"
  "step_ok i w (drop_value w') = step_ok i w w'"
  "step_ok i (say b w) w' = step_ok i w w'"
  "step_ok i (push_value v w) w' = step_ok i w w'"
  "step_ok i (drop_value w) w' = step_ok i w w'"
  by (simp_all add: step_ok_def)

section \<open>The effects\<close>

lemma step_ok_conn:
  assumes "conn_inv i w" "locked_tables (f (conn w)) = locked_tables (conn w)"
    and "m_in_transaction (conn w) \<Longrightarrow> m_in_transaction (f (conn w))"
  shows "step_ok i w (upd_conn f w)"
  using assms unfolding step_ok_def conn_inv_def by auto

lemma step_ok_upd_table:
  assumes inv: "conn_inv i w" and ptr: "valid_ptr a (srv w)"
    and own: "table_mutex (table_at a (srv w)) \<in> {None, Some i}"
    and f: "m_name (f (table_at a (srv w))) = m_name (table_at a (srv w))"
      "table_wf (table_at a (srv w)) \<Longrightarrow> table_wf (f (table_at a (srv w)))"
      "table_mutex (f (table_at a (srv w))) = table_mutex (table_at a (srv w))"
      "table_mutex (table_at a (srv w)) = None \<Longrightarrow> key_value_temp (f (table_at a (srv w))) = []"
  shows "step_ok i w (upd_table a f w)"
proof -
  have "server_wf (put_table a (f (table_at a (srv w))) (srv w))"
    using f ptr conn_invD(1) [OF inv] by (intro server_wf_put) (auto dest: server_wfD)
  then show ?thesis
    using inv ptr own f by (auto simp: step_ok_def conn_inv_def frame_def)
qed

lemma step_ok_acquire:
  assumes inv: "conn_inv i w" and ptr: "valid_ptr a (srv w)"
    and free: "table_mutex (table_at a (srv w)) = None" and txn: "m_in_transaction (conn w)"
  shows "step_ok i w (acquire i a w)"
proof -
  have "server_wf (put_table a ((table_at a (srv w))\<lparr>table_mutex := Some i\<rparr>) (srv w))"
    using ptr conn_invD(1) [OF inv] by (intro server_wf_put) (auto dest: server_wfD)
  then show ?thesis
    using inv ptr free txn
    by (auto simp: step_ok_def conn_inv_def frame_def set_insort_insert sorted_insort_insert
        distinct_insort_insert)
qed

lemma step_ok_lock_step:
  assumes "conn_inv i w" "valid_ptr a (srv w)" "m_in_transaction (conn w)" "lock_step i a w = Some w'"
  shows "step_ok i w w'"
  using assms step_ok_acquire step_ok_refl by (fastforce simp: lock_step_def split: if_splits)

lemma lock_step_owns:
  assumes "conn_inv i w" "valid_ptr a (srv w)" "lock_step i a w = Some w'"
  shows "table_mutex (table_at a (srv w')) = Some i" "valid_ptr a (srv w')"
  using assms(2,3) conn_invD(4) [OF assms(1)] by (auto simp: lock_step_def split: if_splits)

lemma step_ok_add_table:
  assumes inv: "conn_inv i w" and new: "smap_find n (set_of_table (srv w)) = None"
  shows "step_ok i w (upd_srv (add_table n (srv w)) w)"
proof -
  have "length (table_heap (srv w)) \<notin> set (locked_tables (conn w))"
    using conn_invD(3) [OF inv] by (auto simp: valid_ptr_def)
  with inv new show ?thesis
    by (auto simp: step_ok_def conn_inv_def frame_def valid_ptr_add server_wf_add)
qed

lemma server_wf_release:
  assumes "server_wf (srv w)" "\<And>t. m_name (f t) = m_name t" "\<And>t. table_wf t \<Longrightarrow> table_wf (f t)"
    and "\<And>t. key_value_temp (f t) = []" "\<And>a. a \<in> set as \<Longrightarrow> valid_ptr a (srv w)"
  shows "server_wf (srv (release f as w))"
  using assms(1,5)
proof (induction as arbitrary: w)
  case (Cons a as)
  have "server_wf (put_table a ((f (table_at a (srv w)))\<lparr>table_mutex := None\<rparr>) (srv w))"
    using Cons.prems assms(2-4) by (intro server_wf_put) (auto dest: server_wfD)
  with Cons show ?case by simp
qed simp

text \<open>Ending a transaction, by commit or by rollback.\<close>

lemma step_ok_finish:
  assumes inv: "conn_inv i w"
    and f: "\<And>t. m_name (f t) = m_name t" "\<And>t. table_wf t \<Longrightarrow> table_wf (f t)"
      "\<And>t. key_value_temp (f t) = []"
  shows "step_ok i w (finish (release f (locked_tables (conn w)) w))"
proof -
  have wf: "server_wf (srv (release f (locked_tables (conn w)) w))"
    using f conn_invD(1,3) [OF inv] by (intro server_wf_release) auto
  note at = release_at [OF conn_invD(8) [OF inv]]
  show ?thesis
    using wf conn_invD(3,4,5) [OF inv] f(1)
    by (auto simp: step_ok_def conn_inv_def frame_def at)
qed

lemma step_ok_commit: "conn_inv i w \<Longrightarrow> step_ok i w (commit_world w)"
  unfolding commit_world_def by (rule step_ok_finish) auto

lemma step_ok_abort: "conn_inv i w \<Longrightarrow> step_ok i w (abort_world w)"
  unfolding abort_world_def by (rule step_ok_finish) auto

section \<open>The handlers\<close>

lemma handle_get_ok:
  assumes inv: "conn_inv i w" and args: "get_table msg = Some n" "get_key msg = Some k"
  shows "step_ok i w (snd (handle_get i msg w))"
proof (cases "smap_find n (set_of_table (srv w))")
  case None
  with handle_get_run [OF assms] inv show ?thesis by (simp add: step_ok_refl)
next
  case (Some a)
  then have ptr: "valid_ptr a (srv w)"
    using server_wfD(3) [OF conn_invD(1) [OF inv]] by blast
  show ?thesis
    using handle_get_run [OF assms] Some inv step_ok_lock_step [OF inv ptr]
    by (auto simp: step_ok_refl split: option.split)
qed

lemma handle_set_ok:
  assumes inv: "conn_inv i w" and args: "get_table msg = Some n" "get_key msg = Some k"
  shows "step_ok i w (snd (handle_set i msg w))"
proof (cases "operands w")
  case Nil
  with inv show ?thesis by (simp add: handle_set_empty step_ok_refl)
next
  case (Cons v vs)
  note run = handle_set_run [OF inv args Cons]
  have inv': "conn_inv i (drop_value w)" using inv by simp
  show ?thesis
  proof (cases "smap_find n (set_of_table (srv w))")
    case None
    with run inv show ?thesis by (simp add: step_ok_refl)
  next
    case (Some a)
    then have ptr: "valid_ptr a (srv (drop_value w))"
      using server_wfD(3) [OF conn_invD(1) [OF inv]] by simp
    have set: "step_ok i w (upd_table a (table_set k v) w')"
      if txn: "m_in_transaction (conn w)" and l: "lock_step i a (drop_value w) = Some w'" for w'
    proof -
      have w': "step_ok i w w'"
        using step_ok_lock_step [OF inv' ptr _ l] txn by simp
      moreover have "step_ok i w' (upd_table a (table_set k v) w')"
        using w' lock_step_owns [OF inv' ptr l]
        by (intro step_ok_upd_table) (auto simp: step_ok_def)
      ultimately show ?thesis by (rule step_ok_trans)
    qed
    have auto_set: "step_ok i w (upd_table a (\<lambda>t. commit_changes (table_set k v t)) (drop_value w))"
      if "table_mutex (table_at a (srv w)) = None"
      using that inv' ptr step_ok_upd_table [OF inv' ptr] by simp
    show ?thesis
      using run Some inv set auto_set by (auto simp: step_ok_refl split: option.split)
  qed
qed

lemma handle_create_ok:
  "conn_inv i w \<Longrightarrow> get_table msg = Some n \<Longrightarrow> step_ok i w (snd (handle_create i msg w))"
  by (auto simp: handle_create_run step_ok_refl step_ok_add_table)

lemma handle_commit_ok: "conn_inv i w \<Longrightarrow> step_ok i w (snd (handle_commit i w))"
  by (simp add: handle_commit_run step_ok_refl step_ok_commit)

lemma send_message_ok: "conn_inv i w \<Longrightarrow> step_ok i w (snd (send_message msg w))"
  by (simp add: send_message_run step_ok_refl split: sum.split)

lemma handle_top_ok: "conn_inv i w \<Longrightarrow> step_ok i w (snd (handle_top msg w))"
  by (simp add: handle_top_run step_ok_refl send_message_ok split: list.split)

text \<open>The operators never touch the state.\<close>

definition state_free :: "(int \<Rightarrow> int \<Rightarrow> (world, int) prog) \<Rightarrow> bool" where
  "state_free f \<longleftrightarrow> (\<forall>a b w. snd (f a b w) = w)"

lemma binary_operation_ok:
  assumes "conn_inv i w" "state_free f"
  shows "step_ok i w (snd (binary_operation msg f w))"
proof (cases "operands w" rule: list_two_cases)
  case few
  with assms show ?thesis by (simp add: binary_operation_few step_ok_refl)
next
  case (two r l vs)
    have "step_ok i w (snd (f a b (drop_value (drop_value w))))" for a b
      using assms by (simp add: state_free_def step_ok_refl)
    moreover have "step_ok i w (drop_value (drop_value w))"
      using assms by (simp add: step_ok_refl)
    ultimately show ?thesis
      by (auto simp: binary_operation_run [OF two] Let_def split: sum.split stoi_error.split prod.split res.split)
         (metis snd_conv)+
qed

lemma of_option_state [simp]: "snd (of_option x w) = w"
  by (cases x) (simp_all add: runs)

lemma arith_ok:
  assumes "conn_inv i w"
  shows "step_ok i w (snd (handle_add w))" "step_ok i w (snd (handle_sub w))"
    "step_ok i w (snd (handle_mul w))" "step_ok i w (snd (handle_div w))"
  unfolding handle_add_def handle_sub_def handle_mul_def handle_div_def
  by (rule binary_operation_ok [OF assms]; auto simp: state_free_def runs)+

lemma simple_handlers_ok:
  assumes "conn_inv i w"
  shows "step_ok i w (snd (handle_login msg w))" "step_ok i w (snd (handle_bye msg w))"
    "step_ok i w (snd (handle_pop msg w))" "step_ok i w (snd (handle_begin w))"
    "get_value msg = Some v \<Longrightarrow> step_ok i w (snd (handle_push msg w))"
  using assms by (auto simp: runs step_ok_refl step_ok_conn split: list.split)

lemma dispatch_ok:
  assumes inv: "conn_inv i w" and valid: "is_valid req"
  shows "step_ok i w (snd (dispatch i req w))"
proof -
  have tail: "snd (seq m (ret b) w) = snd (m w)" for m :: "(world, unit) prog" and b :: bool
    by (auto simp: runs split: prod.split res.split)
  have "m_message_type req \<noteq> NONE"
    using valid by (auto simp: is_valid.simps)
  then show ?thesis
    using valid_accessors [OF valid] inv
    by (cases "m_message_type req")
       (auto simp: dispatch_def get_message_type_def tail handle_get_ok handle_set_ok
         handle_create_ok handle_commit_ok handle_top_ok arith_ok simple_handlers_ok basic_runs step_ok_refl)
qed

lemma chat_body_ok:
  assumes inv: "conn_inv i w"
  shows "step_ok i w (snd (chat_body i buf w))"
proof (cases "decode (c_str buf)")
  case (Inl e)
  with inv show ?thesis by (simp add: chat_body_def runs step_ok_refl)
next
  case (Inr req)
  then have "is_valid req" by (rule decodeD)
  with Inr inv show ?thesis
    by (simp add: chat_body_def runs step_ok_refl dispatch_ok)
qed

lemma chat_catch_ok:
  assumes "step_ok i w (snd (m w))"
  shows "step_ok i w (snd (chat_catch i m w))"
proof -
  obtain r w' where m: "m w = (r, w')" by (cases "m w")
  with assms have ok: "step_ok i w w'" by simp
  then have inv: "conn_inv i w'" by (simp add: step_ok_def)
  have tail: "snd (seq n (ret b) u) = snd (n u)" for n :: "(world, unit) prog" and b :: bool and u
    by (auto simp: runs split: prod.split res.split)
  have send: "step_ok i w (snd (send_message msg u))" if "step_ok i w u" for msg u
    using that send_message_ok [of i u msg] by (auto simp: step_ok_def intro: frame_trans)
  have abort: "step_ok i w (abort_world w')"
    using ok step_ok_abort [OF inv] by (rule step_ok_trans)
  have "seq (rollback_all_tables i) (seq end_transaction (seq (send_message msg) (ret b))) w' =
      seq (send_message msg) (ret b) (abort_world w')" for msg and b :: bool
    using rollback_all_run [OF inv] by (simp only: seq_Ok end_transaction_run abort_world_def)
  then show ?thesis
    using m ok abort by (auto simp: chat_catch_def tail send split: res.split exn.split)
qed

lemma chat_iteration_ok: "conn_inv i w \<Longrightarrow> step_ok i w (snd (chat_iteration i buf w))"
  unfolding chat_iteration_def by (intro chat_catch_ok chat_body_ok)

lemma connection_destroy_run: "conn_inv i w \<Longrightarrow> connection_destroy i w =
   (Ok (), (release rollback_changes (locked_tables (conn w)) w)\<lparr>wire_open := False\<rparr>)"
  using conn_invD(6) [of i w]
  by (auto simp: connection_destroy_def runs rollback_all_run modify_def)

end
