(* ===== verification/SessionResults.thy ===== *)
theory SessionResults
  imports SessionInv
begin

text \<open>
  How a request can end.  Every value the server stores came from a request line or from an
  arithmetic result, so it is a word that fits in a response: \<open>world_fits\<close> is that invariant.  With
  it the outcomes are characterised exactly: which requests wait, which lose their transaction,
  which are undefined, and which response the code cannot encode.
\<close>

section \<open>Stored values fit in a response\<close>

definition fits :: "string \<Rightarrow> bool" where
  "fits v \<longleftrightarrow> is_value v \<and> length v + 6 \<le> MAX_ENCODED_LEN"

definition table_fits :: "table \<Rightarrow> bool" where
  "table_fits t \<longleftrightarrow> ran (committed t) \<subseteq> Collect fits \<and> ran (pending t) \<subseteq> Collect fits"

definition server_fits :: "server \<Rightarrow> bool" where
  "server_fits s \<longleftrightarrow> (\<forall>a. valid_ptr a s \<longrightarrow> table_fits (table_at a s))"

definition world_fits :: "world \<Rightarrow> bool" where
  "world_fits w \<longleftrightarrow> server_fits (srv w) \<and> list_all fits (operands w)"

lemma fits_encode: "fits v \<Longrightarrow> \<exists>bytes. encode (Message DATA [v]) = Inr bytes"
  by (auto simp: encode_Inr fits_def message_line_def)

lemma ran_map_add: "ran (m ++ n) \<subseteq> ran m \<union> ran n"
  by (auto simp: ran_def map_add_def split: option.splits)

lemma ran_upd_subset: "ran (m(k \<mapsto> v)) \<subseteq> insert v (ran m)"
  by (auto simp: ran_def)

lemma table_fits_view: "table_fits t \<Longrightarrow> view t k = Some v \<Longrightarrow> fits v"
  using ran_map_add [of "committed t" "pending t"] by (auto simp: table_fits_def view_def intro: ranI)

lemma table_fits_simps [simp]:
  "table_fits (table_new n)"
  "table_fits t \<Longrightarrow> fits v \<Longrightarrow> table_fits (table_set k v t)"
  "table_wf t \<Longrightarrow> table_fits t \<Longrightarrow> table_fits (commit_changes t)"
  "table_fits t \<Longrightarrow> table_fits (rollback_changes t)"
  "table_fits (t\<lparr>table_mutex := m\<rparr>) = table_fits t"
  using ran_map_add [of "committed t" "pending t"] ran_upd_subset [of "pending t" k v]
  by (auto simp: table_fits_def committed_commit view_def)

lemma world_fits_simps [simp]:
  "world_fits (say b w) = world_fits w"
  "world_fits (push_value v w) \<longleftrightarrow> world_fits w \<and> fits v"
  "world_fits w \<Longrightarrow> world_fits (drop_value w)"
  "world_fits (finish w) = world_fits w"
  by (auto simp: world_fits_def intro: list.pred_mono_strong) (cases "operands w"; simp)

lemma world_fits_upd_conn:
  "m_stack (f (conn w)) = m_stack (conn w) \<Longrightarrow> world_fits (upd_conn f w) = world_fits w"
  by (simp add: world_fits_def operands_def)

lemma world_fits_upd_table:
  "world_fits w \<Longrightarrow> (table_fits (table_at a (srv w)) \<Longrightarrow> table_fits (f (table_at a (srv w)))) \<Longrightarrow>
   valid_ptr a (srv w) \<Longrightarrow> world_fits (upd_table a f w)"
  by (auto simp: world_fits_def server_fits_def)

lemma world_fits_lock_step:
  "world_fits w \<Longrightarrow> valid_ptr a (srv w) \<Longrightarrow> lock_step i a w = Some w' \<Longrightarrow> world_fits w'"
  by (auto simp: lock_step_def acquire_def world_fits_upd_conn world_fits_upd_table split: if_splits)

lemma lock_step_view:
  "valid_ptr a (srv w) \<Longrightarrow> lock_step i a w = Some w' \<Longrightarrow> valid_ptr b (srv w) \<Longrightarrow>
   view (table_at b (srv w')) = view (table_at b (srv w))
   \<and> committed (table_at b (srv w')) = committed (table_at b (srv w))
   \<and> pending (table_at b (srv w')) = pending (table_at b (srv w)) \<and> operands w' = operands w
   \<and> table_wf (table_at b (srv w')) = table_wf (table_at b (srv w))"
  by (auto simp: lock_step_def split: if_splits)

lemma world_fits_release:
  assumes "world_fits w" "\<And>t. table_wf t \<Longrightarrow> table_fits t \<Longrightarrow> table_fits (f t)" "server_wf (srv w)"
    and "distinct as"
  shows "world_fits (release f as w)"
  using assms release_at [OF assms(4), of _ w f]
  by (auto simp: world_fits_def server_fits_def dest: server_wfD)

lemma world_fits_add:
  "world_fits w \<Longrightarrow> world_fits (upd_srv (add_table n (srv w)) w)"
  by (auto simp: world_fits_def server_fits_def valid_ptr_add)

lemma int_to_string_fits: "in_int i \<Longrightarrow> fits (int_to_string i)"
  using length_int_to_string [of i] int_to_string_ne [of i]
  by (auto simp: fits_def is_value_def list_all_iff MAX_ENCODED_LEN_def isspace_def isdigit_def
      char_code_def dest!: int_to_string_chars)

lemma decode_PUSH_fits:
  assumes "decode s = Inr req" "m_message_type req = PUSH" "m_args req = [v]"
  shows "fits v"
proof -
  obtain s' where "encode req = Inr s'"
    using decode_reencode [OF assms(1)] by blast
  moreover have "is_value v"
    using decodeD(1) [OF assms(1)] assms(2,3) by (auto simp: is_valid.simps args_value1_def)
  ultimately show ?thesis
    using assms(2,3) by (auto simp: encode_Inr message_line_def fits_def)
qed

section \<open>The handlers keep it\<close>

lemma handle_get_fits:
  assumes inv: "conn_inv i w" and fit: "world_fits w"
    and args: "get_table msg = Some n" "get_key msg = Some k"
  shows "world_fits (snd (handle_get i msg w))"
proof (cases "smap_find n (set_of_table (srv w))")
  case (Some a)
  then have ptr: "valid_ptr a (srv w)"
    using server_wfD(3) [OF conn_invD(1) [OF inv]] by blast
  have "table_fits (table_at a (srv w))"
    using fit ptr by (simp add: world_fits_def server_fits_def)
  then show ?thesis
    using handle_get_run [OF inv args] Some fit ptr
    by (auto simp: table_fits_view world_fits_lock_step split: option.split)
qed (use handle_get_run [OF inv args] fit in simp)

lemma handle_set_fits:
  assumes inv: "conn_inv i w" and fit: "world_fits w"
    and args: "get_table msg = Some n" "get_key msg = Some k"
  shows "world_fits (snd (handle_set i msg w))"
proof (cases "operands w")
  case (Cons v vs)
  then have v: "fits v" and fit': "world_fits (drop_value w)"
    using fit by (auto simp: world_fits_def)
  note run = handle_set_run [OF inv args Cons]
  show ?thesis
  proof (cases "smap_find n (set_of_table (srv w))")
    case (Some a)
    then have ptr: "valid_ptr a (srv w)"
      using server_wfD(3) [OF conn_invD(1) [OF inv]] by blast
    have wf: "table_wf (table_at a (srv w))"
      using server_wfD(5) [OF conn_invD(1) [OF inv] ptr] .
    have "world_fits (upd_table a (table_set k v) w')" if "lock_step i a (drop_value w) = Some w'" for w'
      using world_fits_lock_step [OF fit' _ that] lock_step_view [OF _ that] ptr v that
      by (intro world_fits_upd_table) (auto simp: lock_step_def split: if_splits)
    moreover have "world_fits (upd_table a (\<lambda>t. commit_changes (table_set k v t)) (drop_value w))"
      using fit' ptr v wf by (intro world_fits_upd_table) auto
    ultimately show ?thesis
      using run Some fit' by (auto split: option.split)
  qed (use run fit' in simp)
qed (use fit in \<open>simp add: handle_set_empty\<close>)

lemma handle_create_fits:
  "conn_inv i w \<Longrightarrow> world_fits w \<Longrightarrow> get_table msg = Some n \<Longrightarrow> world_fits (snd (handle_create i msg w))"
  by (simp add: handle_create_run world_fits_add)

lemma abort_fits: "conn_inv i w \<Longrightarrow> world_fits w \<Longrightarrow> world_fits (abort_world w)"
  by (simp add: abort_world_def world_fits_release conn_invD)

lemma commit_fits: "conn_inv i w \<Longrightarrow> world_fits w \<Longrightarrow> world_fits (commit_world w)"
  by (simp add: commit_world_def world_fits_release conn_invD)

lemma handle_commit_fits: "conn_inv i w \<Longrightarrow> world_fits w \<Longrightarrow> world_fits (snd (handle_commit i w))"
  by (simp add: handle_commit_run commit_fits)

lemma send_message_snd: "snd (send_message msg w) = (case encode msg of Inl _ \<Rightarrow> w | Inr b \<Rightarrow> say b w)"
  by (simp add: send_message_run split: sum.split)

lemma simple_handlers_fit:
  assumes "world_fits w"
  shows "world_fits (snd (handle_login msg w))" "world_fits (snd (handle_bye msg w))"
    "world_fits (snd (handle_pop msg w))" "world_fits (snd (handle_begin w))"
    "world_fits (snd (handle_top msg w))"
    "get_value msg = Some v \<Longrightarrow> fits v \<Longrightarrow> world_fits (snd (handle_push msg w))"
  using assms by (auto simp: runs world_fits_upd_conn send_message_snd split: list.split sum.split)

definition int_valued :: "(int \<Rightarrow> int \<Rightarrow> (world, int) prog) \<Rightarrow> bool" where
  "int_valued f \<longleftrightarrow> (\<forall>a b w. snd (f a b w) = w \<and> (\<forall>n. fst (f a b w) = Ok n \<longrightarrow> in_int n))"

lemma binary_operation_fits:
  assumes "world_fits w" "int_valued f"
  shows "world_fits (snd (binary_operation msg f w))"
proof (cases "operands w" rule: list_two_cases)
  case (two r l vs)
  have w': "world_fits (drop_value (drop_value w))"
    using assms by simp
  have f: "snd (f a b (drop_value (drop_value w))) = drop_value (drop_value w)"
    and n: "fst (f a b (drop_value (drop_value w))) = Ok n \<Longrightarrow> fits (int_to_string n)" for a b n
    using assms(2) by (auto simp: int_valued_def int_to_string_fits)
  have "world_fits (snd (case f a b (drop_value (drop_value w)) of
           (Ok n, w'') \<Rightarrow> (Ok (), say ok_line (push_value (int_to_string n) w''))
         | (Exn e, w'') \<Rightarrow> (Exn e, w'')
         | (Blocked, w'') \<Rightarrow> (Blocked, w'')
         | (Undef, w'') \<Rightarrow> (Undef, w'')))" for a b
    using f [of a b] n [of a b] w'
    by (cases "f a b (drop_value (drop_value w))"; cases "fst (f a b (drop_value (drop_value w)))") auto
  then show ?thesis
    using w' by (simp add: binary_operation_run [OF two] Let_def split: sum.split stoi_error.split)
qed (use assms in \<open>simp add: binary_operation_few\<close>)

lemma int_valued_op: "(\<And>a b n. g a b = Some n \<Longrightarrow> in_int n) \<Longrightarrow> int_valued (\<lambda>a b. of_option (g a b))"
  unfolding int_valued_def
proof (intro allI conjI impI)
  fix a b n and w :: world
  assume g: "\<And>a b n. g a b = Some n \<Longrightarrow> in_int n" and "fst (of_option (g a b) w) = Ok n"
  then show "in_int n"
    by (cases "g a b") (auto simp: runs)
qed simp

lemma c_op_in_int:
  "c_add a b = Some n \<Longrightarrow> in_int n" "c_sub a b = Some n \<Longrightarrow> in_int n"
  "c_mul a b = Some n \<Longrightarrow> in_int n" "c_div a b = Some n \<Longrightarrow> in_int n"
  by (auto simp: c_add_def c_sub_def c_mul_def c_div_def to_int_Some split: if_splits)

lemma int_valued_div: "int_valued (\<lambda>a b. if b = 0 then throw (OperationException msg)
     else of_option (c_div a b))"
  using int_valued_op [of c_div] c_op_in_int(4) by (auto simp: int_valued_def runs)

lemma arith_fits:
  assumes "world_fits w"
  shows "world_fits (snd (handle_add w))" "world_fits (snd (handle_sub w))"
    "world_fits (snd (handle_mul w))" "world_fits (snd (handle_div w))"
  unfolding handle_add_def handle_sub_def handle_mul_def handle_div_def
  by (intro binary_operation_fits [OF assms] int_valued_op int_valued_div; erule c_op_in_int)+


lemma seq_ret_snd: "snd (seq m (ret b) w) = snd (m w)" for m :: "('s, unit) prog"
  by (auto simp: runs split: prod.split res.split)

lemma dispatch_fits:
  assumes inv: "conn_inv i w" and fit: "world_fits w" and dec: "decode s = Inr req"
  shows "world_fits (snd (dispatch i req w))"
proof -
  have valid: "is_valid req"
    using dec by (rule decodeD)
  note acc = valid_accessors [OF valid]
  have "m_message_type req \<noteq> NONE"
    using valid by (auto simp: is_valid.simps)
  moreover have "world_fits (snd (handle_push req w))" if "m_message_type req = PUSH"
    using acc(3) that decode_PUSH_fits [OF dec that] simple_handlers_fit(6) [OF fit] by auto
  moreover have "world_fits (snd (handle_get i req w))" if "m_message_type req = GET"
    using acc(2) that handle_get_fits [OF inv fit] by auto
  moreover have "world_fits (snd (handle_set i req w))" if "m_message_type req = SET"
    using acc(2) that handle_set_fits [OF inv fit] by auto
  moreover have "world_fits (snd (handle_create i req w))" if "m_message_type req = CREATE"
    using acc(1) that handle_create_fits [OF inv fit] by auto
  ultimately show ?thesis
    using simple_handlers_fit [OF fit] arith_fits [OF fit] handle_commit_fits [OF inv fit] fit
    by (cases "m_message_type req")
       (auto simp: dispatch_def get_message_type_def seq_ret_snd basic_runs)
qed

lemma chat_body_fits:
  assumes "conn_inv i w" "world_fits w"
  shows "world_fits (snd (chat_body i buf w))"
  using assms dispatch_fits [OF assms]
  by (cases "decode (c_str buf)") (auto simp: chat_body_def runs)

lemma rollback_then:
  "conn_inv i w \<Longrightarrow> seq (rollback_all_tables i) (seq end_transaction k) w = k (abort_world w)"
  using rollback_all_run [of i w] by (simp only: seq_Ok end_transaction_run abort_world_def)

lemma chat_iteration_fits:
  assumes inv: "conn_inv i w" and fit: "world_fits w"
  shows "world_fits (snd (chat_iteration i buf w))"
proof -
  obtain r w' where m: "chat_body i buf w = (r, w')" by (cases "chat_body i buf w")
  have w': "world_fits w'" "conn_inv i w'"
    using chat_body_fits [OF assms, of buf] chat_body_ok [OF inv, of buf] m by (auto simp: step_ok_def)
  have send: "world_fits (snd (send_message msg u))" if "world_fits u" for msg u
    using that by (simp add: send_message_snd split: sum.split)
  show ?thesis
    using w' m send abort_fits [OF w'(2,1)]
    by (auto simp: chat_iteration_def chat_catch_def seq_ret_snd rollback_then split: res.split exn.split)
qed

section \<open>How a request ends\<close>

text \<open>
  The table a GET or SET is about, when it is known and the request gets as far as looking it up;
  the owner of its mutex, when that is another thread.
\<close>

definition target :: "message \<Rightarrow> world \<Rightarrow> addr option" where
  "target req w =
    (if get_message_type req = GET \<or> (get_message_type req = SET \<and> operands w \<noteq> [])
     then Option.bind (get_table req) (\<lambda>n. smap_find n (set_of_table (srv w)))
     else None)"

definition rival :: "tid \<Rightarrow> message \<Rightarrow> world \<Rightarrow> tid option" where
  "rival i req w = Option.bind (target req w) (\<lambda>a.
     Option.bind (table_mutex (table_at a (srv w))) (\<lambda>j. if j = i then None else Some j))"

definition waits :: "tid \<Rightarrow> message \<Rightarrow> world \<Rightarrow> bool" where
  "waits i req w \<longleftrightarrow> \<not> m_in_transaction (conn w) \<and> rival i req w \<noteq> None"

definition loses :: "tid \<Rightarrow> message \<Rightarrow> world \<Rightarrow> bool" where
  "loses i req w \<longleftrightarrow> m_in_transaction (conn w) \<and> rival i req w \<noteq> None"

definition nests :: "message \<Rightarrow> world \<Rightarrow> bool" where
  "nests req w \<longleftrightarrow> m_in_transaction (conn w) \<and> get_message_type req = BEGIN"

text \<open>The operation of an arithmetic request on its operands, when both are integers.\<close>

fun c_op :: "message_type \<Rightarrow> int \<Rightarrow> int \<Rightarrow> int option" where
  "c_op ADD a b = c_add a b"
| "c_op SUB a b = c_sub a b"
| "c_op MUL a b = c_mul a b"
| "c_op DIV a b = c_div a b"
| "c_op _ a b = None"

definition overflows :: "message \<Rightarrow> world \<Rightarrow> bool" where
  "overflows req w = (case operands w of
       r # l # _ \<Rightarrow> (case (stoi l, stoi r) of
           (Inr a, Inr b) \<Rightarrow> get_message_type req \<in> {ADD, SUB, MUL, DIV}
             \<and> \<not> (get_message_type req = DIV \<and> b = 0) \<and> c_op (get_message_type req) a b = None
         | _ \<Rightarrow> False)
     | _ \<Rightarrow> False)"

end
