(* ===== verification/Outcomes.thy ===== *)
theory Outcomes
  imports SessionResults
begin

text \<open>
  How a request ends, exactly: which requests wait, which lose their transaction, which are
  undefined, and which response the server cannot write.  \<open>calm\<close> is the rest: a normal return or
  an operation exception whose text is one of the fixed ones.
\<close>

definition calm :: "'a res \<Rightarrow> bool" where
  "calm r = (case r of Ok a \<Rightarrow> True
     | Exn e \<Rightarrow> (case e of OperationException t \<Rightarrow> length t \<le> 100 | _ \<Rightarrow> False)
     | Blocked \<Rightarrow> False | Undef \<Rightarrow> False)"

lemma calm_simps [simp]:
  "calm (Ok a)" "calm (Exn (OperationException t)) \<longleftrightarrow> length t \<le> 100" "\<not> calm Blocked" "\<not> calm Undef"
  "\<not> calm (Exn (FailedTransaction t))" "\<not> calm (Exn (InvalidMessage t))"
  "\<not> calm (Exn (CommException t))" "\<not> calm (Exn (RuntimeError t))"
  by (simp_all add: calm_def)

definition no_lock :: string where
  "no_lock = ''Could not acquire lock on table ''"

lemma rivalI:
  "target req w = Some a \<Longrightarrow> table_mutex (table_at a (srv w)) = Some j \<Longrightarrow> j \<noteq> i \<Longrightarrow> rival i req w = Some j"
  by (simp add: rival_def)

lemma rival_Some: "rival i req w = Some j \<longleftrightarrow>
  j \<noteq> i \<and> (\<exists>a. target req w = Some a \<and> table_mutex (table_at a (srv w)) = Some j)"
  by (auto simp: rival_def bind_eq_Some_conv)

lemma rival_None:
  "target req w = None \<Longrightarrow> rival i req w = None"
  "target req w = Some a \<Longrightarrow> table_mutex (table_at a (srv w)) \<in> {None, Some i} \<Longrightarrow> rival i req w = None"
  by (auto simp: rival_def)

lemma lock_step_rival:
  assumes inv: "conn_inv i w" and tgt: "target req w = Some a" and ptr: "valid_ptr a (srv w)"
  shows "lock_step i a w = None \<longleftrightarrow> rival i req w \<noteq> None"
proof (cases "table_mutex (table_at a (srv w))")
  case None
  then show ?thesis using tgt by (simp add: lock_step_def rival_def)
next
  case (Some j)
  have "a \<in> set (locked_tables (conn w)) \<longleftrightarrow> j = i"
    using Some conn_invD(4) [OF inv, of a] conn_invD(5) [OF inv ptr] by auto
  then show ?thesis using Some tgt by (simp add: lock_step_def rival_def)
qed

lemma free_no_txn:
  assumes inv: "conn_inv i w" and "\<not> m_in_transaction (conn w)" and ptr: "valid_ptr a (srv w)"
  shows "table_mutex (table_at a (srv w)) \<noteq> Some i"
  using conn_invD(5) [OF inv ptr] conn_invD(6) [OF inv assms(2)] by auto

lemma rival_free:
  assumes inv: "conn_inv i w" and "\<not> m_in_transaction (conn w)" and tgt: "target req w = Some a"
    and ptr: "valid_ptr a (srv w)"
  shows "table_mutex (table_at a (srv w)) = None \<longleftrightarrow> rival i req w = None"
  using free_no_txn [OF inv assms(2) ptr] tgt
  by (cases "table_mutex (table_at a (srv w))") (auto simp: rival_def)

text \<open>GET and SET end the same way: a lookup, then the lock, then a step that is calm.\<close>

lemma locking_outcome:
  assumes inv: "conn_inv i w"
    and ptr: "\<And>a. target req w = Some a \<Longrightarrow> valid_ptr a (srv w)"
    and run: "r = (case target req w of None \<Rightarrow> c0
        | Some a \<Rightarrow> if m_in_transaction (conn w)
            then (case lock_step i a w of None \<Rightarrow> Exn (FailedTransaction (no_lock @ n)) | Some w' \<Rightarrow> c1 a)
            else if table_mutex (table_at a (srv w)) = None then c1 a else Blocked)"
    and c: "calm c0" "\<And>a. calm (c1 a)"
  shows "waits i req w \<Longrightarrow> r = Blocked"
    and "loses i req w \<Longrightarrow> r = Exn (FailedTransaction (no_lock @ n))"
    and "rival i req w = None \<Longrightarrow> calm r"
proof -
  consider (none) "target req w = None" | (some) a where "target req w = Some a"
    by (cases "target req w") auto
  then have "(waits i req w \<longrightarrow> r = Blocked)
      \<and> (loses i req w \<longrightarrow> r = Exn (FailedTransaction (no_lock @ n)))
      \<and> (rival i req w = None \<longrightarrow> calm r)"
  proof cases
    case none
    then show ?thesis using run c by (simp add: waits_def loses_def rival_None)
  next
    case (some a)
    note lock = lock_step_rival [OF inv some ptr [OF some]]
    note free = rival_free [OF inv _ some ptr [OF some]]
    show ?thesis
      using run some c lock free by (auto simp: waits_def loses_def split: option.split)
  qed
  then show "waits i req w \<Longrightarrow> r = Blocked"
    and "loses i req w \<Longrightarrow> r = Exn (FailedTransaction (no_lock @ n))"
    and "rival i req w = None \<Longrightarrow> calm r"
    by auto
qed

lemma target_ptr:
  "conn_inv i w \<Longrightarrow> target req w = Some a \<Longrightarrow> valid_ptr a (srv w)"
  using server_wfD(3) [OF conn_invD(1)]
  by (auto simp: target_def bind_eq_Some_conv split: if_splits)

lemma handle_get_outcome:
  assumes inv: "conn_inv i w" and get: "get_message_type req = GET"
    and args: "get_table req = Some n" "get_key req = Some k"
  shows "waits i req w \<Longrightarrow> fst (handle_get i req w) = Blocked"
    and "loses i req w \<Longrightarrow> fst (handle_get i req w) = Exn (FailedTransaction (no_lock @ n))"
    and "rival i req w = None \<Longrightarrow> calm (fst (handle_get i req w))"
proof -
  have tgt: "target req w = smap_find n (set_of_table (srv w))"
    using get args by (simp add: target_def)
  let ?read = "\<lambda>a. case view (table_at a (srv w)) k of
      None \<Rightarrow> Exn (OperationException ''The key is not in the map'') | Some v \<Rightarrow> Ok ()"
  have run: "fst (handle_get i req w) = (case target req w of
        None \<Rightarrow> Exn (OperationException ''The table that you want to find is not exist'')
      | Some a \<Rightarrow> if m_in_transaction (conn w)
          then (case lock_step i a w of None \<Rightarrow> Exn (FailedTransaction (no_lock @ n)) | Some w' \<Rightarrow> ?read a)
          else if table_mutex (table_at a (srv w)) = None then ?read a else Blocked)"
    unfolding handle_get_run [OF inv args] tgt by (simp add: no_lock_def split: option.split)
  have calm: "calm (?read a)" for a
    by (simp split: option.split)
  show "waits i req w \<Longrightarrow> fst (handle_get i req w) = Blocked"
    and "loses i req w \<Longrightarrow> fst (handle_get i req w) = Exn (FailedTransaction (no_lock @ n))"
    and "rival i req w = None \<Longrightarrow> calm (fst (handle_get i req w))"
    using calm by (auto intro: locking_outcome [OF inv target_ptr [OF inv] run])
qed

lemma handle_set_outcome:
  assumes inv: "conn_inv i w" and set: "get_message_type req = SET"
    and args: "get_table req = Some n" "get_key req = Some k"
  shows "waits i req w \<Longrightarrow> fst (handle_set i req w) = Blocked"
    and "loses i req w \<Longrightarrow> fst (handle_set i req w) = Exn (FailedTransaction (no_lock @ n))"
    and "rival i req w = None \<Longrightarrow> calm (fst (handle_set i req w))"
proof -
  let ?c0 = "if operands w = [] then Exn (OperationException ''The stack is empty!'')
    else Exn (OperationException ''The table that you want to find is not exist'') :: unit res"
  have run: "fst (handle_set i req w) = (case target req w of None \<Rightarrow> ?c0
      | Some a \<Rightarrow> if m_in_transaction (conn w)
          then (case lock_step i a w of None \<Rightarrow> Exn (FailedTransaction (no_lock @ n)) | Some w' \<Rightarrow> Ok ())
          else if table_mutex (table_at a (srv w)) = None then Ok () else Blocked)"
  proof (cases "operands w")
    case (Cons v vs)
    then show ?thesis
      using set args unfolding handle_set_run [OF inv args Cons]
      by (auto simp: target_def no_lock_def lock_step_def split: option.split)
  qed (use set in \<open>simp add: handle_set_empty target_def\<close>)
  have calm: "calm ?c0"
    by simp
  show "waits i req w \<Longrightarrow> fst (handle_set i req w) = Blocked"
    and "loses i req w \<Longrightarrow> fst (handle_set i req w) = Exn (FailedTransaction (no_lock @ n))"
    and "rival i req w = None \<Longrightarrow> calm (fst (handle_set i req w))"
    using calm by (auto intro: locking_outcome [OF inv target_ptr [OF inv] run])
qed

lemma rival_other: "get_message_type req \<notin> {GET, SET} \<Longrightarrow> rival i req w = None"
  by (simp add: rival_def target_def)

section \<open>Arithmetic\<close>

text \<open>An operation on two integers: undefined when it has no result, else calm.\<close>

lemma binary_operation_outcome:
  assumes t: "get_message_type req \<in> {ADD, SUB, MUL, DIV}"
    and f: "\<And>a b u. fst (f a b u) =
      (if get_message_type req = DIV \<and> b = 0 then Exn (OperationException ''the division is 0'')
       else case c_op (get_message_type req) a b of None \<Rightarrow> Undef | Some n \<Rightarrow> Ok n)"
    and msg: "length msg \<le> 100"
  shows "overflows req w \<Longrightarrow> fst (binary_operation msg f w) = Undef"
    and "\<not> overflows req w \<Longrightarrow> calm (fst (binary_operation msg f w))"
proof -
  have "if overflows req w then fst (binary_operation msg f w) = Undef
        else calm (fst (binary_operation msg f w))"
  proof (cases "operands w" rule: list_two_cases)
    case few
    then have "\<not> overflows req w"
      by (auto simp: overflows_def split: list.splits)
    with few msg show ?thesis by (simp add: binary_operation_few)
  next
    case (two r l vs)
    let ?w = "drop_value (drop_value w)"
    show ?thesis
    proof (cases "\<exists>a b. stoi l = Inr a \<and> stoi r = Inr b")
      case True
      then obtain a b where ab: "stoi l = Inr a" "stoi r = Inr b" by blast
      obtain x u where fx: "f a b ?w = (x, u)" by (cases "f a b ?w")
      with f [of a b ?w] have x: "x = (if get_message_type req = DIV \<and> b = 0
          then Exn (OperationException ''the division is 0'')
          else case c_op (get_message_type req) a b of None \<Rightarrow> Undef | Some n \<Rightarrow> Ok n)"
        by simp
      show ?thesis
        using two ab fx x t
        by (auto simp: binary_operation_run [OF two] overflows_def Let_def split: option.split)
    next
      case False
      then have "\<not> overflows req w"
        using two by (auto simp: overflows_def split: sum.splits)
      moreover have "calm (fst (binary_operation msg f w))"
        using False by (auto simp: binary_operation_run [OF two] Let_def split: sum.split stoi_error.split)
      ultimately show ?thesis by simp
    qed
  qed
  then show "overflows req w \<Longrightarrow> fst (binary_operation msg f w) = Undef"
    and "\<not> overflows req w \<Longrightarrow> calm (fst (binary_operation msg f w))"
    by auto
qed

lemma of_option_fst: "fst (of_option x w) = (case x of None \<Rightarrow> Undef | Some n \<Rightarrow> Ok n)"
  by (cases x) (simp_all add: runs)

definition arith_handler :: "message_type \<Rightarrow> (world, unit) prog" where
  "arith_handler t = (if t = ADD then handle_add else if t = SUB then handle_sub
     else if t = MUL then handle_mul else handle_div)"

lemma arith_outcome:
  assumes t: "get_message_type req \<in> {ADD, SUB, MUL, DIV}"
  shows "overflows req w \<Longrightarrow> fst (arith_handler (get_message_type req) w) = Undef"
    and "\<not> overflows req w \<Longrightarrow> calm (fst (arith_handler (get_message_type req) w))"
  using t unfolding arith_handler_def
  by (auto simp: handle_add_def handle_sub_def handle_mul_def handle_div_def of_option_fst basic_runs
      intro!: binary_operation_outcome [where req = req])

lemma overflows_other: "get_message_type req \<notin> {ADD, SUB, MUL, DIV} \<Longrightarrow> \<not> overflows req w"
  by (auto simp: overflows_def split: list.splits sum.splits)

section \<open>The other handlers and the switch\<close>

lemma simple_outcome:
  assumes inv: "conn_inv i w" and fit: "world_fits w"
  shows "calm (fst (handle_login msg w))" "calm (fst (handle_bye msg w))"
    "calm (fst (handle_pop msg w))" "calm (fst (handle_top msg w))" "calm (fst (handle_commit i w))"
    "get_value msg = Some v \<Longrightarrow> calm (fst (handle_push msg w))"
    "get_table msg = Some n \<Longrightarrow> calm (fst (handle_create i msg w))"
    "\<not> m_in_transaction (conn w) \<Longrightarrow> calm (fst (handle_begin w))"
proof -
  have send: "calm (fst (send_message (Message DATA [v]) w))" if "fits v" for v
    using fits_encode [OF that] by (auto simp: send_message_run)
  show "calm (fst (handle_top msg w))"
  proof (cases "operands w")
    case (Cons v vs)
    then have "fits v"
      using fit by (simp add: world_fits_def)
    then show ?thesis
      using send by (simp add: handle_top_run Cons)
  qed (simp add: handle_top_run)
  show "calm (fst (handle_pop msg w))"
    by (cases "operands w") (simp_all add: handle_pop_run)
qed (simp_all add: handle_login_run handle_bye_run handle_push_run handle_begin_run
    handle_commit_run [OF inv] handle_create_run [OF inv])

lemma seq_ret_fst: "fst (seq m (ret b) w) = (case fst (m w) of
     Ok _ \<Rightarrow> Ok b | Exn e \<Rightarrow> Exn e | Blocked \<Rightarrow> Blocked | Undef \<Rightarrow> Undef)" for m :: "('s, unit) prog"
  by (cases "m w"; cases "fst (m w)") (simp_all add: seq_run basic_runs)

lemma calm_seq_ret: "calm (fst (m w)) \<Longrightarrow> calm (fst (seq m (ret b) w))" for m :: "('s, unit) prog"
  by (cases "fst (m w)") (simp_all add: seq_ret_fst calm_def)

definition unknown_command :: string where
  "unknown_command = ''Unknown or invalid command received''"

definition nested_txn :: string where
  "nested_txn = ''Nested transaction not allowed''"

definition response_types :: "message_type set" where
  "response_types = {NONE, OK, FAILED, ERROR, DATA}"

lemma response_type: "t \<in> response_types \<longleftrightarrow> t = NONE \<or> t = OK \<or> t = FAILED \<or> t = ERROR \<or> t = DATA"
  by (auto simp: response_types_def)

lemma response_types_order: "t \<in> response_types \<longleftrightarrow> \<not> request_type t"
  by (cases t) (simp_all add: response_type request_type_def less_eq_message_type_def)

text \<open>A request that waits has done nothing another thread can see.\<close>

lemma handle_get_blocked:
  assumes "conn_inv i w" "get_table req = Some n" "get_key req = Some k" "fst (handle_get i req w) = Blocked"
  shows "snd (handle_get i req w) = w"
  using assms(4) unfolding handle_get_run [OF assms(1-3)] by (auto split: option.splits if_splits)

lemma handle_set_blocked:
  assumes "conn_inv i w" "get_table req = Some n" "get_key req = Some k" "fst (handle_set i req w) = Blocked"
  shows "snd (handle_set i req w) = drop_value w"
proof (cases "operands w")
  case (Cons v vs)
  show ?thesis
    using assms(4) unfolding handle_set_run [OF assms(1-3) Cons] by (auto split: option.splits if_splits)
qed (use assms(4) in \<open>simp add: handle_set_empty\<close>)

lemma dispatch_arith: "get_message_type req \<in> {ADD, SUB, MUL, DIV} \<Longrightarrow>
  dispatch i req = seq (arith_handler (get_message_type req)) (ret True)"
  by (auto simp: dispatch_def arith_handler_def)

lemma dispatch_response: "get_message_type req \<in> response_types \<Longrightarrow>
  dispatch i req w = (Exn (InvalidMessage unknown_command), w)"
  by (auto simp: response_type dispatch_def unknown_command_def runs)

lemma dispatch_waits:
  assumes "conn_inv i w" "is_valid req" "waits i req w"
  shows "fst (dispatch i req w) = Blocked"
proof -
  have t: "get_message_type req \<in> {GET, SET}"
    using assms(3) rival_other by (force simp: waits_def)
  then obtain n k where "get_table req = Some n" "get_key req = Some k"
    using valid_accessors(2) [OF assms(2)] by (auto simp: get_message_type_def)
  with t show ?thesis
    using handle_get_outcome(1) [OF assms(1)] handle_set_outcome(1) [OF assms(1)] assms(3)
    by (auto simp: dispatch_def seq_ret_fst)
qed

lemma dispatch_loses:
  assumes "conn_inv i w" "is_valid req" "loses i req w" "get_table req = Some n"
  shows "fst (dispatch i req w) = Exn (FailedTransaction (no_lock @ n))"
proof -
  have t: "get_message_type req \<in> {GET, SET}"
    using assms(3) rival_other by (force simp: loses_def)
  then obtain k where "get_key req = Some k"
    using valid_accessors(2) [OF assms(2)] by (auto simp: get_message_type_def)
  with t show ?thesis
    using handle_get_outcome(2) [OF assms(1)] handle_set_outcome(2) [OF assms(1)] assms(3,4)
    by (auto simp: dispatch_def seq_ret_fst)
qed

lemma waits_blocked:
  assumes "conn_inv i w" "is_valid req" "waits i req w"
  shows "srv (snd (dispatch i req w)) = srv w"
proof -
  have t: "get_message_type req \<in> {GET, SET}"
    using assms(3) rival_other by (force simp: waits_def)
  then obtain n k where args: "get_table req = Some n" "get_key req = Some k"
    using valid_accessors(2) [OF assms(2)] by (auto simp: get_message_type_def)
  show ?thesis
    using t handle_get_outcome(1) [OF assms(1) _ args assms(3)] handle_get_blocked [OF assms(1) args]
      handle_set_outcome(1) [OF assms(1) _ args assms(3)] handle_set_blocked [OF assms(1) args]
    by (auto simp: dispatch_def seq_ret_snd)
qed

lemma dispatch_nests:
  "nests req w \<Longrightarrow> dispatch i req w = (Exn (FailedTransaction nested_txn), w)"
  by (simp add: nests_def dispatch_def runs nested_txn_def)

lemma dispatch_overflows:
  assumes "overflows req w"
  shows "fst (dispatch i req w) = Undef"
proof -
  have t: "get_message_type req \<in> {ADD, SUB, MUL, DIV}"
    using assms overflows_other by blast
  then show ?thesis
    using arith_outcome(1) [OF t assms] by (simp add: dispatch_arith seq_ret_fst)
qed

lemma dispatch_calm:
  assumes inv: "conn_inv i w" and fit: "world_fits w" and valid: "is_valid req"
    and "rival i req w = None" "\<not> nests req w" "\<not> overflows req w" "get_message_type req \<notin> response_types"
  shows "calm (fst (dispatch i req w))"
proof -
  note acc = valid_accessors [OF valid, folded get_message_type_def]
  consider (arith) "get_message_type req \<in> {ADD, SUB, MUL, DIV}"
    | (table) "get_message_type req \<in> {GET, SET}"
    | (other) "get_message_type req \<notin> {ADD, SUB, MUL, DIV, GET, SET}" by blast
  then show ?thesis
  proof cases
    case arith
    then show ?thesis
      using arith_outcome(2) [OF arith assms(6)] by (simp add: dispatch_arith calm_seq_ret)
  next
    case table
    then show ?thesis
      using acc(2) handle_get_outcome(3) [OF inv] handle_set_outcome(3) [OF inv] assms(4)
      by (auto simp: dispatch_def intro!: calm_seq_ret)
  next
    case other
    then show ?thesis
      using acc(1,3) simple_outcome [OF inv fit] assms(5,7)
      by (cases "get_message_type req")
         (auto simp: dispatch_def response_type nests_def intro!: calm_seq_ret)
  qed
qed

section \<open>What a handler writes\<close>

text \<open>
  A handler that returns has written one response, OK or DATA; one that does not return has
  written nothing.
\<close>

definition response_line :: "message \<Rightarrow> string \<Rightarrow> bool" where
  "response_line resp line \<longleftrightarrow> is_valid resp \<and> encode resp = Inr line
     \<and> get_message_type resp \<in> {OK, DATA, FAILED, ERROR}"

definition wrote :: "message_type set \<Rightarrow> world \<Rightarrow> world \<Rightarrow> bool" where
  "wrote ts w w' \<longleftrightarrow> (\<exists>resp line. response_line resp line \<and> get_message_type resp \<in> ts
     \<and> wire w' = wire w @ line)"

definition answered :: "world \<Rightarrow> 'a res \<times> world \<Rightarrow> bool" where
  "answered w p \<longleftrightarrow> (case fst p of Ok a \<Rightarrow> wrote {OK, DATA} w (snd p) | _ \<Rightarrow> wire (snd p) = wire w)"

lemma response_ok: "response_line (Message OK []) ok_line"
  by (simp add: response_line_def is_valid.simps encode_short MAX_ENCODED_LEN_def ok_line_def)

lemma answered_simps [simp]:
  "answered w (Ok a, say ok_line w') \<longleftrightarrow> wrote {OK, DATA} w (say ok_line w')"
  "answered w (Exn e, w') \<longleftrightarrow> wire w' = wire w"
  "answered w (Blocked, w') \<longleftrightarrow> wire w' = wire w"
  "answered w (Undef, w') \<longleftrightarrow> wire w' = wire w"
  by (simp_all add: answered_def)

lemma wrote_ok [simp]: "wire w' = wire w \<Longrightarrow> wrote {OK, DATA} w (say ok_line w')"
  using response_ok by (fastforce simp: wrote_def)

lemma lock_step_wire: "lock_step i a w = Some w' \<Longrightarrow> wire w' = wire w"
  by (auto simp: lock_step_def split: if_splits)

lemma ending_wire [simp]:
  "wire (commit_world w) = wire w" "wire (abort_world w) = wire w"
  by (simp_all add: commit_world_def abort_world_def)

lemma handle_get_answered:
  assumes "conn_inv i w" "get_table req = Some n" "get_key req = Some k"
  shows "answered w (handle_get i req w)"
  unfolding handle_get_run [OF assms] by (auto simp: lock_step_wire split: option.split)

lemma handle_set_answered:
  assumes "conn_inv i w" "get_table req = Some n" "get_key req = Some k"
  shows "answered w (handle_set i req w)"
proof (cases "operands w")
  case (Cons v vs)
  show ?thesis
    unfolding handle_set_run [OF assms Cons] by (auto dest: lock_step_wire split: option.split)
qed (simp add: handle_set_empty)

lemma handle_top_answered:
  assumes "world_fits w"
  shows "answered w (handle_top req w)"
proof (cases "operands w")
  case (Cons v vs)
  with assms have v: "fits v" by (simp add: world_fits_def)
  then obtain line where line: "encode (Message DATA [v]) = Inr line"
    using fits_encode by blast
  moreover have "is_valid (Message DATA [v])"
    using v by (simp add: is_valid.simps args_value1_def fits_def)
  ultimately have "wrote {OK, DATA} w (say line w)"
    by (fastforce simp: wrote_def response_line_def)
  with line Cons show ?thesis
    by (simp add: handle_top_run send_message_run answered_def)
qed (simp add: handle_top_run)

lemma binary_operation_answered:
  assumes "\<And>a b u. snd (f a b u) = u"
  shows "answered w (binary_operation msg f w)"
proof (cases "operands w" rule: list_two_cases)
  case (two r l vs)
  have "answered w (case f a b (drop_value (drop_value w)) of
           (Ok n, w'') \<Rightarrow> (Ok (), say ok_line (push_value (int_to_string n) w''))
         | (Exn e, w'') \<Rightarrow> (Exn e, w'')
         | (Blocked, w'') \<Rightarrow> (Blocked, w'')
         | (Undef, w'') \<Rightarrow> (Undef, w''))" for a b
    using assms [of a b "drop_value (drop_value w)"]
    by (cases "f a b (drop_value (drop_value w))"; cases "fst (f a b (drop_value (drop_value w)))") auto
  then show ?thesis
    by (simp add: binary_operation_run [OF two] Let_def split: sum.split stoi_error.split)
qed (simp add: binary_operation_few)

lemma arith_answered:
  "answered w (handle_add w)" "answered w (handle_sub w)"
  "answered w (handle_mul w)" "answered w (handle_div w)"
  unfolding handle_add_def handle_sub_def handle_mul_def handle_div_def
  by (rule binary_operation_answered; simp add: basic_runs)+

lemma simple_answered:
  assumes "conn_inv i w"
  shows "answered w (handle_login req w)" "answered w (handle_bye req w)"
    "answered w (handle_pop req w)" "answered w (handle_begin w)" "answered w (handle_commit i w)"
    "get_value req = Some v \<Longrightarrow> answered w (handle_push req w)"
    "get_table req = Some n \<Longrightarrow> answered w (handle_create i req w)"
  using assms
  by (auto simp: handle_login_run handle_bye_run handle_push_run handle_begin_run handle_pop_run
      handle_commit_run handle_create_run split: list.split)

lemma answered_seq_ret: "answered w (m w) \<Longrightarrow> answered w (seq m (ret b) w)" for m :: "(world, unit) prog"
  by (cases "m w"; cases "fst (m w)") (simp_all add: answered_def seq_ret_fst seq_ret_snd)

lemma dispatch_answered:
  assumes inv: "conn_inv i w" and fit: "world_fits w" and valid: "is_valid req"
  shows "answered w (dispatch i req w)"
proof (cases "get_message_type req \<in> response_types")
  case True
  then show ?thesis by (simp add: dispatch_response)
next
  case False
  then show ?thesis
    using valid_accessors [OF valid, folded get_message_type_def] simple_answered [OF inv]
      arith_answered [of w] handle_get_answered [OF inv] handle_set_answered [OF inv]
      handle_top_answered [OF fit]
    by (cases "get_message_type req")
       (auto simp: dispatch_def response_type intro!: answered_seq_ret)
qed

end
