(* ===== verification/ChatFacts.thy ===== *)
theory ChatFacts
  imports Outcomes
begin

text \<open>
  One turn of the conversation loop: from the line the client sent to the response it is sent and
  to whether the loop goes on, through the catch clauses.
\<close>

section \<open>The texts of the exceptions\<close>

lemma decode_texts: "decode s = Inl e \<Longrightarrow> \<exists>t. e = InvalidMessage t \<and> length t \<le> 100"
  by (auto simp: decode_def decode_line_def Let_def split: if_splits option.splits prod.splits)

definition not_logged_in :: string where
  "not_logged_in = ''User has not logged in''"

definition too_long :: string where
  "too_long = ''Encoded message exceeds maximum length''"

lemma encode_text:
  assumes "t = FAILED \<and> p = ''FAILED '' \<or> t = ERROR \<and> p = ''ERROR ''"
  shows "encode (Message t [e]) =
    (if length p + length e + 1 > MAX_ENCODED_LEN then Inl (InvalidMessage too_long)
     else Inr (p @ e @ [newline]))"
  using assms by (auto simp: encode_def too_long_def)

lemma text_response:
  assumes "t \<in> {FAILED, ERROR}" "length e \<le> 1016"
  obtains line where "response_line (Message t [e]) line"
proof -
  have "is_valid (Message t [e])" "\<exists>line. encode (Message t [e]) = Inr line"
    using assms encode_text [of FAILED "''FAILED ''" e] encode_text [of ERROR "''ERROR ''" e]
    by (auto simp: is_valid.simps MAX_ENCODED_LEN_def)
  with assms(1) that show thesis
    by (auto simp: response_line_def)
qed

section \<open>The request of a line\<close>

text \<open>
  \<open>admitted\<close>: the line decodes, and the client may make the request.  What \<open>chat_body\<close> does then is
  what the switch does.
\<close>

definition admitted :: "string \<Rightarrow> world \<Rightarrow> message option" where
  "admitted buf w = (case decode (c_str buf) of
       Inl e \<Rightarrow> None
     | Inr req \<Rightarrow> if get_message_type req \<noteq> LOGIN \<and> get_message_type req \<noteq> BYE \<and> \<not> m_logged_in (conn w)
         then None else Some req)"

lemma admitted_body: "admitted buf w = Some req \<Longrightarrow> chat_body i buf w = dispatch i req w"
  by (auto simp: admitted_def chat_body_def runs split: sum.splits if_splits)

lemma admittedD: "admitted buf w = Some req \<Longrightarrow> decode (c_str buf) = Inr req \<and> is_valid req"
  by (auto simp: admitted_def dest: decodeD(1) split: sum.splits if_splits)

lemma not_admitted_body:
  assumes "admitted buf w = None"
  obtains (bad) t where "decode (c_str buf) = Inl (InvalidMessage t)" "length t \<le> 100"
      "chat_body i buf w = (Exn (InvalidMessage t), w)"
  | (login) req where "decode (c_str buf) = Inr req" "get_message_type req \<noteq> BYE"
      "chat_body i buf w = (Exn (OperationException not_logged_in), w)"
proof (cases "decode (c_str buf)")
  case (Inl e)
  then show thesis
    using decode_texts [OF Inl] bad by (auto simp: chat_body_def runs)
next
  case (Inr req)
  then show thesis
    using assms login [of req]
    by (auto simp: admitted_def chat_body_def runs not_logged_in_def split: if_splits)
qed

section \<open>Through the catch clauses\<close>

lemma send_text:
  "fst (send_message msg w) = (case encode msg of Inl e \<Rightarrow> Exn e | Inr b \<Rightarrow> Ok ())"
  by (simp add: send_message_run split: sum.split)

lemma iteration_Ok: "chat_body i buf w = (Ok b, w') \<Longrightarrow> chat_iteration i buf w = (Ok b, w')"
  "chat_body i buf w = (Blocked, w') \<Longrightarrow> chat_iteration i buf w = (Blocked, w')"
  "chat_body i buf w = (Undef, w') \<Longrightarrow> chat_iteration i buf w = (Undef, w')"
  by (simp_all add: chat_iteration_def chat_catch_def)

lemma iteration_text:
  assumes "t = FAILED \<and> chat_body i buf w = (Exn (OperationException e), w') \<and> b
    \<or> t = ERROR \<and> chat_body i buf w = (Exn (InvalidMessage e), w') \<and> \<not> b"
    and "length e \<le> 1016"
  shows "\<exists>line. response_line (Message t [e]) line \<and> chat_iteration i buf w = (Ok b, say line w')"
proof -
  obtain line where line: "response_line (Message t [e]) line"
    using assms by (auto elim: text_response [rotated])
  then have "encode (Message t [e]) = Inr line"
    by (simp add: response_line_def)
  then have "chat_iteration i buf w = (Ok b, say line w')"
    using assms(1) by (auto simp: chat_iteration_def chat_catch_def seq_run send_message_run basic_runs)
  with line show ?thesis by blast
qed

lemma iteration_abort:
  assumes "chat_body i buf w = (Exn (FailedTransaction e), w')" "conn_inv i w'"
  shows "chat_iteration i buf w = (case encode (Message FAILED [e]) of
      Inl x \<Rightarrow> (Exn x, abort_world w') | Inr line \<Rightarrow> (Ok True, say line (abort_world w')))"
  using assms
  by (simp add: chat_iteration_def chat_catch_def rollback_then)
     (simp add: seq_run send_message_run basic_runs split: sum.split)

section \<open>The result of a turn\<close>

definition oversize :: "tid \<Rightarrow> message \<Rightarrow> world \<Rightarrow> bool" where
  "oversize i req w \<longleftrightarrow> loses i req w \<and> (case get_table req of None \<Rightarrow> False | Some n \<Rightarrow> length n > 984)"

definition turn_result :: "tid \<Rightarrow> string \<Rightarrow> world \<Rightarrow> bool res" where
  "turn_result i buf w = (case admitted buf w of
       None \<Rightarrow> (case decode (c_str buf) of Inl e \<Rightarrow> Ok False | Inr req \<Rightarrow> Ok True)
     | Some req \<Rightarrow>
        if waits i req w then Blocked
        else if overflows req w then Undef
        else if oversize i req w then Exn (InvalidMessage too_long)
        else Ok (get_message_type req \<noteq> BYE \<and> get_message_type req \<notin> response_types))"

definition turn_answered :: "world \<Rightarrow> bool res \<times> world \<Rightarrow> bool" where
  "turn_answered w p \<longleftrightarrow> (case fst p of Ok b \<Rightarrow> wrote {OK, DATA, FAILED, ERROR} w (snd p)
     | _ \<Rightarrow> wire (snd p) = wire w)"

lemma wroteI:
  "response_line (Message t as) line \<Longrightarrow> wire w' = wire w \<Longrightarrow> t \<in> ts \<Longrightarrow> wrote ts w (say line w')"
  by (auto simp: wrote_def)

lemma wrote_mono: "wrote ts w w' \<Longrightarrow> ts \<subseteq> ts' \<Longrightarrow> wrote ts' w w'"
  by (auto simp: wrote_def)

lemma dispatch_continues: "fst (dispatch i req w) = Ok b \<Longrightarrow> b = (get_message_type req \<noteq> BYE)"
proof -
  have "fst (seq m (ret c) w) = Ok b \<Longrightarrow> b = c" for m :: "(world, unit) prog" and c
    by (cases "fst (m w)") (simp_all add: seq_ret_fst)
  then show "fst (dispatch i req w) = Ok b \<Longrightarrow> b = (get_message_type req \<noteq> BYE)"
    by (cases "get_message_type req") (auto simp: dispatch_def basic_runs)
qed

lemma dispatch_bye: "get_message_type req = BYE \<Longrightarrow> dispatch i req w = (Ok False, say ok_line w)"
  by (simp add: dispatch_def seq_run handle_bye_run basic_runs)

lemma turn_rejected:
  assumes "admitted buf w = None"
  shows "fst (chat_iteration i buf w) = turn_result i buf w
    \<and> turn_answered w (chat_iteration i buf w)"
proof (rule not_admitted_body [OF assms, of i])
  fix t
  assume "decode (c_str buf) = Inl (InvalidMessage t)" "length t \<le> 100"
    "chat_body i buf w = (Exn (InvalidMessage t), w)"
  with iteration_text [of ERROR i buf w t w False] assms show ?thesis
    by (auto simp: turn_result_def turn_answered_def intro: wroteI)
next
  fix req
  assume "decode (c_str buf) = Inr req" "chat_body i buf w = (Exn (OperationException not_logged_in), w)"
  with iteration_text [of FAILED i buf w not_logged_in w True] assms show ?thesis
    by (auto simp: turn_result_def turn_answered_def not_logged_in_def intro: wroteI)
qed

lemma turn_calm:
  assumes body: "chat_body i buf w = (r, w')" and "calm r" "turn_answered w (r, w')"
    and b: "\<And>c. r = Ok c \<Longrightarrow> c = b" and exn: "\<And>e. r = Exn e \<Longrightarrow> b"
  shows "fst (chat_iteration i buf w) = Ok b \<and> turn_answered w (chat_iteration i buf w)"
proof (cases r)
  case (Ok c)
  with assms iteration_Ok(1) [of i buf w c w'] show ?thesis by simp
next
  case (Exn x)
  then obtain t where t: "x = OperationException t" "length t \<le> 100" "b"
    using \<open>calm r\<close> exn by (cases x) auto
  with assms Exn iteration_text [of FAILED i buf w t w' True] show ?thesis
    by (auto simp: turn_answered_def intro: wroteI)
qed (use \<open>calm r\<close> in simp_all)

lemma answered_turn: "answered w p \<Longrightarrow> turn_answered w p"
  by (auto simp: answered_def turn_answered_def intro: wrote_mono split: res.splits)

lemma turn_abort:
  assumes body: "chat_body i buf w = (Exn (FailedTransaction e), w')" and inv: "conn_inv i w"
    and wire: "wire w' = wire w"
  shows "fst (chat_iteration i buf w) =
      (if length e > 1016 then Exn (InvalidMessage too_long) else Ok True)
    \<and> turn_answered w (chat_iteration i buf w)"
proof -
  have "conn_inv i w'"
    using chat_body_ok [OF inv, of buf] body by (simp add: step_ok_def)
  note run = iteration_abort [OF body this]
  show ?thesis
  proof (cases "length e > 1016")
    case True
    then show ?thesis
      using encode_text [of FAILED "''FAILED ''" e] wire
      by (simp add: run turn_answered_def MAX_ENCODED_LEN_def)
  next
    case False
    then obtain line where "response_line (Message FAILED [e]) line"
      using text_response [of FAILED e] by auto
    then show ?thesis
      using False wire by (auto simp: run turn_answered_def response_line_def intro!: wroteI)
  qed
qed

lemma turn_admitted:
  assumes inv: "conn_inv i w" and fit: "world_fits w" and adm: "admitted buf w = Some req"
  shows "fst (chat_iteration i buf w) = turn_result i buf w
    \<and> turn_answered w (chat_iteration i buf w)"
proof -
  have valid: "is_valid req"
    using admittedD [OF adm] by blast
  obtain r w' where run: "dispatch i req w = (r, w')"
    by (cases "dispatch i req w")
  note body = admitted_body [OF adm, of i, unfolded run]
  have ans: "turn_answered w (r, w')"
    using answered_turn [OF dispatch_answered [OF inv fit valid]] run by simp
  consider (waits) "waits i req w" | (loses) "loses i req w" | (nests) "nests req w" "rival i req w = None"
    | (overflows) "overflows req w" "rival i req w = None" "\<not> nests req w"
    | (response) "get_message_type req \<in> response_types"
    | (calm) "rival i req w = None" "\<not> nests req w" "\<not> overflows req w" "get_message_type req \<notin> response_types"
    unfolding waits_def loses_def by blast
  then show ?thesis
  proof cases
    case waits
    then have "r = Blocked"
      using dispatch_waits [OF inv valid] run waits by simp
    then show ?thesis
      using iteration_Ok(2) body waits ans adm by (auto simp: turn_result_def turn_answered_def)
  next
    case loses
    then have t: "get_message_type req \<in> {GET, SET}"
      using rival_other by (force simp: loses_def)
    then obtain n where n: "get_table req = Some n"
      using valid_accessors(2) [OF valid] by (auto simp: get_message_type_def)
    have "r = Exn (FailedTransaction (no_lock @ n))"
      using dispatch_loses [OF inv valid loses n] run by simp
    moreover have "\<not> waits i req w" "\<not> overflows req w"
      using loses t overflows_other [of req w] by (auto simp: loses_def waits_def)
    moreover have "get_message_type req \<noteq> BYE \<and> get_message_type req \<notin> response_types"
      using t by (auto simp: response_type)
    moreover have "length (no_lock @ n) > 1016 \<longleftrightarrow> length n > 984"
      by (simp add: no_lock_def)
    ultimately show ?thesis
      using turn_abort [OF _ inv, of buf "no_lock @ n" w'] body ans adm n loses
      by (auto simp: turn_result_def oversize_def turn_answered_def split: if_splits)
  next
    case nests
    then have "r = Exn (FailedTransaction nested_txn)" "w' = w"
      using dispatch_nests [of req w i] run by simp_all
    moreover have "\<not> waits i req w" "\<not> overflows req w" "\<not> oversize i req w"
      using nests overflows_other [of req w] by (auto simp: nests_def waits_def oversize_def loses_def)
    ultimately show ?thesis
      using turn_abort [OF _ inv, of buf nested_txn w'] body adm nests(1)
      by (simp add: turn_result_def nests_def nested_txn_def response_type)
  next
    case overflows
    then have "r = Undef"
      using dispatch_overflows [of req w i] run by simp
    then show ?thesis
      using iteration_Ok(3) body overflows ans adm
      by (auto simp: turn_result_def turn_answered_def waits_def)
  next
    case response
    then have r: "r = Exn (InvalidMessage unknown_command)" "w' = w"
      using dispatch_response [of req i w] run by simp_all
    have "rival i req w = None" "\<not> overflows req w"
      using response overflows_other [of req w] rival_other [of req i w] by (auto simp: response_type)
    then show ?thesis
      using iteration_text [of ERROR i buf w unknown_command w False] body r adm response
      by (auto simp: turn_result_def waits_def oversize_def loses_def unknown_command_def
          turn_answered_def intro: wroteI)
  next
    case calm
    have c: "r = Ok b \<Longrightarrow> b = (get_message_type req \<noteq> BYE)" for b
      using dispatch_continues [of i req w b] run by simp
    have e: "r = Exn e \<Longrightarrow> get_message_type req \<noteq> BYE" for e
      using dispatch_bye [of req i w] run by auto
    have "calm r"
      using dispatch_calm [OF inv fit valid calm] run by simp
    then show ?thesis
      using turn_calm [OF body _ ans c e] calm adm
      by (simp add: turn_result_def waits_def oversize_def loses_def)
  qed
qed

text \<open>Every turn, admitted or not.\<close>

lemma turn_outcome:
  "conn_inv i w \<Longrightarrow> world_fits w \<Longrightarrow>
   fst (chat_iteration i buf w) = turn_result i buf w \<and> turn_answered w (chat_iteration i buf w)"
  using turn_rejected turn_admitted by (cases "admitted buf w") auto

text \<open>A turn that waits has changed nothing another thread can see.\<close>

lemma blocked_turn:
  assumes inv: "conn_inv i w" and fit: "world_fits w" and blocked: "fst (chat_iteration i buf w) = Blocked"
  shows "srv (snd (chat_iteration i buf w)) = srv w \<and> wire (snd (chat_iteration i buf w)) = wire w"
proof -
  have "turn_result i buf w = Blocked" and wire: "wire (snd (chat_iteration i buf w)) = wire w"
    using turn_outcome [OF inv fit, of buf] blocked by (auto simp: turn_answered_def)
  then obtain req where req: "admitted buf w = Some req" "waits i req w"
    by (auto simp: turn_result_def split: option.splits sum.splits if_splits)
  then have valid: "is_valid req"
    using admittedD by blast
  obtain u where "dispatch i req w = (Blocked, u)" "srv u = srv w"
    using dispatch_waits [OF inv valid req(2)] waits_blocked [OF inv valid req(2)]
    by (cases "dispatch i req w") auto
  then have "chat_iteration i buf w = (Blocked, u)"
    using iteration_Ok(2) admitted_body [OF req(1)] by simp
  with \<open>srv u = srv w\<close> wire show ?thesis by simp
qed

end
