(* ===== verification/Sessions.thy ===== *)
theory Sessions
  imports ChatFacts
begin

text \<open>
  The running server (\<^verbatim>\<open>server_main.cpp\<close>, \<^verbatim>\<open>Server::server_loop\<close>, \<^verbatim>\<open>Server::client_worker\<close>): one
  accepting thread and one thread per client, over the server object they share.  A step of the
  system is what one thread does with one event: a connection accepted, a line delivered by
  \<^verbatim>\<open>rio_readlineb\<close>, or its end of file.  A request that would wait on a table's mutex is not
  enabled: it has changed nothing another thread can see, and it runs from the start once the
  mutex is free.
\<close>

section \<open>The state\<close>

datatype status = Running | Exited int | Terminated | Undefined_behaviour

record session =
  s_conn :: connection
  s_wire :: string
  s_open :: bool

record system =
  sys_srv :: server
  sessions :: "tid \<rightharpoonup> session"
  next_tid :: tid
  err_log :: "string list"
  status :: status

definition live :: "tid \<Rightarrow> system \<Rightarrow> bool" where
  "live i \<sigma> = (case sessions \<sigma> i of None \<Rightarrow> False | Some s \<Rightarrow> s_open s)"

text \<open>What thread \<open>i\<close> sees of the state, and the state after it has run.\<close>

definition world_of :: "tid \<Rightarrow> system \<Rightarrow> world" where
  "world_of i \<sigma> = (case sessions \<sigma> i of
       None \<Rightarrow> world_new (sys_srv \<sigma>) (-1)
     | Some s \<Rightarrow> \<lparr>srv = sys_srv \<sigma>, conn = s_conn s, wire = s_wire s, wire_open = s_open s\<rparr>)"

definition put_world :: "tid \<Rightarrow> world \<Rightarrow> system \<Rightarrow> system" where
  "put_world i w \<sigma> = \<sigma>\<lparr>sys_srv := srv w,
     sessions := (sessions \<sigma>)(i \<mapsto> \<lparr>s_conn = conn w, s_wire = wire w, s_open = wire_open w\<rparr>)\<rparr>"

section \<open>The threads\<close>

definition log_error :: "string \<Rightarrow> system \<Rightarrow> system" where
  "log_error what \<sigma> = \<sigma>\<lparr>err_log := err_log \<sigma> @ [''Error: '' @ what]\<rparr>"

text \<open>\<^verbatim>\<open>delete client\<close> and the end of the \<^verbatim>\<open>unique_ptr\<close>: the connection's destructor.\<close>

definition close_session :: "tid \<Rightarrow> world \<Rightarrow> system \<Rightarrow> system" where
  "close_session i w \<sigma> = (case connection_destroy i w of
       (Ok u, w') \<Rightarrow> put_world i w' \<sigma>
     | (Exn e, w') \<Rightarrow> (put_world i w' \<sigma>)\<lparr>status := Terminated\<rparr>
     | (Blocked, w') \<Rightarrow> put_world i w' \<sigma>
     | (Undef, w') \<Rightarrow> (put_world i w' \<sigma>)\<lparr>status := Undefined_behaviour\<rparr>)"

text \<open>
  One round of \<^verbatim>\<open>server_loop\<close>: \<open>client_fd\<close> is the result of \<^verbatim>\<open>accept\<close> and \<open>created\<close> says whether
  \<^verbatim>\<open>pthread_create\<close> succeeded.  The wrapper \<^verbatim>\<open>Accept\<close> ends the process on an error, through
  \<^verbatim>\<open>unix_error\<close>, whose exit status is 0.
\<close>

definition accept_connection :: "int \<Rightarrow> bool \<Rightarrow> system \<Rightarrow> system" where
  "accept_connection client_fd created \<sigma> =
    (if client_fd < 0 then \<sigma>\<lparr>status := Exited 0\<rparr>
     else
       (let i = next_tid \<sigma>; client = world_new (sys_srv \<sigma>) client_fd;
            \<sigma>' = \<sigma>\<lparr>next_tid := Suc i\<rparr>
        in if created then put_world i client \<sigma>'
           else close_session i client (log_error ''Could not create client thread'' \<sigma>')))"

datatype event = Accepted int bool | Line tid string | Hangup tid

text \<open>One turn of a client's thread.  An exception that leaves it ends the whole process.\<close>

definition client_turn :: "tid \<Rightarrow> string \<Rightarrow> system \<Rightarrow> system option" where
  "client_turn i buf \<sigma> = (case chat_iteration i buf (world_of i \<sigma>) of
       (Ok chat_is_active, w) \<Rightarrow>
          Some (if chat_is_active then put_world i w \<sigma> else close_session i w \<sigma>)
     | (Exn e, w) \<Rightarrow> Some ((put_world i w \<sigma>)\<lparr>status := Terminated\<rparr>)
     | (Undef, w) \<Rightarrow> Some ((put_world i w \<sigma>)\<lparr>status := Undefined_behaviour\<rparr>)
     | (Blocked, w) \<Rightarrow> None)"

fun exec_event :: "event \<Rightarrow> system \<Rightarrow> system option" where
  "exec_event (Accepted client_fd created) \<sigma> =
     (if status \<sigma> = Running then Some (accept_connection client_fd created \<sigma>) else None)"
| "exec_event (Line i buf) \<sigma> =
     (if status \<sigma> = Running \<and> live i \<sigma> then client_turn i buf \<sigma> else None)"
| "exec_event (Hangup i) \<sigma> =
     (if status \<sigma> = Running \<and> live i \<sigma> then Some (close_session i (world_of i \<sigma>) \<sigma>) else None)"

fun run_events :: "event list \<Rightarrow> system \<Rightarrow> system option" where
  "run_events [] \<sigma> = Some \<sigma>"
| "run_events (e # es) \<sigma> = Option.bind (exec_event e \<sigma>) (run_events es)"

text \<open>
  \<^verbatim>\<open>main\<close>: the usage check and \<^verbatim>\<open>listen\<close>, whose exception is the exit status 1; after that
  \<^verbatim>\<open>server_loop\<close> runs for ever.  \<open>fd\<close> is the result of \<^verbatim>\<open>open_listenfd\<close>.
\<close>

definition system_start :: "server \<Rightarrow> system" where
  "system_start s = \<lparr>sys_srv = s, sessions = Map.empty, next_tid = 0, err_log = [], status = Running\<rparr>"

definition server_main :: "nat \<Rightarrow> int \<Rightarrow> system" where
  "server_main argc fd =
    (if argc \<noteq> 2 then (system_start server_new)\<lparr>err_log := [''Usage: ./server <port>''], status := Exited 1\<rparr>
     else (case server_listen fd server_new of
         (Ok u, s) \<Rightarrow> system_start s
       | (r, s) \<Rightarrow> (log_error ''Fatal error starting server'' (system_start s))\<lparr>status := Exited 1\<rparr>))"

section \<open>The step relation\<close>

inductive sys_step :: "system \<Rightarrow> event \<Rightarrow> system \<Rightarrow> bool" where
  accepted: "status \<sigma> = Running \<Longrightarrow>
    sys_step \<sigma> (Accepted client_fd created) (accept_connection client_fd created \<sigma>)"
| turn: "status \<sigma> = Running \<Longrightarrow> live i \<sigma> \<Longrightarrow> chat_iteration i buf (world_of i \<sigma>) = (Ok True, w) \<Longrightarrow>
    sys_step \<sigma> (Line i buf) (put_world i w \<sigma>)"
| last_turn: "status \<sigma> = Running \<Longrightarrow> live i \<sigma> \<Longrightarrow> chat_iteration i buf (world_of i \<sigma>) = (Ok False, w) \<Longrightarrow>
    sys_step \<sigma> (Line i buf) (close_session i w \<sigma>)"
| uncaught: "status \<sigma> = Running \<Longrightarrow> live i \<sigma> \<Longrightarrow> chat_iteration i buf (world_of i \<sigma>) = (Exn e, w) \<Longrightarrow>
    sys_step \<sigma> (Line i buf) ((put_world i w \<sigma>)\<lparr>status := Terminated\<rparr>)"
| undefined_turn: "status \<sigma> = Running \<Longrightarrow> live i \<sigma> \<Longrightarrow> chat_iteration i buf (world_of i \<sigma>) = (Undef, w) \<Longrightarrow>
    sys_step \<sigma> (Line i buf) ((put_world i w \<sigma>)\<lparr>status := Undefined_behaviour\<rparr>)"
| hangup: "status \<sigma> = Running \<Longrightarrow> live i \<sigma> \<Longrightarrow>
    sys_step \<sigma> (Hangup i) (close_session i (world_of i \<sigma>) \<sigma>)"

inductive_cases sys_stepE: "sys_step \<sigma> e \<sigma>'"
inductive_simps accepted_iff: "sys_step \<sigma> (Accepted client_fd created) \<sigma>'"
inductive_simps hangup_iff: "sys_step \<sigma> (Hangup i) \<sigma>'"
inductive_cases lineE: "sys_step \<sigma> (Line i buf) \<sigma>'"

inductive reachable :: "system \<Rightarrow> bool" where
  start: "reachable (server_main argc fd)"
| step: "reachable \<sigma> \<Longrightarrow> sys_step \<sigma> e \<sigma>' \<Longrightarrow> reachable \<sigma>'"

text \<open>The executable transition and the relation are the same.\<close>

lemma exec_step: "exec_event e \<sigma> = Some \<sigma>' \<longleftrightarrow> sys_step \<sigma> e \<sigma>'"
proof (cases e)
  case (Accepted fd created)
  then show ?thesis by (auto simp: accepted_iff)
next
  case (Hangup i)
  then show ?thesis by (auto simp: hangup_iff)
next
  case (Line i buf)
  obtain r w where run: "chat_iteration i buf (world_of i \<sigma>) = (r, w)"
    by (cases "chat_iteration i buf (world_of i \<sigma>)")
  show ?thesis
    unfolding Line using run
    by (cases r) (auto simp: client_turn_def intro: sys_step.intros elim!: lineE)
qed

lemma run_reachable: "reachable \<sigma> \<Longrightarrow> run_events es \<sigma> = Some \<sigma>' \<Longrightarrow> reachable \<sigma>'"
  by (induction es arbitrary: \<sigma>) (auto simp: bind_eq_Some_conv exec_step intro: reachable.step)

section \<open>Further facts\<close>

text \<open>The executable transition function of the server and its step relation are the same.\<close>

lemma execution_is_step_relation:
  "exec_event e \<sigma> = Some \<sigma>' \<longleftrightarrow> sys_step \<sigma> e \<sigma>'"
  by (rule exec_step)

end
