(* ===== verification/Threads.thy ===== *)
theory Threads
  imports Sessions
begin

text \<open>
  The threads of the server step by step.  \<open>Sessions\<close> takes a whole turn of a client's thread as one
  step; here a turn is the sequence of the accesses it makes to what the threads share, with the
  other threads free to run between any two of them: entering and leaving the guard of the table
  map, looking a name up or adding it, \<^verbatim>\<open>trylock\<close>, entering and leaving the guard of a table, each
  use of a table, each table committed, rolled back or unlocked.  What the thread does on its own
  state in between belongs to the step before.  The place a thread has reached is its \<open>pc\<close>.
\<close>

section \<open>The places of a turn\<close>

datatype access = Get_key string | Set_key string string

datatype map_op = Op_create string | Op_find string access

text \<open>
  \<open>Map_*\<close>: the body of \<^verbatim>\<open>create_table\<close> or \<^verbatim>\<open>find_table\<close> under \<^verbatim>\<open>table_lock\<close>.  \<open>Txn_*\<close>: GET and SET inside
  a transaction.  \<open>Guard_*\<close>: GET and SET outside one.  \<open>Raised\<close>: an exception on its way to the catch
  clauses.  \<open>Undo_*\<close>: tables still to be rolled back, for a FAILED response with this text or
  (\<open>None\<close>) for the destructor.
\<close>

datatype pc =
    Ready
  | Map_enter map_op
  | Map_look map_op
  | Map_leave map_op "exn + addr"
  | Txn_lock string addr access
  | Txn_use addr access
  | Guard_enter addr access
  | Guard_use addr access
  | Guard_commit addr access
  | Guard_leave addr "exn option"
  | Reply
  | Commit_table "addr list"
  | Commit_unlock addr "addr list"
  | Raised exn
  | Undo_table "addr list" "string option"
  | Undo_unlock addr "addr list" "string option"
  | Closing
  | Ended

section \<open>The first step of a turn\<close>

text \<open>An exception thrown inside the \<^verbatim>\<open>try\<close> block.\<close>

definition raising :: "(world, pc) prog \<Rightarrow> (world, pc) prog" where
  "raising m = (\<lambda>w. case m w of
       (Ok p, w') \<Rightarrow> (Ok p, w')
     | (Exn e, w') \<Rightarrow> (Ok (Raised e), w')
     | (Blocked, w') \<Rightarrow> (Blocked, w')
     | (Undef, w') \<Rightarrow> (Undef, w'))"

text \<open>The requests that touch nothing shared are done at once, by their handlers.\<close>

definition start_request :: "tid \<Rightarrow> message \<Rightarrow> (world, pc) prog" where
  "start_request i req = (case get_message_type req of
       CREATE \<Rightarrow> bind (of_option (get_table req)) (\<lambda>n. ret (Map_enter (Op_create n)))
     | GET \<Rightarrow> bind (of_option (get_table req)) (\<lambda>n. bind (of_option (get_key req)) (\<lambda>k.
         ret (Map_enter (Op_find n (Get_key k)))))
     | SET \<Rightarrow> bind (gets (\<lambda>w. vs_is_empty (m_stack (conn w)))) (\<lambda>empty.
         if empty then throw (OperationException ''The stack is empty!'')
         else bind (of_option (get_table req)) (\<lambda>n. bind (of_option (get_key req)) (\<lambda>k.
           bind stack_top (\<lambda>v. seq stack_pop (ret (Map_enter (Op_find n (Set_key k v))))))))
     | COMMIT \<Rightarrow> bind (gets (\<lambda>w. m_in_transaction (conn w))) (\<lambda>in_transaction.
         if \<not> in_transaction then throw (OperationException ''Not in a transaction'')
         else bind (gets (\<lambda>w. locked_tables (conn w))) (\<lambda>as. ret (Commit_table as)))
     | _ \<Rightarrow> bind (dispatch i req) (\<lambda>chat_is_active. ret (if chat_is_active then Ready else Closing)))"

definition begin_turn :: "tid \<Rightarrow> string \<Rightarrow> (world, pc) prog" where
  "begin_turn i buf = raising (bind (of_sum (decode (c_str buf))) (\<lambda>req.
     bind (gets (\<lambda>w. m_logged_in (conn w))) (\<lambda>logged_in.
     if get_message_type req \<noteq> LOGIN \<and> get_message_type req \<noteq> BYE \<and> \<not> logged_in
     then throw (OperationException ''User has not logged in'')
     else start_request i req)))"

section \<open>The other steps\<close>

text \<open>\<^verbatim>\<open>pthread_mutex_lock\<close> on a table's mutex, as the constructor of \<^verbatim>\<open>Guard\<close> does.\<close>

definition tab_lock :: "tid \<Rightarrow> addr \<Rightarrow> (server, unit) prog" where
  "tab_lock i a = (\<lambda>s.
     if valid_ptr a s
     then (case lock_table i (table_at a s) of (r, t) \<Rightarrow> (r, put_table a t s))
     else (Undef, s))"

definition map_lock :: "tid \<Rightarrow> (server, unit) prog" where
  "map_lock i = lock_at table_lock (\<lambda>m s. s\<lparr>table_lock := m\<rparr>) i"

definition map_unlock :: "tid \<Rightarrow> (server, unit) prog" where
  "map_unlock i = unlock_at table_lock (\<lambda>m s. s\<lparr>table_lock := m\<rparr>) i"

text \<open>The body under \<^verbatim>\<open>table_lock\<close>; touching the map without that lock is a race.\<close>

definition map_body :: "tid \<Rightarrow> map_op \<Rightarrow> (server, exn + addr) prog" where
  "map_body i op = bind (gets table_lock) (\<lambda>m.
     if m \<noteq> Some i then undef
     else (case op of
         Op_create n \<Rightarrow> bind (gets (\<lambda>s. smap_find n (set_of_table s))) (\<lambda>found.
           if found \<noteq> None then ret (Inl (OperationException ''Table with that name already exists''))
           else bind (new_table n) (\<lambda>a.
             seq (modify (\<lambda>s. s\<lparr>set_of_table := smap_set n a (set_of_table s)\<rparr>)) (ret (Inr a))))
       | Op_find n acc \<Rightarrow> bind (gets (\<lambda>s. smap_find n (set_of_table s))) (\<lambda>found. case found of
           Some a \<Rightarrow> ret (Inr a)
         | None \<Rightarrow> ret (Inl (OperationException ''The table that you want to find is not exist'')))))"

fun use_table :: "tid \<Rightarrow> addr \<Rightarrow> access \<Rightarrow> (world, unit) prog" where
  "use_table i a (Get_key k) = bind (on_srv (tab_get i a k)) stack_push"
| "use_table i a (Set_key k v) = on_srv (tab_set i a k v)"

fun after_use :: "addr \<Rightarrow> access \<Rightarrow> pc" where
  "after_use a (Get_key k) = Guard_leave a None"
| "after_use a (Set_key k v) = Guard_commit a (Set_key k v)"

definition guarded :: "addr \<Rightarrow> (world, pc) prog \<Rightarrow> (world, pc) prog" where
  "guarded a m = (\<lambda>w. case m w of
       (Ok p, w') \<Rightarrow> (Ok p, w')
     | (Exn e, w') \<Rightarrow> (Ok (Guard_leave a (Some e)), w')
     | (Blocked, w') \<Rightarrow> (Blocked, w')
     | (Undef, w') \<Rightarrow> (Undef, w'))"

fun micro :: "tid \<Rightarrow> pc \<Rightarrow> (world, pc) prog" where
  "micro i Ready = block"
| "micro i (Map_enter op) = seq (on_srv (map_lock i)) (ret (Map_look op))"
| "micro i (Map_look op) = bind (on_srv (map_body i op)) (\<lambda>r. ret (Map_leave op r))"
| "micro i (Map_leave op r) = raising (seq (on_srv (map_unlock i)) (bind (of_sum r) (\<lambda>a. case op of
       Op_create n \<Rightarrow> ret Reply
     | Op_find n acc \<Rightarrow> bind (gets (\<lambda>w. m_in_transaction (conn w))) (\<lambda>in_transaction.
         ret (if in_transaction then Txn_lock n a acc else Guard_enter a acc)))))"
| "micro i (Txn_lock n a acc) = raising (seq (txn_acquire i n a) (ret (Txn_use a acc)))"
| "micro i (Txn_use a acc) = raising (seq (use_table i a acc) (ret Reply))"
| "micro i (Guard_enter a acc) = seq (on_srv (tab_lock i a)) (ret (Guard_use a acc))"
| "micro i (Guard_use a acc) = guarded a (seq (use_table i a acc) (ret (after_use a acc)))"
| "micro i (Guard_commit a acc) = seq (on_srv (tab_commit i a)) (ret (Guard_leave a None))"
| "micro i (Guard_leave a e) = raising (seq (on_srv (tab_unlock i a))
     (case e of None \<Rightarrow> ret Reply | Some x \<Rightarrow> throw x))"
| "micro i Reply = raising (seq send_ok (ret Ready))"
| "micro i (Commit_table []) = seq end_transaction (ret Reply)"
| "micro i (Commit_table (a # as)) = seq (on_srv (tab_commit i a)) (ret (Commit_unlock a as))"
| "micro i (Commit_unlock a as) = seq (on_srv (tab_unlock i a)) (ret (Commit_table as))"
| "micro i (Raised (OperationException e)) = seq (send_message (Message FAILED [e])) (ret Ready)"
| "micro i (Raised (FailedTransaction e)) =
     bind (gets (\<lambda>w. locked_tables (conn w))) (\<lambda>as. ret (Undo_table as (Some e)))"
| "micro i (Raised (InvalidMessage e)) = seq (send_message (Message ERROR [e])) (ret Closing)"
| "micro i (Raised (CommException e)) = throw (CommException e)"
| "micro i (Raised (RuntimeError e)) = throw (RuntimeError e)"
| "micro i (Undo_table [] (Some e)) =
     seq end_transaction (seq (send_message (Message FAILED [e])) (ret Ready))"
| "micro i (Undo_table [] None) = seq (modify (\<lambda>w. w\<lparr>wire_open := False\<rparr>)) (ret Ended)"
| "micro i (Undo_table (a # as) u) = seq (on_srv (tab_rollback i a)) (ret (Undo_unlock a as u))"
| "micro i (Undo_unlock a as u) = seq (on_srv (tab_unlock i a)) (ret (Undo_table as u))"
| "micro i Closing = bind (gets (\<lambda>w. m_in_transaction (conn w))) (\<lambda>in_transaction.
     bind (gets (\<lambda>w. locked_tables (conn w))) (\<lambda>as.
     ret (Undo_table (if in_transaction then as else []) None)))"
| "micro i Ended = block"

section \<open>The running server\<close>

record threads =
  th_sys :: system
  th_pc :: "tid \<Rightarrow> pc"

datatype th_event = Th_accept int bool | Th_line tid string | Th_eof tid | Th_run tid

text \<open>Storing what thread \<open>i\<close> has done; an exception that leaves the thread ends the process.\<close>

definition put_thread :: "tid \<Rightarrow> pc res \<times> world \<Rightarrow> threads \<Rightarrow> threads option" where
  "put_thread i p T = (case p of
       (Ok q, w) \<Rightarrow> Some (T\<lparr>th_sys := put_world i w (th_sys T), th_pc := (th_pc T)(i := q)\<rparr>)
     | (Exn e, w) \<Rightarrow> Some (T\<lparr>th_sys := (put_world i w (th_sys T))\<lparr>status := Terminated\<rparr>\<rparr>)
     | (Undef, w) \<Rightarrow> Some (T\<lparr>th_sys := (put_world i w (th_sys T))\<lparr>status := Undefined_behaviour\<rparr>\<rparr>)
     | (Blocked, w) \<Rightarrow> None)"

definition runnable :: "tid \<Rightarrow> threads \<Rightarrow> bool" where
  "runnable i T \<longleftrightarrow> status (th_sys T) = Running \<and> live i (th_sys T)"

fun exec_th :: "th_event \<Rightarrow> threads \<Rightarrow> threads option" where
  "exec_th (Th_accept client_fd created) T =
     (if status (th_sys T) = Running
      then Some (T\<lparr>th_sys := accept_connection client_fd created (th_sys T),
                   th_pc := (th_pc T)(next_tid (th_sys T) := Ready)\<rparr>)
      else None)"
| "exec_th (Th_line i buf) T =
     (if runnable i T \<and> th_pc T i = Ready
      then put_thread i (begin_turn i buf (world_of i (th_sys T))) T else None)"
| "exec_th (Th_eof i) T =
     (if runnable i T \<and> th_pc T i = Ready then Some (T\<lparr>th_pc := (th_pc T)(i := Closing)\<rparr>) else None)"
| "exec_th (Th_run i) T =
     (if runnable i T then put_thread i (micro i (th_pc T i) (world_of i (th_sys T))) T else None)"

fun run_th :: "th_event list \<Rightarrow> threads \<Rightarrow> threads option" where
  "run_th [] T = Some T"
| "run_th (e # es) T = Option.bind (exec_th e T) (run_th es)"

definition th_start :: "system \<Rightarrow> threads" where
  "th_start \<sigma> = \<lparr>th_sys = \<sigma>, th_pc = (\<lambda>i. Ended)\<rparr>"

inductive th_step :: "threads \<Rightarrow> th_event \<Rightarrow> threads \<Rightarrow> bool" where
  accept: "status (th_sys T) = Running \<Longrightarrow>
    th_step T (Th_accept client_fd created)
      (T\<lparr>th_sys := accept_connection client_fd created (th_sys T),
         th_pc := (th_pc T)(next_tid (th_sys T) := Ready)\<rparr>)"
| line: "runnable i T \<Longrightarrow> th_pc T i = Ready \<Longrightarrow>
    put_thread i (begin_turn i buf (world_of i (th_sys T))) T = Some T' \<Longrightarrow> th_step T (Th_line i buf) T'"
| eof: "runnable i T \<Longrightarrow> th_pc T i = Ready \<Longrightarrow>
    th_step T (Th_eof i) (T\<lparr>th_pc := (th_pc T)(i := Closing)\<rparr>)"
| run: "runnable i T \<Longrightarrow> put_thread i (micro i (th_pc T i) (world_of i (th_sys T))) T = Some T' \<Longrightarrow>
    th_step T (Th_run i) T'"

inductive_cases th_stepE: "th_step T e T'"
inductive_simps th_run_iff: "th_step T (Th_run i) T'"
inductive_simps th_line_iff: "th_step T (Th_line i buf) T'"
inductive_simps th_eof_iff: "th_step T (Th_eof i) T'"
inductive_simps th_accept_iff: "th_step T (Th_accept fd created) T'"

lemma exec_th_step: "exec_th e T = Some T' \<longleftrightarrow> th_step T e T'"
  by (cases e) (auto simp: th_run_iff th_line_iff th_eof_iff th_accept_iff)

inductive th_reachable :: "threads \<Rightarrow> bool" where
  start: "th_reachable (th_start (server_main argc fd))"
| step: "th_reachable T \<Longrightarrow> th_step T e T' \<Longrightarrow> th_reachable T'"

lemma run_th_reachable: "th_reachable T \<Longrightarrow> run_th es T = Some T' \<Longrightarrow> th_reachable T'"
  by (induction es arbitrary: T) (auto simp: bind_eq_Some_conv exec_th_step intro: th_reachable.step)

end
