(* ===== verification/Rio.thy ===== *)
theory Rio
  imports KV_Prelude
begin

text \<open>
  The robust I/O package of \<^verbatim>\<open>csapp.c\<close>, over a descriptor whose system calls are scripted: a list of
  what successive calls of \<^verbatim>\<open>read\<close> or \<^verbatim>\<open>write\<close> return.  A call that is offered more bytes than it
  asked for leaves the rest for the next one.  The end of the list is end of file for \<^verbatim>\<open>read\<close> and a
  peer that takes everything for \<^verbatim>\<open>write\<close>.  Sizes are those of the program, below \<open>2 ^ 31\<close>, so the
  source's casts from \<^verbatim>\<open>size_t\<close> to \<^verbatim>\<open>int\<close> are the identity.
\<close>

section \<open>read\<close>

datatype read_event = Data string | Interrupted | Failed

type_synonym input = "read_event list"

text \<open>\<^verbatim>\<open>read(fd, buf, n)\<close>: the result, the bytes stored, whether \<^verbatim>\<open>errno\<close> is \<^verbatim>\<open>EINTR\<close>, the rest of the script.\<close>

fun sys_read :: "nat \<Rightarrow> input \<Rightarrow> int \<times> string \<times> bool \<times> input" where
  "sys_read n [] = (0, [], False, [])"
| "sys_read n (Data s # inp) = (int (length (take n s)), take n s, False,
     if drop n s = [] then inp else Data (drop n s) # inp)"
| "sys_read n (Interrupted # inp) = (-1, [], True, inp)"
| "sys_read n (Failed # inp) = (-1, [], False, inp)"

definition RIO_BUFSIZE :: nat where
  "RIO_BUFSIZE = 8192"

text \<open>\<open>rio_bufptr\<close> is the offset of the next unread byte in \<open>rio_buf\<close>.\<close>

record rio_t =
  rio_fd :: int
  rio_cnt :: int
  rio_bufptr :: nat
  rio_buf :: string

definition rio_readinitb :: "rio_t \<Rightarrow> int \<Rightarrow> rio_t" where
  "rio_readinitb rp fd = rp\<lparr>rio_fd := fd, rio_cnt := 0, rio_bufptr := 0\<rparr>"

text \<open>The bytes of a call of \<^verbatim>\<open>read\<close> overwrite the front of an array.\<close>

definition overwrite :: "string \<Rightarrow> string \<Rightarrow> string" where
  "overwrite bs buf = bs @ drop (length bs) buf"

text \<open>The refill loop: \<open>Some rc\<close> when \<^verbatim>\<open>rio_read\<close> returns early with \<open>rc\<close>.\<close>

function rio_refill :: "rio_t \<Rightarrow> input \<Rightarrow> int option \<times> rio_t \<times> input" where
  "rio_refill rp inp =
    (if rio_cnt rp > 0 then (None, rp, inp)
     else (case sys_read RIO_BUFSIZE inp of (rc, bs, eintr, inp') \<Rightarrow>
       (let rp' = rp\<lparr>rio_cnt := rc, rio_buf := overwrite bs (rio_buf rp)\<rparr> in
        if rc < 0 then (if \<not> eintr then (Some (-1), rp', inp') else rio_refill rp' inp')
        else if rc = 0 then (Some 0, rp', inp')
        else (None, rp'\<lparr>rio_bufptr := 0\<rparr>, inp'))))"
  by pat_completeness auto
termination
proof (relation "measure (\<lambda>(rp, inp). length inp)", goal_cases)
  case (2 rp inp)
  then show ?case by (cases "(RIO_BUFSIZE, inp)" rule: sys_read.cases) auto
qed simp

declare rio_refill.simps [simp del]

definition rio_read :: "rio_t \<Rightarrow> nat \<Rightarrow> input \<Rightarrow> int \<times> string \<times> rio_t \<times> input" where
  "rio_read rp n inp = (case rio_refill rp inp of
       (Some rc, rp', inp') \<Rightarrow> (rc, [], rp', inp')
     | (None, rp', inp') \<Rightarrow>
         (let cnt = (if rio_cnt rp' < int n then rio_cnt rp' else int n)
          in (cnt, take (nat cnt) (drop (rio_bufptr rp') (rio_buf rp')),
              rp'\<lparr>rio_bufptr := rio_bufptr rp' + nat cnt, rio_cnt := rio_cnt rp' - cnt\<rparr>, inp')))"

text \<open>
  \<^verbatim>\<open>rio_readlineb\<close>: \<open>k\<close> more bytes may be stored and \<open>acc\<close> is what is stored already.  The result is
  the return value, the caller's buffer, and the state of the reader.
\<close>

definition terminate_line :: "string \<Rightarrow> string \<Rightarrow> string" where
  "terminate_line acc usrbuf = overwrite (acc @ [nul]) usrbuf"

fun readlineb_loop :: "nat \<Rightarrow> string \<Rightarrow> string \<Rightarrow> rio_t \<Rightarrow> input \<Rightarrow> int \<times> string \<times> rio_t \<times> input" where
  "readlineb_loop 0 acc usrbuf rp inp = (int (length acc), terminate_line acc usrbuf, rp, inp)"
| "readlineb_loop (Suc k) acc usrbuf rp inp = (case rio_read rp 1 inp of (rc, bs, rp', inp') \<Rightarrow>
     if rc = 1 then
       (if bs = [newline] then (int (length (acc @ bs)), terminate_line (acc @ bs) usrbuf, rp', inp')
        else readlineb_loop k (acc @ bs) usrbuf rp' inp')
     else if rc = 0 then
       (if acc = [] then (0, usrbuf, rp', inp')
        else (int (length acc), terminate_line acc usrbuf, rp', inp'))
     else (-1, overwrite acc usrbuf, rp', inp'))"

definition rio_readlineb :: "rio_t \<Rightarrow> string \<Rightarrow> nat \<Rightarrow> input \<Rightarrow> int \<times> string \<times> rio_t \<times> input" where
  "rio_readlineb rp usrbuf maxlen inp = readlineb_loop (maxlen - 1) [] usrbuf rp inp"

section \<open>The buffered reader as a stream\<close>

text \<open>The bytes not yet taken from the internal buffer, and what the script still delivers before its end.\<close>

definition unread :: "rio_t \<Rightarrow> string" where
  "unread rp = take (nat (rio_cnt rp)) (drop (rio_bufptr rp) (rio_buf rp))"

fun incoming :: "input \<Rightarrow> string" where
  "incoming [] = []"
| "incoming (Data s # inp) = (if s = [] then [] else s @ incoming inp)"
| "incoming (Interrupted # inp) = incoming inp"
| "incoming (Failed # inp) = []"

fun ends_failed :: "input \<Rightarrow> bool" where
  "ends_failed [] = False"
| "ends_failed (Data s # inp) = (s \<noteq> [] \<and> ends_failed inp)"
| "ends_failed (Interrupted # inp) = ends_failed inp"
| "ends_failed (Failed # inp) = True"

definition rio_wf :: "rio_t \<Rightarrow> bool" where
  "rio_wf rp \<longleftrightarrow> rio_bufptr rp + nat (rio_cnt rp) \<le> length (rio_buf rp)"

definition stream :: "rio_t \<Rightarrow> input \<Rightarrow> string" where
  "stream rp inp = unread rp @ incoming inp"

lemma length_unread: "rio_wf rp \<Longrightarrow> length (unread rp) = nat (rio_cnt rp)"
  by (simp add: unread_def rio_wf_def)

lemma readinitb_wf [simp]: "rio_wf (rio_readinitb rp fd)" "unread (rio_readinitb rp fd) = []"
  by (simp_all add: rio_wf_def rio_readinitb_def unread_def)

lemma refill_buffered: "rio_cnt rp > 0 \<Longrightarrow> rio_refill rp inp = (None, rp, inp)"
  by (simp add: rio_refill.simps)

lemma refill_empty:
  assumes "\<not> rio_cnt rp > 0"
  shows "rio_refill rp [] = (Some 0, rp\<lparr>rio_cnt := 0\<rparr>, [])"
    and "rio_refill rp (Failed # inp) = (Some (-1), rp\<lparr>rio_cnt := -1\<rparr>, inp)"
    and "rio_refill rp (Interrupted # inp) = rio_refill (rp\<lparr>rio_cnt := -1\<rparr>) inp"
    and "rio_refill rp (Data [] # inp) = (Some 0, rp\<lparr>rio_cnt := 0\<rparr>, inp)"
    and "s \<noteq> [] \<Longrightarrow> rio_refill rp (Data s # inp) = (None,
      rp\<lparr>rio_cnt := int (length (take RIO_BUFSIZE s)), rio_buf := overwrite (take RIO_BUFSIZE s) (rio_buf rp),
         rio_bufptr := 0\<rparr>,
      if drop RIO_BUFSIZE s = [] then inp else Data (drop RIO_BUFSIZE s) # inp)"
  using assms
  by (subst rio_refill.simps; simp add: Let_def overwrite_def RIO_BUFSIZE_def; fail)+

text \<open>A refill that succeeds leaves the stream as it was, with at least one byte buffered.\<close>

definition refilled :: "rio_t \<Rightarrow> input \<Rightarrow> int option \<times> rio_t \<times> input \<Rightarrow> bool" where
  "refilled rp inp out = (case out of (res, rp', inp') \<Rightarrow>
     (if stream rp inp = [] then res = Some (if ends_failed inp then -1 else 0)
      else res = None \<and> rio_wf rp' \<and> rio_cnt rp' > 0 \<and> stream rp' inp' = stream rp inp
        \<and> ends_failed inp' = ends_failed inp))"

lemma rio_refill_spec: "rio_wf rp \<Longrightarrow> refilled rp inp (rio_refill rp inp)"
proof (cases "rio_cnt rp > 0")
  case True
  moreover assume "rio_wf rp"
  ultimately have "unread rp \<noteq> []"
    using length_unread [of rp] by auto
  with True \<open>rio_wf rp\<close> show ?thesis
    by (simp add: refill_buffered refilled_def stream_def)
next
  case False
  assume "rio_wf rp"
  then show ?thesis
    using False
  proof (induction inp arbitrary: rp)
    case Nil
    then show ?case
      by (simp add: refill_empty refilled_def stream_def unread_def)
  next
    case (Cons ev inp)
    have empty: "unread rp = []"
      using Cons.prems by (simp add: unread_def)
    show ?case
    proof (cases ev)
      case (Data s)
      show ?thesis
      proof (cases "s = []")
        case False
        have "take RIO_BUFSIZE s @ drop RIO_BUFSIZE s = s"
          by simp
        with False Data empty Cons.prems show ?thesis
          by (auto simp: refill_empty refilled_def stream_def rio_wf_def unread_def overwrite_def
              RIO_BUFSIZE_def min_def)
      qed (use Data empty Cons.prems in \<open>simp add: refill_empty refilled_def stream_def\<close>)
    next
      case Interrupted
      let ?rp = "rp\<lparr>rio_cnt := -1\<rparr>"
      have "stream rp (ev # inp) = stream ?rp inp"
        using Interrupted empty by (simp add: stream_def unread_def)
      then have "refilled rp (ev # inp) out = refilled ?rp inp out" for out
        using Interrupted by (simp add: refilled_def)
      moreover have "refilled ?rp inp (rio_refill ?rp inp)"
        using Cons.prems by (intro Cons.IH) (simp_all add: rio_wf_def)
      ultimately show ?thesis
        using Interrupted Cons.prems by (simp add: refill_empty)
    qed (use empty Cons.prems in \<open>simp add: refill_empty refilled_def stream_def\<close>)
  qed
qed

text \<open>One byte: the head of the stream, or how the stream ends.\<close>

lemma rio_read_one:
  assumes wf: "rio_wf rp"
  shows "stream rp inp = [] \<Longrightarrow>
      \<exists>rp' inp'. rio_read rp 1 inp = (if ends_failed inp then -1 else 0, [], rp', inp')"
    and "stream rp inp = c # s \<Longrightarrow>
      \<exists>rp' inp'. rio_read rp 1 inp = (1, [c], rp', inp') \<and> rio_wf rp' \<and> stream rp' inp' = s
        \<and> ends_failed inp' = ends_failed inp"
proof -
  obtain res rp1 inp1 where r: "rio_refill rp inp = (res, rp1, inp1)"
    by (cases "rio_refill rp inp")
  note spec = rio_refill_spec [OF wf, of inp, unfolded r refilled_def]
  show "\<exists>rp' inp'. rio_read rp 1 inp = (if ends_failed inp then -1 else 0, [], rp', inp')"
    if "stream rp inp = []"
    using that spec r by (simp add: rio_read_def)
  show "\<exists>rp' inp'. rio_read rp 1 inp = (1, [c], rp', inp') \<and> rio_wf rp' \<and> stream rp' inp' = s
        \<and> ends_failed inp' = ends_failed inp" if "stream rp inp = c # s"
  proof -
    have ok: "res = None" "rio_wf rp1" "rio_cnt rp1 > 0" "stream rp1 inp1 = c # s"
      "ends_failed inp1 = ends_failed inp"
      using spec that by auto
    have "unread rp1 \<noteq> []"
      using length_unread [OF ok(2)] ok(3) by auto
    then obtain us where us: "unread rp1 = c # us"
      using ok(4) by (cases "unread rp1") (auto simp: stream_def)
    then obtain ds where ds: "drop (rio_bufptr rp1) (rio_buf rp1) = c # ds"
      by (cases "drop (rio_bufptr rp1) (rio_buf rp1)") (auto simp: unread_def take_Cons split: nat.splits)
    let ?rp = "rp1\<lparr>rio_bufptr := Suc (rio_bufptr rp1), rio_cnt := rio_cnt rp1 - 1\<rparr>"
    have "nat (rio_cnt rp1) = Suc (nat (rio_cnt rp1 - 1))"
      using ok(3) by simp
    then have "unread ?rp = us" "rio_wf ?rp"
      using us ds ok(2) drop_Suc [of "rio_bufptr rp1" "rio_buf rp1"]
      by (auto simp: unread_def rio_wf_def tl_drop [symmetric])
    moreover have "rio_read rp 1 inp = (1, [c], ?rp, inp1)"
      using r ok(1,3) ds by (simp add: rio_read_def Let_def take_Suc)
    ultimately show ?thesis
      using us ok(4,5) by (auto simp: stream_def)
  qed
qed

section \<open>Reading a line\<close>

text \<open>The line a stream begins with: up to and with its first newline, and \<open>k\<close> bytes at most.\<close>

fun next_line :: "nat \<Rightarrow> string \<Rightarrow> string" where
  "next_line 0 s = []"
| "next_line (Suc k) [] = []"
| "next_line (Suc k) (c # s) = (if c = newline then [c] else c # next_line k s)"

definition line_complete :: "nat \<Rightarrow> string \<Rightarrow> bool" where
  "line_complete k l \<longleftrightarrow> k \<le> length l \<or> newline \<in> set l"

lemma readlineb_loop_spec:
  assumes "rio_wf rp"
  shows "line_complete k (next_line k (stream rp inp)) \<Longrightarrow>
      \<exists>rp' inp'. readlineb_loop k acc usrbuf rp inp =
        (int (length (acc @ next_line k (stream rp inp))),
         terminate_line (acc @ next_line k (stream rp inp)) usrbuf, rp', inp')
        \<and> rio_wf rp' \<and> stream rp inp = next_line k (stream rp inp) @ stream rp' inp'
        \<and> ends_failed inp' = ends_failed inp"
    and "\<not> line_complete k (next_line k (stream rp inp)) \<Longrightarrow>
      \<exists>rp' inp'. readlineb_loop k acc usrbuf rp inp =
        (if ends_failed inp then -1 else int (length (acc @ stream rp inp)),
         if ends_failed inp then overwrite (acc @ stream rp inp) usrbuf
         else if acc @ stream rp inp = [] then usrbuf
         else terminate_line (acc @ stream rp inp) usrbuf, rp', inp')"
  using assms
proof (induction k arbitrary: acc rp inp)
  case 0
  {
    case 1
    then show ?case by simp
  next
    case 2
    then show ?case by (simp add: line_complete_def)
  }
next
  case (Suc k)
  {
    case 1
    show ?case
    proof (cases "stream rp inp")
      case Nil
      with 1 show ?thesis by (simp add: line_complete_def)
    next
      case (Cons c s)
      then obtain rp' inp' where one: "rio_read rp 1 inp = (1, [c], rp', inp')" "rio_wf rp'"
        "stream rp' inp' = s" "ends_failed inp' = ends_failed inp"
        using rio_read_one(2) [OF 1(2) Cons] by blast
      show ?thesis
      proof (cases "c = newline")
        case True
        with Cons one show ?thesis by simp
      next
        case False
        with Cons 1 one Suc.IH(1) [of rp' inp' "acc @ [c]"] show ?thesis
          by (auto simp: line_complete_def)
      qed
    qed
  next
    case 2
    show ?case
    proof (cases "stream rp inp")
      case Nil
      then obtain rp' inp' where
        "rio_read rp 1 inp = (if ends_failed inp then -1 else 0, [], rp', inp')"
        using rio_read_one(1) [OF 2(2)] by blast
      with Nil show ?thesis by simp
    next
      case (Cons c s)
      then obtain rp' inp' where one: "rio_read rp 1 inp = (1, [c], rp', inp')" "rio_wf rp'"
        "stream rp' inp' = s" "ends_failed inp' = ends_failed inp"
        using rio_read_one(2) [OF 2(2) Cons] by blast
      have "c \<noteq> newline"
        using 2(1) Cons by (auto simp: line_complete_def)
      with Cons 2 one Suc.IH(2) [of rp' inp' "acc @ [c]"] show ?thesis
        by (auto simp: line_complete_def)
    qed
  }
qed

text \<open>
  A script without errors and without a premature end of file: once the stream is at its end it
  stays there, and a call delivers nothing and leaves the caller's buffer alone.
\<close>

definition plain :: "input \<Rightarrow> bool" where
  "plain inp \<longleftrightarrow> Failed \<notin> set inp \<and> Data [] \<notin> set inp"

lemma plain_ends: "plain inp \<Longrightarrow> \<not> ends_failed inp"
  by (induction inp rule: ends_failed.induct) (auto simp: plain_def)

lemma refill_plain:
  assumes "plain inp" "rio_wf rp" "rio_refill rp inp = (res, rp', inp')"
  shows "plain inp' \<and> (res \<noteq> None \<longrightarrow> rio_wf rp' \<and> stream rp' inp' = [])"
proof (cases "rio_cnt rp > 0")
  case True
  with assms show ?thesis by (simp add: refill_buffered)
next
  case False
  then show ?thesis
    using assms
  proof (induction inp arbitrary: rp)
    case Nil
    then show ?case
      by (auto simp: refill_empty plain_def stream_def unread_def rio_wf_def)
  next
    case (Cons ev inp)
    show ?case
    proof (cases ev)
      case (Data s)
      with Cons.prems show ?thesis
        by (auto simp: refill_empty plain_def split: if_splits)
    next
      case Interrupted
      with Cons.prems Cons.IH [of "rp\<lparr>rio_cnt := -1\<rparr>"] show ?thesis
        by (simp add: refill_empty plain_def rio_wf_def)
    qed (use Cons.prems in \<open>simp add: plain_def\<close>)
  qed
qed

lemma read_plain: "plain inp \<Longrightarrow> rio_wf rp \<Longrightarrow> rio_read rp n inp = (rc, bs, rp', inp') \<Longrightarrow> plain inp'"
  using refill_plain [of inp rp] by (auto simp: rio_read_def Let_def split: prod.splits option.splits)

lemma readlineb_plain:
  "plain inp \<Longrightarrow> rio_wf rp \<Longrightarrow> readlineb_loop k acc buf rp inp = (rc, buf', rp', inp') \<Longrightarrow> plain inp'"
proof (induction k arbitrary: acc rp inp)
  case (Suc k)
  obtain rc1 bs rp1 inp1 where one: "rio_read rp 1 inp = (rc1, bs, rp1, inp1)"
    by (cases "rio_read rp 1 inp")
  have "plain inp1"
    using read_plain [OF Suc.prems(1,2) one] .
  moreover have "rio_wf rp1" if "rc1 = 1"
    using that one rio_read_one [OF Suc.prems(2), of inp] by (cases "stream rp inp") (auto split: if_splits)
  ultimately show ?case
    using Suc one by (auto split: if_splits)
qed auto

lemma readlineb_at_end:
  assumes "plain inp" "rio_wf rp" "stream rp inp = []" "1 < maxlen"
  shows "\<exists>rp' inp'. rio_readlineb rp buf maxlen inp = (0, buf, rp', inp')
    \<and> plain inp' \<and> rio_wf rp' \<and> stream rp' inp' = []"
proof -
  obtain res rp1 inp1 where r: "rio_refill rp inp = (res, rp1, inp1)"
    by (cases "rio_refill rp inp")
  have "res = Some 0"
    using rio_refill_spec [OF assms(2), of inp, unfolded r refilled_def] assms(3) plain_ends [OF assms(1)]
    by simp
  moreover obtain k where "maxlen - 1 = Suc k"
    using assms(4) by (cases "maxlen - 1") auto
  ultimately show ?thesis
    using r refill_plain [OF assms(1,2) r] by (simp add: rio_readlineb_def rio_read_def)
qed

section \<open>Reading a block\<close>

text \<open>\<^verbatim>\<open>rio_readnb\<close>: the return value, the bytes stored at the caller's buffer, the state of the reader.\<close>

function readnb_loop :: "nat \<Rightarrow> string \<Rightarrow> rio_t \<Rightarrow> input \<Rightarrow> int \<times> string \<times> rio_t \<times> input" where
  "readnb_loop nleft acc rp inp =
    (if nleft = 0 then (int (length acc), acc, rp, inp)
     else (case rio_read rp nleft inp of (nread, bs, rp', inp') \<Rightarrow>
       if nread < 0 then (-1, acc, rp', inp')
       else if nread = 0 then (int (length acc), acc, rp', inp')
       else readnb_loop (nleft - nat nread) (acc @ bs) rp' inp'))"
  by pat_completeness auto
termination
  by (relation "measure (\<lambda>(nleft, _, _, _). nleft)") auto

declare readnb_loop.simps [simp del]

definition rio_readnb :: "rio_t \<Rightarrow> nat \<Rightarrow> input \<Rightarrow> int \<times> string \<times> rio_t \<times> input" where
  "rio_readnb rp n inp = readnb_loop n [] rp inp"

text \<open>A read from the buffer takes a prefix of the stream, of at most the size asked for.\<close>

lemma rio_read_some:
  assumes wf: "rio_wf rp" and "0 < n" "stream rp inp \<noteq> []"
  shows "\<exists>bs rp' inp'. rio_read rp n inp = (int (length bs), bs, rp', inp') \<and> bs \<noteq> [] \<and> length bs \<le> n
    \<and> rio_wf rp' \<and> stream rp inp = bs @ stream rp' inp' \<and> ends_failed inp' = ends_failed inp"
proof -
  obtain res rp1 inp1 where r: "rio_refill rp inp = (res, rp1, inp1)"
    by (cases "rio_refill rp inp")
  have ok: "res = None" "rio_wf rp1" "rio_cnt rp1 > 0" "stream rp1 inp1 = stream rp inp"
      "ends_failed inp1 = ends_failed inp"
    using rio_refill_spec [OF wf, of inp, unfolded r refilled_def] assms(3) by auto
  let ?k = "min n (nat (rio_cnt rp1))"
  let ?bs = "take ?k (drop (rio_bufptr rp1) (rio_buf rp1))"
  let ?rp = "rp1\<lparr>rio_bufptr := rio_bufptr rp1 + ?k, rio_cnt := rio_cnt rp1 - int ?k\<rparr>"
  have len: "length ?bs = ?k"
    using ok(2) by (auto simp: rio_wf_def)
  have "unread rp1 = ?bs @ unread ?rp"
    using take_add [of ?k "nat (rio_cnt rp1) - ?k" "drop (rio_bufptr rp1) (rio_buf rp1)"] ok(3)
    by (simp add: unread_def nat_diff_distrib add.commute min_def split: if_splits)
  moreover have "rio_read rp n inp = (int ?k, ?bs, ?rp, inp1)"
    using r ok(1,3) by (auto simp: rio_read_def Let_def min_def)
  moreover have "rio_wf ?rp"
    using ok(2,3) by (auto simp: rio_wf_def min_def)
  moreover have "?bs \<noteq> []"
    using len assms(2) ok(3) by (auto simp del: length_take simp flip: length_greater_0_conv)
  ultimately show ?thesis
    using ok(4,5) len by (intro exI [of _ ?bs] exI [of _ ?rp] exI [of _ inp1]) (auto simp: stream_def)
qed

lemma rio_read_end:
  assumes "rio_wf rp" "stream rp inp = []"
  shows "\<exists>rp' inp'. rio_read rp n inp = (if ends_failed inp then -1 else 0, [], rp', inp')"
  using rio_refill_spec [OF assms(1), of inp] assms(2)
  by (cases "rio_refill rp inp") (simp add: refilled_def rio_read_def)

lemma readnb_loop_spec:
  assumes "rio_wf rp"
  shows "\<exists>rp' inp'. readnb_loop n acc rp inp =
    (if length (stream rp inp) < n \<and> ends_failed inp then -1 else int (length (acc @ take n (stream rp inp))),
     acc @ take n (stream rp inp), rp', inp')"
  using assms
proof (induction n arbitrary: acc rp inp rule: less_induct)
  case (less n)
  show ?case
  proof (cases "n = 0")
    case True
    then show ?thesis by (simp add: readnb_loop.simps)
  next
    case n: False
    show ?thesis
    proof (cases "stream rp inp = []")
      case True
      then show ?thesis
        using rio_read_end [OF less.prems True, of n] n by (auto simp: readnb_loop.simps [of n])
    next
      case False
      then obtain bs rp1 inp1 where rd: "rio_read rp n inp = (int (length bs), bs, rp1, inp1)"
        "bs \<noteq> []" "length bs \<le> n" "rio_wf rp1" "stream rp inp = bs @ stream rp1 inp1"
        "ends_failed inp1 = ends_failed inp"
        using rio_read_some [OF less.prems, of n inp] n by auto
      have "readnb_loop n acc rp inp = readnb_loop (n - length bs) (acc @ bs) rp1 inp1"
        using rd(1,2) n by (simp add: readnb_loop.simps [of n])
      moreover have "n - length bs < n"
        using rd(2) n by simp
      moreover have "length (stream rp1 inp1) < n - length bs \<longleftrightarrow> length (stream rp inp) < n"
        using rd(3,5) by auto
      ultimately show ?thesis
        using less.IH [of "n - length bs" rp1 "acc @ bs" inp1] rd(3-6) by auto
    qed
  qed
qed

text \<open>\<^verbatim>\<open>rio_readn\<close>: the same without the buffer, straight from the descriptor.\<close>

function readn_loop :: "nat \<Rightarrow> string \<Rightarrow> input \<Rightarrow> int \<times> string \<times> input" where
  "readn_loop nleft acc inp =
    (if nleft = 0 then (int (length acc), acc, inp)
     else (case sys_read nleft inp of (nread, bs, eintr, inp') \<Rightarrow>
       if nread < 0 then (if eintr then readn_loop nleft acc inp' else (-1, acc, inp'))
       else if nread = 0 then (int (length acc), acc, inp')
       else readn_loop (nleft - nat nread) (acc @ bs) inp'))"
  by pat_completeness auto
termination
proof (relation "measures [\<lambda>(nleft, _, _). nleft, \<lambda>(_, _, inp). length inp]", goal_cases)
  case (2 nleft acc inp)
  then show ?case by (cases "(nleft, inp)" rule: sys_read.cases) auto
qed auto

declare readn_loop.simps [simp del]

definition rio_readn :: "nat \<Rightarrow> input \<Rightarrow> int \<times> string \<times> input" where
  "rio_readn n inp = readn_loop n [] inp"

lemma readn_loop_spec:
  "\<exists>inp'. readn_loop n acc inp =
    (if length (incoming inp) < n \<and> ends_failed inp then -1 else int (length (acc @ take n (incoming inp))),
     acc @ take n (incoming inp), inp')"
proof (induction "n + length inp" arbitrary: n acc inp rule: less_induct)
  case less
  show ?case
  proof (cases "n = 0")
    case n: False
    show ?thesis
    proof (cases inp)
      case (Cons ev rest)
      show ?thesis
      proof (cases ev)
        case (Data s)
        let ?rest = "if drop n s = [] then rest else Data (drop n s) # rest"
        show ?thesis
        proof (cases "s = []")
          case False
          then have "length (take n s) > 0"
            using n by simp
          then have "n - length (take n s) + length ?rest < n + length inp"
            using Cons Data n by auto
          from less [OF this, of "acc @ take n s"]
          obtain inp' where "readn_loop (n - length (take n s)) (acc @ take n s) ?rest =
              (if length (incoming ?rest) < n - length (take n s) \<and> ends_failed ?rest then -1
               else int (length ((acc @ take n s) @ take (n - length (take n s)) (incoming ?rest))),
               (acc @ take n s) @ take (n - length (take n s)) (incoming ?rest), inp')"
            by blast
          moreover have "readn_loop n acc inp = readn_loop (n - length (take n s)) (acc @ take n s) ?rest"
            using Cons Data False n by (simp add: readn_loop.simps [of n])
          ultimately show ?thesis
            using Cons Data False by (cases "n < length s") auto
        qed (use Cons Data n in \<open>simp add: readn_loop.simps [of n]\<close>)
      next
        case Interrupted
        then have "readn_loop n acc inp = readn_loop n acc rest"
          using Cons n by (simp add: readn_loop.simps [of n acc "Interrupted # rest"])
        with Interrupted less [of n rest acc] Cons show ?thesis by auto
      qed (use Cons n in \<open>simp add: readn_loop.simps [of n]\<close>)
    qed (use n in \<open>simp add: readn_loop.simps [of n]\<close>)
  qed (simp add: readn_loop.simps)
qed

section \<open>Writing\<close>

text \<open>
  What successive calls of \<^verbatim>\<open>write\<close> do: take up to so many bytes, or fail, with \<^verbatim>\<open>errno\<close> equal to
  \<^verbatim>\<open>EINTR\<close> or not.  A call that takes nothing leaves \<^verbatim>\<open>errno\<close> as something else.  \<open>Broken_pipe\<close> is the
  failure \<^verbatim>\<open>EPIPE\<close> of a call on a socket whose peer has gone; what the signal that comes with it does
  to the process is left to the callers.
\<close>

datatype write_event = Takes nat | Write_fails bool | Broken_pipe

fun sys_write :: "nat \<Rightarrow> write_event list \<Rightarrow> int \<times> bool \<times> write_event list" where
  "sys_write n [] = (int n, False, [])"
| "sys_write n (Takes k # evs) = (int (min n k), False, evs)"
| "sys_write n (Write_fails eintr # evs) = (-1, eintr, evs)"
| "sys_write n (Broken_pipe # evs) = (-1, False, evs)"

text \<open>The loop says whether everything went out, which bytes did, and the rest of the script.\<close>

function writen_loop :: "string \<Rightarrow> write_event list \<Rightarrow> bool \<times> string \<times> write_event list" where
  "writen_loop bufp evs =
    (if bufp = [] then (True, [], evs)
     else (case sys_write (length bufp) evs of (nwritten, eintr, evs') \<Rightarrow>
       if nwritten \<le> 0 then (if eintr then writen_loop bufp evs' else (False, [], evs'))
       else (case writen_loop (drop (nat nwritten) bufp) evs' of
           (ok, sent, evs'') \<Rightarrow> (ok, take (nat nwritten) bufp @ sent, evs''))))"
  by pat_completeness auto
termination
proof (relation "measure (\<lambda>(bufp, evs). length bufp + length evs)", goal_cases)
  case (2 bufp evs)
  then show ?case by (cases "(length bufp, evs)" rule: sys_write.cases) auto
next
  case (3 bufp evs)
  then show ?case by (cases "(length bufp, evs)" rule: sys_write.cases) (auto split: if_splits)
qed simp

declare writen_loop.simps [simp del]

definition rio_writen :: "string \<Rightarrow> write_event list \<Rightarrow> int \<times> string \<times> write_event list" where
  "rio_writen usrbuf evs = (case writen_loop usrbuf evs of (ok, sent, evs') \<Rightarrow>
     (if ok then int (length usrbuf) else -1, sent, evs'))"

text \<open>The peer gets a prefix of the buffer, and all of it when the call reports success.\<close>

lemma writen_loop_prefix:
  "writen_loop bufp evs = (ok, sent, evs') \<Longrightarrow> (\<exists>rest. bufp = sent @ rest) \<and> (ok \<longrightarrow> sent = bufp)"
proof (induction bufp evs arbitrary: ok sent evs' rule: writen_loop.induct)
  case (1 bufp evs)
  obtain nw eintr evs1 where wr: "sys_write (length bufp) evs = (nw, eintr, evs1)"
    by (cases "sys_write (length bufp) evs")
  show ?case
  proof (cases "bufp = [] \<or> nw \<le> 0")
    case True
    then show ?thesis
      using 1 wr by (auto simp: writen_loop.simps [of bufp evs] split: if_splits)
  next
    case False
    obtain ok1 sent1 evs2 where lp: "writen_loop (drop (nat nw) bufp) evs1 = (ok1, sent1, evs2)"
      by (cases "writen_loop (drop (nat nw) bufp) evs1")
    have "(\<exists>rest. drop (nat nw) bufp = sent1 @ rest) \<and> (ok1 \<longrightarrow> sent1 = drop (nat nw) bufp)"
      using "1.IH"(2) [OF _ wr [symmetric] refl _ lp] False by simp
    moreover have "ok = ok1" "sent = take (nat nw) bufp @ sent1"
      using "1.prems" False wr lp by (auto simp: writen_loop.simps [of bufp evs])
    ultimately show ?thesis
      by (metis append.assoc append_take_drop_id)
  qed
qed

lemma writen_loop_ok:
  "\<forall>e \<in> set evs. e \<notin> {Write_fails False, Takes 0, Broken_pipe} \<Longrightarrow> fst (writen_loop bufp evs)"
proof (induction bufp evs rule: writen_loop.induct)
  case (1 bufp evs)
  show ?case
  proof (cases "bufp = []")
    case False
    with 1 show ?thesis
      by (cases "(length bufp, evs)" rule: sys_write.cases)
         (auto simp: writen_loop.simps [of bufp] split_beta)
  qed (simp add: writen_loop.simps)
qed

section \<open>Further facts\<close>

text \<open>rio_readnb delivers exactly the next n bytes of the stream, or all that is left when there are
  fewer, however they arrive; it returns their number, or -1 when the stream ends with an error
  before n bytes.\<close>

lemma readnb_reads_block:
  assumes "rio_wf rp" "rio_readnb rp n inp = (rc, bs, rp', inp')"
  shows "bs = take n (stream rp inp)
    \<and> rc = (if length (stream rp inp) < n \<and> ends_failed inp then -1 else int (length bs))"
  using readnb_loop_spec [OF assms(1), of n "[]" inp] assms(2) by (auto simp: rio_readnb_def)

lemma readnb_reads_block_witness:
  "rio_wf \<lparr>rio_fd = 4, rio_cnt = 1, rio_bufptr = 0, rio_buf = ''a''\<rparr> \<and>
   fst (snd (rio_readnb \<lparr>rio_fd = 4, rio_cnt = 1, rio_bufptr = 0, rio_buf = ''a''\<rparr> 3 [Data ''b'', Data ''cd''])) = ''abc''"
proof -
  let ?rp = "\<lparr>rio_fd = 4, rio_cnt = 1, rio_bufptr = 0, rio_buf = ''a''\<rparr>"
  obtain rc bs rp' inp' where r: "rio_readnb ?rp 3 [Data ''b'', Data ''cd''] = (rc, bs, rp', inp')"
    by (cases "rio_readnb ?rp 3 [Data ''b'', Data ''cd'']")
  have "rio_wf ?rp"
    by (simp add: rio_wf_def)
  with readnb_reads_block [OF this r] r show ?thesis
    by (simp add: stream_def unread_def)
qed

text \<open>rio_readn delivers exactly the next n bytes that arrive on the descriptor, or all there are
  when there are fewer, retrying interrupted reads; it returns their number, or -1 on an error
  before n bytes.\<close>

lemma readn_reads_block:
  assumes "rio_readn n inp = (rc, bs, inp')"
  shows "bs = take n (incoming inp)
    \<and> rc = (if length (incoming inp) < n \<and> ends_failed inp then -1 else int (length bs))"
  using readn_loop_spec [of n "[]" inp] assms by (auto simp: rio_readn_def)

lemma readn_reads_block_witness:
  "fst (snd (rio_readn 4 [Data ''ab'', Interrupted, Data ''cde''])) = ''abcd''"
proof -
  obtain rc bs inp' where r: "rio_readn 4 [Data ''ab'', Interrupted, Data ''cde''] = (rc, bs, inp')"
    by (cases "rio_readn 4 [Data ''ab'', Interrupted, Data ''cde'']")
  from readn_reads_block [OF r] r show ?thesis by simp
qed

text \<open>rio_writen sends a prefix of its buffer, all of it when it returns the size, and -1 is its only
  other result; when no write fails other than by interruption, everything is sent however little
  each write takes.\<close>

lemma writen_sends_prefix:
  assumes "rio_writen s evs = (rc, sent, evs')"
  shows "(\<exists>rest. s = sent @ rest) \<and> (rc = -1 \<or> (rc = int (length s) \<and> sent = s))
    \<and> ((\<forall>e \<in> set evs. e \<notin> {Write_fails False, Takes 0, Broken_pipe}) \<longrightarrow> rc = int (length s) \<and> sent = s)"
proof -
  obtain ok where lp: "writen_loop s evs = (ok, sent, evs')" "rc = (if ok then int (length s) else -1)"
    using assms by (cases "writen_loop s evs") (simp add: rio_writen_def)
  then show ?thesis
    using writen_loop_prefix [OF lp(1)] writen_loop_ok [of evs s] by auto
qed

lemma writen_sends_prefix_witness:
  "fst (snd (rio_writen ''abcdef'' [Takes 2, Write_fails True, Takes 1])) = ''abcdef''"
proof -
  let ?evs = "[Takes 2, Write_fails True, Takes 1]"
  obtain rc sent evs' where r: "rio_writen ''abcdef'' ?evs = (rc, sent, evs')"
    by (cases "rio_writen ''abcdef'' ?evs")
  from writen_sends_prefix [OF r] r show ?thesis by simp
qed

text \<open>rio_readlineb depends only on the bytes of the stream, not on how they arrive: it delivers the
  stream's first line, cut at maxlen - 1 bytes, terminates it, and leaves the rest of the stream;
  when the stream ends first it delivers what there is, or nothing, or -1 when it ends with an
  error.\<close>

lemma readlineb_reads_line:
  assumes "rio_wf rp" "rio_readlineb rp usrbuf maxlen inp = (rc, buf', rp', inp')"
  defines "l \<equiv> next_line (maxlen - 1) (stream rp inp)"
  shows "(line_complete (maxlen - 1) l \<longrightarrow> rc = int (length l) \<and> buf' = terminate_line l usrbuf
       \<and> stream rp inp = l @ stream rp' inp')
    \<and> (\<not> line_complete (maxlen - 1) l \<longrightarrow>
       rc = (if ends_failed inp then -1 else int (length (stream rp inp)))
       \<and> (stream rp inp = [] \<longrightarrow> buf' = usrbuf))"
  using readlineb_loop_spec [OF assms(1), of "maxlen - 1" inp "[]" usrbuf] assms(2)
  unfolding l_def rio_readlineb_def by (auto simp: overwrite_def split: if_splits)

lemma readlineb_reads_line_witness:
  "fst (rio_readlineb \<lparr>rio_fd = 4, rio_cnt = 2, rio_bufptr = 1, rio_buf = ''xhi''\<rparr> [] 1024
     [Interrupted, Data '' yo'', Data [newline]]) = 6"
proof -
  let ?rp = "\<lparr>rio_fd = 4, rio_cnt = 2, rio_bufptr = 1, rio_buf = ''xhi''\<rparr>"
  let ?inp = "[Interrupted, Data '' yo'', Data [newline]]"
  obtain rc buf' rp' inp' where r: "rio_readlineb ?rp [] 1024 ?inp = (rc, buf', rp', inp')"
    by (cases "rio_readlineb ?rp [] 1024 ?inp")
  have "next_line 1023 (stream ?rp ?inp) = ''hi yo'' @ [newline]"
    by code_simp
  then show ?thesis
    using readlineb_reads_line [OF _ r] r by (simp add: rio_wf_def line_complete_def)
qed

end
