(* ===== verification/Network.thy ===== *)
theory Network
  imports Threads Rio
begin

text \<open>
  The server between its sockets.  \<open>Threads\<close> is given the lines of its clients and collects its
  responses; here every connection has the buffered reader of its \<^verbatim>\<open>ClientConnection\<close>
  (\<^verbatim>\<open>m_fdbuf\<close>), a script of what \<^verbatim>\<open>read\<close> delivers on its socket, a script of what \<^verbatim>\<open>write\<close> makes of
  the responses, and the bytes the peer has got.  A turn starts with \<^verbatim>\<open>rio_readlineb\<close>, a response
  goes out through \<^verbatim>\<open>rio_writen\<close>, and nobody looks at what that returns.  Nothing in the program
  changes what \<^verbatim>\<open>SIGPIPE\<close> does to it: it ends the process.
\<close>

section \<open>Sockets\<close>

record peer =
  m_fdbuf :: rio_t
  p_in :: input
  p_out :: "write_event list"
  p_got :: string

record network =
  n_threads :: threads
  n_peers :: "tid \<Rightarrow> peer"
  n_sigpipe :: bool

definition peer_new :: "int \<Rightarrow> rio_t \<Rightarrow> input \<Rightarrow> write_event list \<Rightarrow> peer" where
  "peer_new client_fd junk inp evs =
    \<lparr>m_fdbuf = rio_readinitb junk client_fd, p_in = inp, p_out = evs, p_got = []\<rparr>"

text \<open>A \<^verbatim>\<open>write\<close> on a socket whose peer has gone was the last one of a call, when there was one.\<close>

definition hits_pipe :: "string \<Rightarrow> write_event list \<Rightarrow> bool" where
  "hits_pipe usrbuf evs = (case rio_writen usrbuf evs of
     (rc, sent, evs') \<Rightarrow> Broken_pipe \<in> set (take (length evs - length evs') evs))"

text \<open>\<^verbatim>\<open>rio_writen(m_client_fd, ...)\<close> of thread \<open>i\<close>.\<close>

definition deliver :: "tid \<Rightarrow> string \<Rightarrow> network \<Rightarrow> network" where
  "deliver i bytes N = (let p = n_peers N i in
     case rio_writen bytes (p_out p) of (rc, sent, evs') \<Rightarrow>
       N\<lparr>n_peers := (n_peers N)(i := p\<lparr>p_out := evs', p_got := p_got p @ sent\<rparr>),
         n_sigpipe := hits_pipe bytes (p_out p)\<rparr>)"

text \<open>The bytes a step of thread \<open>i\<close> has handed to \<^verbatim>\<open>rio_writen\<close>.\<close>

definition outgoing :: "tid \<Rightarrow> threads \<Rightarrow> threads \<Rightarrow> string" where
  "outgoing i T T' = drop (length (wire (world_of i (th_sys T)))) (wire (world_of i (th_sys T')))"

definition after_step :: "tid \<Rightarrow> network \<Rightarrow> threads \<Rightarrow> network" where
  "after_step i N T' = deliver i (outgoing i (n_threads N) T') (N\<lparr>n_threads := T'\<rparr>)"

section \<open>The steps\<close>

text \<open>
  \<open>Net_accept\<close> brings the scripts of the new connection, and the junk its buffer holds at first;
  \<open>Net_turn\<close> brings the junk in the array \<^verbatim>\<open>buf\<close>.
\<close>

datatype net_event =
    Net_accept int bool rio_t input "write_event list"
  | Net_turn tid string
  | Net_run tid

text \<open>A descriptor that a live session has is in use; \<^verbatim>\<open>accept\<close> returns one that is not.\<close>

definition in_use :: "int \<Rightarrow> system \<Rightarrow> bool" where
  "in_use fd \<sigma> \<longleftrightarrow> list_ex (\<lambda>i. live i \<sigma> \<and> m_client_fd (conn (world_of i \<sigma>)) = fd) [0..<next_tid \<sigma>]"

fun exec_net :: "net_event \<Rightarrow> network \<Rightarrow> network option" where
  "exec_net (Net_accept client_fd created junk inp evs) N =
     (if n_sigpipe N \<or> in_use client_fd (th_sys (n_threads N)) then None
      else map_option (\<lambda>T'. N\<lparr>n_threads := T',
          n_peers := (n_peers N)(next_tid (th_sys (n_threads N)) := peer_new client_fd junk inp evs)\<rparr>)
        (exec_th (Th_accept client_fd created) (n_threads N)))"
| "exec_net (Net_turn i junk) N =
     (if n_sigpipe N then None
      else (case rio_readlineb (m_fdbuf (n_peers N i)) junk MAX_ENCODED_LEN (p_in (n_peers N i)) of
        (n, buf, rio, inp) \<Rightarrow>
          map_option (after_step i (N\<lparr>n_peers := (n_peers N)(i := (n_peers N i)\<lparr>m_fdbuf := rio, p_in := inp\<rparr>)\<rparr>))
            (exec_th (if n \<le> 0 then Th_eof i else Th_line i buf) (n_threads N))))"
| "exec_net (Net_run i) N =
     (if n_sigpipe N then None
      else map_option (after_step i N) (exec_th (Th_run i) (n_threads N)))"

fun run_net :: "net_event list \<Rightarrow> network \<Rightarrow> network option" where
  "run_net [] N = Some N"
| "run_net (e # es) N = Option.bind (exec_net e N) (run_net es)"

definition net_start :: "nat \<Rightarrow> int \<Rightarrow> network" where
  "net_start argc fd = \<lparr>n_threads = th_start (server_main argc fd),
     n_peers = (\<lambda>i. peer_new (-1) \<lparr>rio_fd = 0, rio_cnt = 0, rio_bufptr = 0, rio_buf = []\<rparr> [] []),
     n_sigpipe = False\<rparr>"

inductive net_step :: "network \<Rightarrow> net_event \<Rightarrow> network \<Rightarrow> bool" where
  accept: "\<not> n_sigpipe N \<Longrightarrow> \<not> in_use client_fd (th_sys (n_threads N)) \<Longrightarrow>
    th_step (n_threads N) (Th_accept client_fd created) T' \<Longrightarrow>
    net_step N (Net_accept client_fd created junk inp evs)
      (N\<lparr>n_threads := T', n_peers := (n_peers N)(next_tid (th_sys (n_threads N)) := peer_new client_fd junk inp evs)\<rparr>)"
| turn: "\<not> n_sigpipe N \<Longrightarrow>
    rio_readlineb (m_fdbuf (n_peers N i)) junk MAX_ENCODED_LEN (p_in (n_peers N i)) = (n, buf, rio, inp) \<Longrightarrow>
    0 < n \<Longrightarrow> th_step (n_threads N) (Th_line i buf) T' \<Longrightarrow>
    net_step N (Net_turn i junk)
      (after_step i (N\<lparr>n_peers := (n_peers N)(i := (n_peers N i)\<lparr>m_fdbuf := rio, p_in := inp\<rparr>)\<rparr>) T')"
| finish: "\<not> n_sigpipe N \<Longrightarrow>
    rio_readlineb (m_fdbuf (n_peers N i)) junk MAX_ENCODED_LEN (p_in (n_peers N i)) = (n, buf, rio, inp) \<Longrightarrow>
    n \<le> 0 \<Longrightarrow> th_step (n_threads N) (Th_eof i) T' \<Longrightarrow>
    net_step N (Net_turn i junk)
      (after_step i (N\<lparr>n_peers := (n_peers N)(i := (n_peers N i)\<lparr>m_fdbuf := rio, p_in := inp\<rparr>)\<rparr>) T')"
| run: "\<not> n_sigpipe N \<Longrightarrow> th_step (n_threads N) (Th_run i) T' \<Longrightarrow>
    net_step N (Net_run i) (after_step i N T')"

inductive_cases net_stepE: "net_step N e N'"
inductive_simps net_accept_iff: "net_step N (Net_accept client_fd created junk inp evs) N'"
inductive_simps net_turn_iff: "net_step N (Net_turn i junk) N'"
inductive_simps net_run_iff: "net_step N (Net_run i) N'"

lemma exec_net_step: "exec_net e N = Some N' \<longleftrightarrow> net_step N e N'"
proof (cases e)
  case (Net_turn i junk)
  then show ?thesis
    by (auto simp: net_turn_iff exec_th_step [symmetric] simp del: exec_th.simps split: prod.split if_splits)
qed (auto simp: net_accept_iff net_run_iff exec_th_step [symmetric] simp del: exec_th.simps)

inductive net_reachable :: "network \<Rightarrow> bool" where
  start: "net_reachable (net_start argc fd)"
| step: "net_reachable N \<Longrightarrow> net_step N e N' \<Longrightarrow> net_reachable N'"

end
