(* ===== verification/SystemInv.thy ===== *)
theory SystemInv
  imports Sessions
begin

text \<open>
  The invariant of the running server and what follows from it: every mutex has a living owner
  that is in a transaction, nothing is pending in a table nobody holds, each session satisfies
  its own invariant, and every stored value fits in a response.
\<close>

definition sys_inv :: "system \<Rightarrow> bool" where
  "sys_inv \<sigma> \<longleftrightarrow> server_wf (sys_srv \<sigma>) \<and> server_fits (sys_srv \<sigma>)
     \<and> (\<forall>i. live i \<sigma> \<longrightarrow> conn_inv i (world_of i \<sigma>) \<and> world_fits (world_of i \<sigma>))
     \<and> (\<forall>a j. valid_ptr a (sys_srv \<sigma>) \<longrightarrow> table_mutex (table_at a (sys_srv \<sigma>)) = Some j \<longrightarrow> live j \<sigma>)
     \<and> (\<forall>i. sessions \<sigma> i \<noteq> None \<longrightarrow> i < next_tid \<sigma>)"

lemma sys_invD:
  assumes "sys_inv \<sigma>"
  shows "server_wf (sys_srv \<sigma>)" "server_fits (sys_srv \<sigma>)"
    and "\<And>i. live i \<sigma> \<Longrightarrow> conn_inv i (world_of i \<sigma>)" "\<And>i. live i \<sigma> \<Longrightarrow> world_fits (world_of i \<sigma>)"
    and "\<And>a j. valid_ptr a (sys_srv \<sigma>) \<Longrightarrow> table_mutex (table_at a (sys_srv \<sigma>)) = Some j \<Longrightarrow> live j \<sigma>"
    and "\<And>i. sessions \<sigma> i \<noteq> None \<Longrightarrow> i < next_tid \<sigma>"
  using assms unfolding sys_inv_def by blast+

section \<open>Seeing and putting a world\<close>

lemma live_Some: "live i \<sigma> \<longleftrightarrow> (\<exists>s. sessions \<sigma> i = Some s \<and> s_open s)"
  by (auto simp: live_def split: option.splits)

lemma world_of_srv [simp]: "srv (world_of i \<sigma>) = sys_srv \<sigma>"
  by (simp add: world_of_def world_new_def split: option.split)

lemma world_of_open: "live i \<sigma> \<Longrightarrow> wire_open (world_of i \<sigma>)"
  by (auto simp: live_Some world_of_def)

lemma put_world_simps [simp]:
  "sys_srv (put_world i w \<sigma>) = srv w" "status (put_world i w \<sigma>) = status \<sigma>"
  "next_tid (put_world i w \<sigma>) = next_tid \<sigma>" "err_log (put_world i w \<sigma>) = err_log \<sigma>"
  "sessions (put_world i w \<sigma>) j = (if j = i
     then Some \<lparr>s_conn = conn w, s_wire = wire w, s_open = wire_open w\<rparr> else sessions \<sigma> j)"
  by (simp_all add: put_world_def)

lemma live_put_world [simp]: "live j (put_world i w \<sigma>) = (if j = i then wire_open w else live j \<sigma>)"
  by (simp add: live_def)

lemma world_of_put [simp]: "world_of i (put_world i w \<sigma>) = w"
  by (cases w) (simp add: world_of_def)

lemma world_of_put_other:
  "j \<noteq> i \<Longrightarrow> live j \<sigma> \<Longrightarrow> world_of j (put_world i w \<sigma>) = (world_of j \<sigma>)\<lparr>srv := srv w\<rparr>"
  by (auto simp: world_of_def live_Some)

lemma status_simps [simp]:
  "live i (\<sigma>\<lparr>status := st\<rparr>) = live i \<sigma>" "world_of i (\<sigma>\<lparr>status := st\<rparr>) = world_of i \<sigma>"
  "live i (\<sigma>\<lparr>next_tid := n\<rparr>) = live i \<sigma>" "world_of i (\<sigma>\<lparr>next_tid := n\<rparr>) = world_of i \<sigma>"
  "live i (log_error what \<sigma>) = live i \<sigma>" "world_of i (log_error what \<sigma>) = world_of i \<sigma>"
  "sys_srv (log_error what \<sigma>) = sys_srv \<sigma>" "sessions (log_error what \<sigma>) = sessions \<sigma>"
  "next_tid (log_error what \<sigma>) = next_tid \<sigma>" "status (log_error what \<sigma>) = status \<sigma>"
  by (cases "sessions \<sigma> i"; simp add: live_def world_of_def log_error_def)+

lemma sys_inv_status [simp]: "sys_inv (\<sigma>\<lparr>status := st\<rparr>) = sys_inv \<sigma>"
  by (simp add: sys_inv_def)

section \<open>One thread moves, the others stay\<close>

text \<open>A thread's step that keeps its own invariant and the frame keeps everybody's invariant.\<close>

lemma conn_inv_frame:
  assumes other: "conn_inv j v" and s': "server_wf s'" and fr: "frame i (srv v) s'" and ne: "j \<noteq> i"
  shows "conn_inv j (v\<lparr>srv := s'\<rparr>)"
proof -
  note D = conn_invD [OF other] and F = frameD [OF fr]
  have own: "table_mutex (table_at a s') = Some j \<longleftrightarrow> a \<in> set (locked_tables (conn v))"
    if "valid_ptr a s'" for a
    using D(3-5) F(1,4,5) that ne by metis
  moreover have "\<forall>a \<in> set (locked_tables (conn v)). valid_ptr a s'"
    using D(3) F(1) by blast
  ultimately show ?thesis
    using s' other by (simp add: conn_inv_def)
qed

lemma world_fits_srv: "world_fits (v\<lparr>srv := s\<rparr>) \<longleftrightarrow> server_fits s \<and> list_all fits (operands v)"
  by (simp add: world_fits_def operands_def)

lemma sys_inv_put:
  assumes inv: "sys_inv \<sigma>" and old: "i < next_tid \<sigma>" and wf: "server_wf (srv w)"
    and fr: "frame i (sys_srv \<sigma>) (srv w)" and fits: "server_fits (srv w)"
    and own: "wire_open w \<Longrightarrow> conn_inv i w \<and> world_fits w"
    and gone: "\<not> wire_open w \<Longrightarrow> \<forall>a. valid_ptr a (srv w) \<longrightarrow> table_mutex (table_at a (srv w)) \<noteq> Some i"
  shows "sys_inv (put_world i w \<sigma>)"
proof -
  have others: "conn_inv j (world_of j (put_world i w \<sigma>)) \<and> world_fits (world_of j (put_world i w \<sigma>))"
    if "live j \<sigma>" "j \<noteq> i" for j
    using that sys_invD(3,4) [OF inv that(1)] fits
      conn_inv_frame [of j "world_of j \<sigma>" "srv w" i] wf fr
    by (simp add: world_of_put_other world_fits_srv world_fits_def)
  have owner: "live j (put_world i w \<sigma>)"
    if "valid_ptr a (srv w)" "table_mutex (table_at a (srv w)) = Some j" for a j
  proof (cases "j = i")
    case True
    with gone that show ?thesis by auto
  next
    case False
    with that frameD(5) [OF fr, of a j] sys_invD(5) [OF inv, of a j] show ?thesis by simp
  qed
  have fresh: "j < next_tid \<sigma>" if "sessions (put_world i w \<sigma>) j \<noteq> None" for j
    using that old sys_invD(6) [OF inv, of j] by (cases "j = i") auto
  show ?thesis
    using wf fits own others owner fresh unfolding sys_inv_def
    by (auto split: if_splits)
qed

section \<open>Every step keeps the invariant\<close>

definition closed :: "world \<Rightarrow> world" where
  "closed w = (release rollback_changes (locked_tables (conn w)) w)\<lparr>wire_open := False\<rparr>"

lemma close_run: "conn_inv i w \<Longrightarrow> close_session i w \<sigma> = put_world i (closed w) \<sigma>"
  by (simp add: close_session_def connection_destroy_run closed_def)

lemma closed_sel [simp]:
  "srv (closed w) = srv (abort_world w)" "\<not> wire_open (closed w)" "wire (closed w) = wire w"
  "conn (closed w) = conn w" "operands (closed w) = operands w"
  by (simp_all add: closed_def abort_world_def operands_def)

lemma abort_unowned:
  assumes "conn_inv i w" "valid_ptr a (srv w)"
  shows "table_mutex (table_at a (srv (abort_world w))) \<noteq> Some i"
  using assms release_at [OF conn_invD(8) [OF assms(1)] assms(2), of rollback_changes] conn_invD(5)
  by (auto simp: abort_world_def)

lemma server_fits_of: "world_fits w \<Longrightarrow> server_fits (srv w)"
  by (simp add: world_fits_def)

lemma sys_inv_turn:
  assumes inv: "sys_inv \<sigma>" and old: "i < next_tid \<sigma>" and ok: "step_ok i (world_of i \<sigma>) w"
    and fit: "world_fits w" and op: "wire_open (world_of i \<sigma>)"
  shows "sys_inv (put_world i w \<sigma>)" "sys_inv (close_session i w \<sigma>)"
proof -
  have w: "conn_inv i w" "frame i (sys_srv \<sigma>) (srv w)" "wire_open w"
    using ok op by (auto simp: step_ok_def)
  show "sys_inv (put_world i w \<sigma>)"
    using w fit server_fits_of by (intro sys_inv_put [OF inv old]) (auto dest: conn_invD(1))
  have ab: "step_ok i w (abort_world w)"
    using w(1) by (rule step_ok_abort)
  have "frame i (sys_srv \<sigma>) (srv (abort_world w))"
    using w(2) ab by (auto simp: step_ok_def intro: frame_trans)
  moreover have "server_wf (srv (abort_world w))"
    using ab by (auto simp: step_ok_def dest: conn_invD(1))
  moreover have "server_fits (srv (abort_world w))"
    using abort_fits [OF w(1) fit] by (rule server_fits_of)
  ultimately have "sys_inv (put_world i (closed w) \<sigma>)"
    using abort_unowned [OF w(1)] by (intro sys_inv_put [OF inv old]) (auto simp: abort_world_def)
  with w(1) show "sys_inv (close_session i w \<sigma>)"
    by (simp add: close_run)
qed

lemma new_session_inv:
  assumes "sys_inv \<sigma>"
  shows "conn_inv (next_tid \<sigma>) (world_new (sys_srv \<sigma>) fd)" "world_fits (world_new (sys_srv \<sigma>) fd)"
proof -
  have "sessions \<sigma> (next_tid \<sigma>) = None"
    using sys_invD(6) [OF assms, of "next_tid \<sigma>"] by blast
  then have "\<not> live (next_tid \<sigma>) \<sigma>"
    by (simp add: live_Some)
  then show "conn_inv (next_tid \<sigma>) (world_new (sys_srv \<sigma>) fd)"
    using sys_invD(1,5) [OF assms] by (auto simp: conn_inv_def world_new_def connection_new_def)
  show "world_fits (world_new (sys_srv \<sigma>) fd)"
    using sys_invD(2) [OF assms]
    by (simp add: world_fits_def world_new_def connection_new_def operands_def vs_new_def vs_contents_def)
qed

lemma sys_inv_next: "sys_inv \<sigma> \<Longrightarrow> sys_inv (\<sigma>\<lparr>next_tid := Suc (next_tid \<sigma>)\<rparr>)"
  unfolding sys_inv_def by (auto simp: less_Suc_eq)

lemma sys_inv_log [simp]: "sys_inv (log_error what \<sigma>) = sys_inv \<sigma>"
  unfolding sys_inv_def by simp

lemma sys_inv_accept:
  assumes inv: "sys_inv \<sigma>"
  shows "sys_inv (accept_connection fd created \<sigma>)"
proof -
  let ?i = "next_tid \<sigma>" and ?\<sigma> = "\<sigma>\<lparr>next_tid := Suc (next_tid \<sigma>)\<rparr>"
  let ?w = "world_new (sys_srv \<sigma>) fd"
  note new = new_session_inv [OF inv, of fd]
  have srv: "srv ?w = sys_srv \<sigma>" "wire_open ?w" "srv (abort_world ?w) = sys_srv \<sigma>"
    by (simp_all add: world_new_def abort_world_def connection_new_def)
  have "sys_inv (put_world ?i ?w \<tau>)" "sys_inv (close_session ?i ?w \<tau>)"
    if "sys_inv \<tau>" "sys_srv \<tau> = sys_srv \<sigma>" "?i < next_tid \<tau>" for \<tau>
    using new srv that conn_invD(5) [OF new(1)]
    by (auto simp: close_run world_new_def connection_new_def
        intro!: sys_inv_put dest: conn_invD(1) server_fits_of)
  then show ?thesis
    using inv sys_inv_next [OF inv] by (simp add: accept_connection_def Let_def)
qed

lemma sys_inv_start: "sys_inv (server_main argc fd)"
  using server_wf_new
  by (auto simp: server_main_def sys_inv_def system_start_def live_def server_fits_def server_listen_def
      server_wf_def server_new_def valid_ptr_def log_error_def seq_run basic_runs bind_case modify_def)

lemma live_old: "sys_inv \<sigma> \<Longrightarrow> live i \<sigma> \<Longrightarrow> i < next_tid \<sigma>"
  using sys_invD(6) [of \<sigma> i] by (auto simp: live_Some)

lemma live_turn:
  assumes "sys_inv \<sigma>" "live i \<sigma>" "chat_iteration i buf (world_of i \<sigma>) = (r, w)"
  shows "step_ok i (world_of i \<sigma>) w" "world_fits w"
  using chat_iteration_ok [OF sys_invD(3) [OF assms(1,2)], of buf]
    chat_iteration_fits [OF sys_invD(3,4) [OF assms(1,2)], of buf] assms(3) by auto

lemma sys_inv_step: "sys_step \<sigma> e \<sigma>' \<Longrightarrow> sys_inv \<sigma> \<Longrightarrow> sys_inv \<sigma>'"
proof (induction rule: sys_step.induct)
  case (hangup \<sigma> i)
  then show ?case
    using sys_inv_turn(2) [OF hangup(3) live_old [OF hangup(3,2)] step_ok_refl] sys_invD(3,4)
      world_of_open by blast
qed (auto simp: sys_inv_accept live_old world_of_open intro: sys_inv_turn live_turn)

lemma reachable_inv: "reachable \<sigma> \<Longrightarrow> sys_inv \<sigma>"
  by (induction rule: reachable.induct) (auto intro: sys_inv_start sys_inv_step)

end
