(* ===== verification/ThreadInv.thy ===== *)
theory ThreadInv
  imports Threads SystemInv Outcomes
begin

text \<open>
  The invariant of the threads: at every place of a turn a thread owns exactly the mutexes the
  place says, each fact it has read of the shared state and still relies on is still true, and what
  one thread does leaves the others' facts alone.
\<close>

section \<open>The shared state\<close>

text \<open>Well-formed but for the lock of the table map, which a thread may hold between two steps.\<close>

definition map_free :: "server \<Rightarrow> server" where
  "map_free s = s\<lparr>table_lock := None\<rparr>"

definition srv_wf :: "server \<Rightarrow> bool" where
  "srv_wf s \<longleftrightarrow> server_wf (map_free s)"

lemma map_free_simps [simp]:
  "set_of_table (map_free s) = set_of_table s" "table_at a (map_free s) = table_at a s"
  "valid_ptr a (map_free s) = valid_ptr a s" "table_lock (map_free s) = None"
  "put_table a t (map_free s) = map_free (put_table a t s)"
  "map_free (s\<lparr>table_lock := m\<rparr>) = map_free s"
  by (simp_all add: map_free_def put_table_def)

lemma add_table_map_free: "add_table n (map_free s) = map_free (add_table n s)"
  by (simp add: map_free_def add_table_def)

lemma srv_wfD:
  assumes "srv_wf s"
  shows "\<And>n a. smap_find n (set_of_table s) = Some a \<Longrightarrow> valid_ptr a s"
    and "\<And>n a. smap_find n (set_of_table s) = Some a \<Longrightarrow> m_name (table_at a s) = n"
    and "\<And>a. valid_ptr a s \<Longrightarrow> table_wf (table_at a s)"
    and "\<And>a. valid_ptr a s \<Longrightarrow> table_mutex (table_at a s) = None \<Longrightarrow> key_value_temp (table_at a s) = []"
    and "\<And>a. valid_ptr a s \<Longrightarrow> smap_find (m_name (table_at a s)) (set_of_table s) = Some a"
  using server_wfD(3-7) [OF assms [unfolded srv_wf_def]] by simp_all

lemma srv_wf_lock [simp]: "srv_wf (s\<lparr>table_lock := m\<rparr>) = srv_wf s"
  by (simp add: srv_wf_def)

lemma srv_wf_put:
  assumes "srv_wf s" "m_name t = m_name (table_at a s)" "table_wf t"
    and "table_mutex t = None \<Longrightarrow> key_value_temp t = []"
  shows "srv_wf (put_table a t s)"
  using server_wf_put [of "map_free s" t a] assms by (simp add: srv_wf_def)

lemma srv_wf_add: "srv_wf s \<Longrightarrow> smap_find n (set_of_table s) = None \<Longrightarrow> srv_wf (add_table n s)"
  using server_wf_add [of "map_free s" n] by (simp add: srv_wf_def add_table_map_free)

lemma server_wf_srv_wf: "server_wf s \<longleftrightarrow> srv_wf s \<and> table_lock s = None"
  by (cases s) (auto simp: srv_wf_def map_free_def server_wf_def valid_ptr_def table_at_def)

section \<open>What a thread owns and knows\<close>

fun in_map :: "pc \<Rightarrow> bool" where
  "in_map (Map_look op) = True"
| "in_map (Map_leave op r) = True"
| "in_map p = False"

fun owned :: "pc \<Rightarrow> addr list \<Rightarrow> addr set" where
  "owned (Guard_use a acc) ls = {a}"
| "owned (Guard_commit a acc) ls = {a}"
| "owned (Guard_leave a e) ls = {a}"
| "owned (Commit_table as) ls = set as"
| "owned (Commit_unlock a as) ls = insert a (set as)"
| "owned (Undo_table as u) ls = set as"
| "owned (Undo_unlock a as u) ls = insert a (set as)"
| "owned Ended ls = {}"
| "owned p ls = set ls"

text \<open>A table this thread has locked for the length of one statement only.\<close>

definition guards :: "addr \<Rightarrow> world \<Rightarrow> bool" where
  "guards a w \<longleftrightarrow> valid_ptr a (srv w) \<and> \<not> m_in_transaction (conn w)"

definition left_of :: "addr list \<Rightarrow> world \<Rightarrow> bool" where
  "left_of as w \<longleftrightarrow> (\<exists>ds. locked_tables (conn w) = ds @ as)"

fun place :: "pc \<Rightarrow> world \<Rightarrow> bool" where
  "place (Map_leave (Op_find n acc) (Inr a)) w \<longleftrightarrow> smap_find n (set_of_table (srv w)) = Some a"
| "place (Map_leave op (Inl e)) w \<longleftrightarrow> (\<exists>t. e = OperationException t)"
| "place (Txn_lock n a acc) w \<longleftrightarrow> smap_find n (set_of_table (srv w)) = Some a \<and> m_in_transaction (conn w)"
| "place (Txn_use a acc) w \<longleftrightarrow> a \<in> set (locked_tables (conn w)) \<and> m_in_transaction (conn w)"
| "place (Guard_enter a acc) w \<longleftrightarrow> guards a w"
| "place (Guard_use a acc) w \<longleftrightarrow> guards a w \<and> key_value_temp (table_at a (srv w)) = []"
| "place (Guard_commit a acc) w \<longleftrightarrow> guards a w \<and>
     (\<exists>k v. acc = Set_key k v \<and> key_value_temp (table_at a (srv w)) = [(k, v)])"
| "place (Guard_leave a e) w \<longleftrightarrow> guards a w \<and> key_value_temp (table_at a (srv w)) = []
     \<and> (\<forall>x. e = Some x \<longrightarrow> (\<exists>t. x = OperationException t))"
| "place (Commit_table as) w \<longleftrightarrow> left_of as w \<and> m_in_transaction (conn w)"
| "place (Commit_unlock a as) w \<longleftrightarrow> left_of (a # as) w \<and> m_in_transaction (conn w)
     \<and> key_value_temp (table_at a (srv w)) = []"
| "place (Undo_table as u) w \<longleftrightarrow> left_of as w \<and> (u \<noteq> None \<longrightarrow> m_in_transaction (conn w))"
| "place (Undo_unlock a as u) w \<longleftrightarrow> left_of (a # as) w \<and> (u \<noteq> None \<longrightarrow> m_in_transaction (conn w))
     \<and> key_value_temp (table_at a (srv w)) = []"
| "place (Raised (FailedTransaction e)) w \<longleftrightarrow> m_in_transaction (conn w)"
| "place (Raised (CommException e)) w \<longleftrightarrow> False"
| "place (Raised (RuntimeError e)) w \<longleftrightarrow> False"
| "place Ended w \<longleftrightarrow> \<not> wire_open w"
| "place p w \<longleftrightarrow> True"

definition thread_inv :: "tid \<Rightarrow> pc \<Rightarrow> world \<Rightarrow> bool" where
  "thread_inv i p w \<longleftrightarrow> srv_wf (srv w)
     \<and> (\<forall>a. valid_ptr a (srv w) \<longrightarrow>
          (table_mutex (table_at a (srv w)) = Some i \<longleftrightarrow> a \<in> owned p (locked_tables (conn w))))
     \<and> (\<forall>a \<in> set (locked_tables (conn w)). valid_ptr a (srv w))
     \<and> sorted (locked_tables (conn w)) \<and> distinct (locked_tables (conn w))
     \<and> (\<not> m_in_transaction (conn w) \<longrightarrow> locked_tables (conn w) = [])
     \<and> (table_lock (srv w) = Some i \<longleftrightarrow> in_map p)
     \<and> place p w"

lemma thread_invD:
  assumes "thread_inv i p w"
  shows "srv_wf (srv w)"
    and "\<And>a. valid_ptr a (srv w) \<Longrightarrow> table_mutex (table_at a (srv w)) = Some i \<longleftrightarrow> a \<in> owned p (locked_tables (conn w))"
    and "\<And>a. a \<in> set (locked_tables (conn w)) \<Longrightarrow> valid_ptr a (srv w)"
    and "sorted (locked_tables (conn w))" "distinct (locked_tables (conn w))"
    and "\<not> m_in_transaction (conn w) \<Longrightarrow> locked_tables (conn w) = []"
    and "table_lock (srv w) = Some i \<longleftrightarrow> in_map p"
    and "place p w"
  using assms by (auto simp: thread_inv_def)

lemma owned_valid:
  assumes "thread_inv i p w" "a \<in> owned p (locked_tables (conn w))"
  shows "valid_ptr a (srv w)" "table_mutex (table_at a (srv w)) = Some i"
proof -
  show "valid_ptr a (srv w)"
    using assms(2) thread_invD(3,8) [OF assms(1)]
    by (cases p) (auto simp: guards_def left_of_def)
  then show "table_mutex (table_at a (srv w)) = Some i"
    using thread_invD(2) [OF assms(1)] assms(2) by blast
qed

text \<open>Between two turns the thread is as \<open>Sessions\<close> has it.\<close>

lemma thread_inv_Ready:
  "conn_inv i w \<longleftrightarrow> thread_inv i Ready w \<and> table_lock (srv w) = None"
  by (auto simp: conn_inv_def thread_inv_def server_wf_srv_wf)

section \<open>The frame of the other threads\<close>

text \<open>The frame of \<open>SessionInv\<close>, and no thread but \<open>i\<close> takes or loses the lock of the map.\<close>

definition th_frame :: "tid \<Rightarrow> server \<Rightarrow> server \<Rightarrow> bool" where
  "th_frame i s s' \<longleftrightarrow> frame i s s' \<and> (\<forall>j. j \<noteq> i \<longrightarrow> table_lock s' = Some j \<longleftrightarrow> table_lock s = Some j)"

lemma th_frame_refl [simp]: "th_frame i s s"
  by (simp add: th_frame_def)

lemma place_frame:
  assumes "thread_inv j p w" "th_frame i (srv w) s'" "j \<noteq> i"
  shows "place p (w\<lparr>srv := s'\<rparr>)"
proof -
  have fr: "frame i (srv w) s'"
    using assms(2) by (simp add: th_frame_def)
  have same: "table_at a s' = table_at a (srv w)" if "a \<in> owned p (locked_tables (conn w))" for a
    using owned_valid [OF assms(1) that] frameD(4) [OF fr] assms(3) by blast
  show ?thesis
    using thread_invD(8) [OF assms(1)] same frameD(1,3) [OF fr]
    by (induction p w rule: place.induct) (auto simp: guards_def left_of_def)
qed

lemma thread_inv_frame:
  assumes inv: "thread_inv j p w" and fr: "th_frame i (srv w) s'" and ne: "j \<noteq> i" and wf: "srv_wf s'"
  shows "thread_inv j p (w\<lparr>srv := s'\<rparr>)"
proof -
  have f: "frame i (srv w) s'"
    using fr by (simp add: th_frame_def)
  have own: "table_mutex (table_at a s') = Some j \<longleftrightarrow> a \<in> owned p (locked_tables (conn w))"
    if "valid_ptr a s'" for a
    using owned_valid [OF inv] frameD(1,4,5) [OF f] ne that thread_invD(2) [OF inv] by metis
  show ?thesis
    using own place_frame [OF inv fr ne] thread_invD(3-7) [OF inv] wf frameD(1) [OF f] fr ne
    unfolding thread_inv_def by (auto simp: th_frame_def)
qed

section \<open>The effects of a step\<close>

text \<open>A step of thread \<open>i\<close> from \<open>w\<close> to \<open>w'\<close>, at \<open>p'\<close> now.\<close>

definition moved :: "tid \<Rightarrow> world \<Rightarrow> pc \<Rightarrow> world \<Rightarrow> bool" where
  "moved i w p' w' \<longleftrightarrow> thread_inv i p' w' \<and> th_frame i (srv w) (srv w')
     \<and> wire_open w' = (wire_open w \<and> p' \<noteq> Ended)"

text \<open>Nothing shared has changed.\<close>

lemma moved_local:
  assumes "thread_inv i p w" "srv w' = srv w" "locked_tables (conn w') = locked_tables (conn w)"
    and "m_in_transaction (conn w) \<Longrightarrow> m_in_transaction (conn w')"
    and "owned p' (locked_tables (conn w)) = owned p (locked_tables (conn w))" "in_map p' = in_map p"
    and "place p' w'" "wire_open w' = (wire_open w \<and> p' \<noteq> Ended)"
  shows "moved i w p' w'"
  using assms unfolding moved_def thread_inv_def by auto

text \<open>One table has changed, its mutex taken or released perhaps.\<close>

lemma moved_table:
  assumes inv: "thread_inv i p w" and ptr: "valid_ptr a (srv w)"
    and own: "table_mutex (table_at a (srv w)) \<in> {None, Some i}"
    and f: "m_name (f (table_at a (srv w))) = m_name (table_at a (srv w))"
      "table_wf (table_at a (srv w)) \<Longrightarrow> table_wf (f (table_at a (srv w)))"
      "table_mutex (f (table_at a (srv w))) \<in> {None, Some i}"
      "table_mutex (f (table_at a (srv w))) = None \<Longrightarrow> key_value_temp (f (table_at a (srv w))) = []"
    and owns: "owned p' (locked_tables (conn w)) =
      (if table_mutex (f (table_at a (srv w))) = Some i then insert a (owned p (locked_tables (conn w)))
       else owned p (locked_tables (conn w)) - {a})"
    and "in_map p' = in_map p" "place p' (upd_table a f w)" "p' \<noteq> Ended"
  shows "moved i w p' (upd_table a f w)"
proof -
  have "srv_wf (put_table a (f (table_at a (srv w))) (srv w))"
    using f ptr thread_invD(1) [OF inv] by (intro srv_wf_put) (auto dest: srv_wfD)
  moreover have "frame i (srv w) (put_table a (f (table_at a (srv w))) (srv w))"
    using ptr own f(1,3) by (auto simp: frame_def)
  ultimately show ?thesis
    using assms thread_invD(2-7) [OF inv]
    unfolding moved_def thread_inv_def th_frame_def by auto
qed

lemma moved_say: "moved i w p' (say b w') = moved i w p' w'" if "\<And>u. place p' (say b u) = place p' u"
  using that by (simp add: moved_def thread_inv_def)

section \<open>The steps in closed form\<close>

lemma micro_simps [prog_simps]:
  "raising m w = (case m w of (Ok p, w') \<Rightarrow> (Ok p, w') | (Exn e, w') \<Rightarrow> (Ok (Raised e), w')
     | (Blocked, w') \<Rightarrow> (Blocked, w') | (Undef, w') \<Rightarrow> (Undef, w'))"
  "guarded a m w = (case m w of (Ok p, w') \<Rightarrow> (Ok p, w') | (Exn e, w') \<Rightarrow> (Ok (Guard_leave a (Some e)), w')
     | (Blocked, w') \<Rightarrow> (Blocked, w') | (Undef, w') \<Rightarrow> (Undef, w'))"
  "block w = (Blocked, w)"
  by (simp_all add: raising_def guarded_def block_def)

lemma map_enter_run: "micro i (Map_enter op) w = (case table_lock (srv w) of
     None \<Rightarrow> (Ok (Map_look op), upd_srv ((srv w)\<lparr>table_lock := Some i\<rparr>) w)
   | Some j \<Rightarrow> (Blocked, w))"
  by (cases "table_lock (srv w)")
     (simp_all add: runs on_srv_def map_lock_def lock_at_free lock_at_held upd_srv_def)

lemma map_look_create_run:
  "table_lock (srv w) = Some i \<Longrightarrow> micro i (Map_look (Op_create n)) w =
    (if smap_find n (set_of_table (srv w)) \<noteq> None
     then (Ok (Map_leave (Op_create n) (Inl (OperationException ''Table with that name already exists''))), w)
     else (Ok (Map_leave (Op_create n) (Inr (length (table_heap (srv w))))), upd_srv (add_table n (srv w)) w))"
  by (simp add: runs on_srv_def map_body_def new_table_def add_table_def modify_def upd_srv_def)

lemma map_look_find_run:
  "table_lock (srv w) = Some i \<Longrightarrow> micro i (Map_look (Op_find n acc)) w =
    (Ok (Map_leave (Op_find n acc) (case smap_find n (set_of_table (srv w)) of
       Some a \<Rightarrow> Inr a
     | None \<Rightarrow> Inl (OperationException ''The table that you want to find is not exist''))), w)"
  by (cases "smap_find n (set_of_table (srv w))") (simp_all add: runs on_srv_def map_body_def)

definition after_map :: "map_op \<Rightarrow> exn + addr \<Rightarrow> world \<Rightarrow> pc" where
  "after_map op r w = (case r of Inl e \<Rightarrow> Raised e
     | Inr a \<Rightarrow> (case op of Op_create n \<Rightarrow> Reply
         | Op_find n acc \<Rightarrow> if m_in_transaction (conn w) then Txn_lock n a acc else Guard_enter a acc))"

lemma map_leave_run:
  "table_lock (srv w) = Some i \<Longrightarrow> micro i (Map_leave op r) w =
    (Ok (after_map op r w), upd_srv ((srv w)\<lparr>table_lock := None\<rparr>) w)"
  by (cases r; cases op)
     (simp_all add: runs micro_simps on_srv_def map_unlock_def unlock_at_own upd_srv_def after_map_def)

lemma txn_lock_run:
  "valid_ptr a (srv w) \<Longrightarrow> micro i (Txn_lock n a acc) w =
    (if a \<in> set (locked_tables (conn w)) then (Ok (Txn_use a acc), w)
     else if table_mutex (table_at a (srv w)) = None then (Ok (Txn_use a acc), acquire i a w)
     else (Ok (Raised (FailedTransaction (''Could not acquire lock on table '' @ n))), w))"
  by (simp add: runs micro_simps txn_acquire_run)

text \<open>A use of a table this thread holds: the value read, if there is one, or the entry written.\<close>

fun used :: "addr \<Rightarrow> access \<Rightarrow> world \<Rightarrow> world option" where
  "used a (Get_key k) w = map_option (\<lambda>v. push_value v w) (view (table_at a (srv w)) k)"
| "used a (Set_key k v) w = Some (upd_table a (table_set k v) w)"

definition no_key :: exn where
  "no_key = OperationException ''The key is not in the map''"

lemma use_table_run:
  "valid_ptr a (srv w) \<Longrightarrow> table_mutex (table_at a (srv w)) = Some i \<Longrightarrow> use_table i a acc w =
    (case used a acc w of Some w' \<Rightarrow> (Ok (), w') | None \<Rightarrow> (Exn no_key, w))"
  by (cases acc) (auto simp: runs on_held_run no_key_def split: option.splits)

lemma txn_use_run:
  "valid_ptr a (srv w) \<Longrightarrow> table_mutex (table_at a (srv w)) = Some i \<Longrightarrow> micro i (Txn_use a acc) w =
    (case used a acc w of Some w' \<Rightarrow> (Ok Reply, w') | None \<Rightarrow> (Ok (Raised no_key), w))"
  by (simp add: runs micro_simps use_table_run split: option.split)

lemma guard_enter_run:
  "valid_ptr a (srv w) \<Longrightarrow> micro i (Guard_enter a acc) w = (case table_mutex (table_at a (srv w)) of
     None \<Rightarrow> (Ok (Guard_use a acc), set_mutex a (Some i) w) | Some j \<Rightarrow> (Blocked, w))"
  by (cases "table_mutex (table_at a (srv w))")
     (simp_all add: runs on_srv_def tab_lock_def lock_table_def lock_at_free lock_at_held upd_table_def
       put_table_same)

lemma guard_use_run:
  "valid_ptr a (srv w) \<Longrightarrow> table_mutex (table_at a (srv w)) = Some i \<Longrightarrow> micro i (Guard_use a acc) w =
    (case used a acc w of Some w' \<Rightarrow> (Ok (after_use a acc), w') | None \<Rightarrow> (Ok (Guard_leave a (Some no_key)), w))"
  by (simp add: runs micro_simps use_table_run split: option.split)

lemma held_steps_run:
  assumes "valid_ptr a (srv w)" "table_mutex (table_at a (srv w)) = Some i"
  shows "micro i (Guard_commit a acc) w = (Ok (Guard_leave a None), upd_table a commit_changes w)"
    and "micro i (Guard_leave a e) w =
      (Ok (case e of None \<Rightarrow> Reply | Some x \<Rightarrow> Raised x), set_mutex a None w)"
    and "micro i (Commit_table (a # as)) w = (Ok (Commit_unlock a as), upd_table a commit_changes w)"
    and "micro i (Commit_unlock a as) w = (Ok (Commit_table as), set_mutex a None w)"
    and "micro i (Undo_table (a # as) u) w = (Ok (Undo_unlock a as u), upd_table a rollback_changes w)"
    and "micro i (Undo_unlock a as u) w = (Ok (Undo_table as u), set_mutex a None w)"
  using assms by (simp_all add: runs micro_simps on_held_run split: option.split)

lemma local_steps_run:
  "micro i Reply w = (Ok Ready, say ok_line w)"
  "micro i (Commit_table []) w = (Ok Reply, finish w)"
  "micro i (Raised (FailedTransaction e)) w = (Ok (Undo_table (locked_tables (conn w)) (Some e)), w)"
  "micro i (Raised (CommException e)) w = (Exn (CommException e), w)"
  "micro i (Raised (RuntimeError e)) w = (Exn (RuntimeError e), w)"
  "micro i (Undo_table [] None) w = (Ok Ended, w\<lparr>wire_open := False\<rparr>)"
  "micro i Closing w =
     (Ok (Undo_table (if m_in_transaction (conn w) then locked_tables (conn w) else []) None), w)"
  "micro i Ready w = (Blocked, w)" "micro i Ended w = (Blocked, w)"
  by (simp_all add: runs micro_simps modify_def)

text \<open>The responses that may not fit.\<close>

lemma text_steps_run:
  "micro i (Raised (OperationException e)) w = (case encode (Message FAILED [e]) of
     Inl x \<Rightarrow> (Exn x, w) | Inr b \<Rightarrow> (Ok Ready, say b w))"
  "micro i (Raised (InvalidMessage e)) w = (case encode (Message ERROR [e]) of
     Inl x \<Rightarrow> (Exn x, w) | Inr b \<Rightarrow> (Ok Closing, say b w))"
  "micro i (Undo_table [] (Some e)) w = (case encode (Message FAILED [e]) of
     Inl x \<Rightarrow> (Exn x, finish w) | Inr b \<Rightarrow> (Ok Ready, say b (finish w)))"
  by (simp_all add: runs send_message_run split: sum.split)

end
