(* ===== verification/ThreadSteps.thy ===== *)
theory ThreadSteps
  imports ThreadInv
begin

text \<open>
  Every step of a thread keeps its invariant and the frame of the others, and none is a race: the
  tables and the map are only touched by the thread that holds their mutex, and only mutexes it
  holds are unlocked.
\<close>

section \<open>The table map\<close>

lemma moved_map_lock:
  assumes "thread_inv i (Map_enter op) w" "table_lock (srv w) = None"
  shows "moved i w (Map_look op) (upd_srv ((srv w)\<lparr>table_lock := Some i\<rparr>) w)"
  using assms unfolding moved_def thread_inv_def th_frame_def frame_def by auto

lemma moved_map_unlock:
  assumes inv: "thread_inv i (Map_leave op r) w"
  shows "moved i w (after_map op r w) (upd_srv ((srv w)\<lparr>table_lock := None\<rparr>) w)"
proof -
  have "table_lock (srv w) = Some i"
    using thread_invD(7) [OF inv] by simp
  moreover have "place (after_map op r w) (upd_srv ((srv w)\<lparr>table_lock := None\<rparr>) w)"
    using thread_invD(8) [OF inv] srv_wfD(1) [OF thread_invD(1) [OF inv]]
    by (cases op; cases r) (auto simp: after_map_def guards_def)
  moreover have "owned (after_map op r w) ls = set ls \<and> \<not> in_map (after_map op r w) \<and> after_map op r w \<noteq> Ended" for ls
    by (cases op; cases r) (auto simp: after_map_def)
  ultimately show ?thesis
    using thread_invD(1-6) [OF inv] unfolding moved_def thread_inv_def th_frame_def frame_def by auto
qed

lemma moved_map_add:
  assumes inv: "thread_inv i (Map_look (Op_create n)) w" and new: "smap_find n (set_of_table (srv w)) = None"
  shows "moved i w (Map_leave (Op_create n) (Inr a)) (upd_srv (add_table n (srv w)) w)"
proof -
  have "length (table_heap (srv w)) \<notin> set (locked_tables (conn w))"
    using thread_invD(3) [OF inv] by (auto simp: valid_ptr_def)
  then show ?thesis
    using thread_invD [OF inv] new srv_wf_add [OF thread_invD(1) [OF inv] new]
    unfolding moved_def thread_inv_def th_frame_def frame_def by (auto simp: valid_ptr_add)
qed

section \<open>Taking and using tables\<close>

lemma moved_acquire:
  assumes inv: "thread_inv i (Txn_lock n a acc) w" and free: "table_mutex (table_at a (srv w)) = None"
  shows "moved i w (Txn_use a acc) (acquire i a w)"
proof -
  note D = thread_invD [OF inv]
  have ptr: "valid_ptr a (srv w)"
    using D(8) srv_wfD(1) [OF D(1)] by auto
  then have "srv_wf (put_table a ((table_at a (srv w))\<lparr>table_mutex := Some i\<rparr>) (srv w))"
    using D(1) by (intro srv_wf_put) (auto dest: srv_wfD)
  then show ?thesis
    using D ptr free unfolding moved_def thread_inv_def th_frame_def frame_def
    by (auto simp: set_insort_insert sorted_insort_insert distinct_insort_insert)
qed

lemma moved_txn_use:
  assumes inv: "thread_inv i (Txn_use a acc) w" and u: "used a acc w = Some w'"
  shows "moved i w Reply w'"
proof -
  note D = thread_invD [OF inv]
  have a: "a \<in> set (locked_tables (conn w))" "valid_ptr a (srv w)" "table_mutex (table_at a (srv w)) = Some i"
    using D(8) owned_valid [OF inv] by auto
  show ?thesis
  proof (cases acc)
    case (Get_key k)
    with u inv show ?thesis
      by (intro moved_local [OF inv]) auto
  next
    case (Set_key k v)
    with u a show ?thesis
      by (auto intro!: moved_table [OF inv])
  qed
qed

lemma moved_guard_enter:
  assumes inv: "thread_inv i (Guard_enter a acc) w" and free: "table_mutex (table_at a (srv w)) = None"
  shows "moved i w (Guard_use a acc) (set_mutex a (Some i) w)"
proof -
  note D = thread_invD [OF inv]
  have "valid_ptr a (srv w)" "locked_tables (conn w) = []"
    using D(6,8) by (auto simp: guards_def)
  then show ?thesis
    using free D(8) srv_wfD(4) [OF D(1), of a]
    by (intro moved_table [OF inv]) (auto simp: guards_def)
qed

lemma guard_facts:
  assumes "thread_inv i p w" "p \<in> {Guard_use a acc, Guard_commit a acc, Guard_leave a e}"
  shows "valid_ptr a (srv w)" "table_mutex (table_at a (srv w)) = Some i"
    "\<not> m_in_transaction (conn w)" "locked_tables (conn w) = []"
  using assms thread_invD(6,8) [OF assms(1)] owned_valid [OF assms(1), of a] by (auto simp: guards_def)

lemma table_set_temp: "key_value_temp t = [] \<Longrightarrow> key_value_temp (table_set k v t) = [(k, v)]"
  by (simp add: table_set_def)

lemma moved_guard_use:
  assumes inv: "thread_inv i (Guard_use a acc) w" and u: "used a acc w = Some w'"
  shows "moved i w (after_use a acc) w'"
proof -
  note G = guard_facts [OF inv, of a acc None, simplified] and D = thread_invD(8) [OF inv]
  show ?thesis
  proof (cases acc)
    case (Get_key k)
    with u D show ?thesis
      by (intro moved_local [OF inv]) (auto simp: guards_def)
  next
    case (Set_key k v)
    have "moved i w (Guard_commit a (Set_key k v)) (upd_table a (table_set k v) w)"
      using G D by (intro moved_table [OF inv]) (auto simp: guards_def table_set_temp)
    with u Set_key show ?thesis by simp
  qed
qed

lemma moved_guard_fail:
  assumes inv: "thread_inv i (Guard_use a acc) w"
  shows "moved i w (Guard_leave a (Some no_key)) w"
  using thread_invD(8) [OF inv] by (intro moved_local [OF inv]) (auto simp: no_key_def)

lemma moved_guard_commit:
  assumes inv: "thread_inv i (Guard_commit a acc) w"
  shows "moved i w (Guard_leave a None) (upd_table a commit_changes w)"
  using guard_facts [OF inv, of a acc None, simplified]
  by (intro moved_table [OF inv]) (auto simp: guards_def)

lemma moved_guard_leave:
  assumes inv: "thread_inv i (Guard_leave a e) w"
  shows "moved i w (case e of None \<Rightarrow> Reply | Some x \<Rightarrow> Raised x) (set_mutex a None w)"
proof -
  note G = guard_facts [OF inv, where acc = "Get_key []", simplified] and D = thread_invD(8) [OF inv]
  show ?thesis
    using G D by (cases e) (auto intro!: moved_table [OF inv])
qed

section \<open>Ending a transaction, table by table\<close>

lemma left_of_simps:
  "left_of [] w"
  "left_of as (upd_table b f w) = left_of as w"
  by (simp_all add: left_of_def)

lemma left_of_tl: "left_of (a # as) w \<Longrightarrow> left_of as w"
  unfolding left_of_def by (metis append.assoc append_Cons append_Nil)

lemma left_of_notin: "left_of (a # as) w \<Longrightarrow> distinct (locked_tables (conn w)) \<Longrightarrow> a \<notin> set as"
  by (auto simp: left_of_def)

text \<open>The changing and the unlocking half, the same for COMMIT and for both kinds of rollback.\<close>

lemma moved_end_table:
  assumes inv: "thread_inv i p w" and a: "a \<in> owned p (locked_tables (conn w))"
    and p': "owned p' (locked_tables (conn w)) = owned p (locked_tables (conn w))" "in_map p' = in_map p"
      "place p' (upd_table a f w)" "p' \<noteq> Ended"
    and f: "f = commit_changes \<or> f = rollback_changes"
  shows "moved i w p' (upd_table a f w)"
  using owned_valid [OF inv a] f p' a by (intro moved_table [OF inv]) auto

lemma moved_end_unlock:
  assumes inv: "thread_inv i p w" and a: "a \<in> owned p (locked_tables (conn w))"
    and p': "owned p' (locked_tables (conn w)) = owned p (locked_tables (conn w)) - {a}" "in_map p' = in_map p"
      "place p' (set_mutex a None w)" "p' \<noteq> Ended"
    and "key_value_temp (table_at a (srv w)) = []"
  shows "moved i w p' (set_mutex a None w)"
  using owned_valid [OF inv a] assms by (intro moved_table [OF inv]) auto

lemma moved_ending:
  "thread_inv i (Commit_table (a # as)) w \<Longrightarrow> moved i w (Commit_unlock a as) (upd_table a commit_changes w)"
  "thread_inv i (Commit_unlock a as) w \<Longrightarrow> moved i w (Commit_table as) (set_mutex a None w)"
  "thread_inv i (Undo_table (a # as) u) w \<Longrightarrow> moved i w (Undo_unlock a as u) (upd_table a rollback_changes w)"
  "thread_inv i (Undo_unlock a as u) w \<Longrightarrow> moved i w (Undo_table as u) (set_mutex a None w)"
proof -
  have valid: "valid_ptr a (srv w)" if "thread_inv i p w" "a \<in> owned p (locked_tables (conn w))" for p
    using owned_valid(1) [OF that] .
  note left = left_of_simps left_of_tl left_of_notin
  show "moved i w (Commit_unlock a as) (upd_table a commit_changes w)" if "thread_inv i (Commit_table (a # as)) w"
    using valid [OF that] thread_invD(8) [OF that] by (intro moved_end_table [OF that]) (auto simp: left)
  show "moved i w (Commit_table as) (set_mutex a None w)" if "thread_inv i (Commit_unlock a as) w"
    using thread_invD(5,8) [OF that] by (intro moved_end_unlock [OF that]) (auto simp: left(2) dest: left(3,4))
  show "moved i w (Undo_unlock a as u) (upd_table a rollback_changes w)" if "thread_inv i (Undo_table (a # as) u) w"
    using valid [OF that] thread_invD(8) [OF that] by (intro moved_end_table [OF that]) (auto simp: left)
  show "moved i w (Undo_table as u) (set_mutex a None w)" if "thread_inv i (Undo_unlock a as u) w"
    using thread_invD(5,8) [OF that] by (intro moved_end_unlock [OF that]) (auto simp: left(2) dest: left(3,4))
qed

lemma finished_inv:
  assumes inv: "thread_inv i p w" and "owned p (locked_tables (conn w)) = {}" "\<not> in_map p"
    and "owned p' [] = {}" "\<not> in_map p'" "p' \<noteq> Ended" "place p' (finish w)"
  shows "moved i w p' (finish w)"
  using assms thread_invD [OF inv] unfolding moved_def thread_inv_def by auto

section \<open>Every step\<close>

text \<open>Where a thread can be made to wait, and by whom.\<close>

fun waits_at :: "tid \<Rightarrow> pc \<Rightarrow> server \<Rightarrow> tid option" where
  "waits_at i (Map_enter op) s = table_lock s"
| "waits_at i (Guard_enter a acc) s = table_mutex (table_at a s)"
| "waits_at i p s = None"

definition resting :: "pc \<Rightarrow> bool" where
  "resting p \<longleftrightarrow> p \<in> {Ready, Ended}"

text \<open>The outcome of a step, whatever it is.\<close>

definition step_fine :: "tid \<Rightarrow> pc \<Rightarrow> world \<Rightarrow> pc res \<times> world \<Rightarrow> bool" where
  "step_fine i p w rw = (case rw of
       (Ok p', w') \<Rightarrow> moved i w p' w'
     | (Exn e, w') \<Rightarrow> srv w' = srv w \<and> wire w' = wire w
     | (Blocked, w') \<Rightarrow> w' = w \<and> (resting p \<or> waits_at i p (srv w) \<noteq> None)
     | (Undef, w') \<Rightarrow> False)"

lemma step_fine_simps [simp]:
  "step_fine i p w (Ok p', w') = moved i w p' w'"
  "step_fine i p w (Exn e, w') = (srv w' = srv w \<and> wire w' = wire w)"
  "step_fine i p w (Blocked, w') = (w' = w \<and> (resting p \<or> waits_at i p (srv w) \<noteq> None))"
  "\<not> step_fine i p w (Undef, w')"
  by (simp_all add: step_fine_def)

lemma micro_fine_map:
  "thread_inv i (Map_enter op) w \<Longrightarrow> step_fine i (Map_enter op) w (micro i (Map_enter op) w)"
  "thread_inv i (Map_look op) w \<Longrightarrow> step_fine i (Map_look op) w (micro i (Map_look op) w)"
  "thread_inv i (Map_leave op r) w \<Longrightarrow> step_fine i (Map_leave op r) w (micro i (Map_leave op r) w)"
proof -
  show "thread_inv i (Map_enter op) w \<Longrightarrow> step_fine i (Map_enter op) w (micro i (Map_enter op) w)"
    by (auto simp: map_enter_run moved_map_lock simp del: micro.simps split: option.split)
  show "step_fine i (Map_look op) w (micro i (Map_look op) w)" if inv: "thread_inv i (Map_look op) w"
  proof -
    have l: "table_lock (srv w) = Some i"
      using thread_invD(7) [OF inv] by simp
    have stay: "moved i w (Map_leave op r) w" if "place (Map_leave op r) w" for r
      using that by (intro moved_local [OF inv]) (auto simp: moved_def)
    show ?thesis
    proof (cases op)
      case (Op_create n)
      with inv l stay show ?thesis
        by (auto simp: map_look_create_run moved_map_add simp del: micro.simps)
    next
      case (Op_find n acc)
      with l stay show ?thesis
        by (auto simp: map_look_find_run simp del: micro.simps split: option.split)
    qed
  qed
  show "step_fine i (Map_leave op r) w (micro i (Map_leave op r) w)" if inv: "thread_inv i (Map_leave op r) w"
    using moved_map_unlock [OF inv] thread_invD(7) [OF inv] by (simp add: map_leave_run del: micro.simps)
qed

lemma txn_facts:
  assumes "thread_inv i p w" "p \<in> {Txn_lock n a acc, Txn_use a acc}"
  shows "valid_ptr a (srv w)" "m_in_transaction (conn w)"
    "p = Txn_use a acc \<Longrightarrow> table_mutex (table_at a (srv w)) = Some i"
  using assms thread_invD(3,8) [OF assms(1)] srv_wfD(1) [OF thread_invD(1) [OF assms(1)]]
    owned_valid [OF assms(1), of a] by auto

lemma micro_fine_txn:
  "thread_inv i (Txn_lock n a acc) w \<Longrightarrow> step_fine i (Txn_lock n a acc) w (micro i (Txn_lock n a acc) w)"
  "thread_inv i (Txn_use a acc) w \<Longrightarrow> step_fine i (Txn_use a acc) w (micro i (Txn_use a acc) w)"
proof -
  show "step_fine i (Txn_lock n a acc) w (micro i (Txn_lock n a acc) w)" if inv: "thread_inv i (Txn_lock n a acc) w"
  proof -
    note T = txn_facts [OF inv, of n a acc, simplified]
    have "moved i w (Txn_use a acc) w" if "a \<in> set (locked_tables (conn w))"
      using that T by (intro moved_local [OF inv]) auto
    moreover have "moved i w (Raised (FailedTransaction t)) w" for t
      using T by (intro moved_local [OF inv]) auto
    ultimately show ?thesis
      using T moved_acquire [OF inv] by (simp add: txn_lock_run del: micro.simps)
  qed
  show "step_fine i (Txn_use a acc) w (micro i (Txn_use a acc) w)" if inv: "thread_inv i (Txn_use a acc) w"
  proof -
    note T = txn_facts [OF inv, of _ a acc, simplified]
    have "moved i w (Raised no_key) w"
      using T by (intro moved_local [OF inv]) (auto simp: no_key_def)
    then show ?thesis
      using T moved_txn_use [OF inv] by (simp add: txn_use_run del: micro.simps split: option.split)
  qed
qed

lemma micro_fine_guard:
  "thread_inv i (Guard_enter a acc) w \<Longrightarrow> step_fine i (Guard_enter a acc) w (micro i (Guard_enter a acc) w)"
  "thread_inv i (Guard_use a acc) w \<Longrightarrow> step_fine i (Guard_use a acc) w (micro i (Guard_use a acc) w)"
  "thread_inv i (Guard_commit a acc) w \<Longrightarrow> step_fine i (Guard_commit a acc) w (micro i (Guard_commit a acc) w)"
  "thread_inv i (Guard_leave a e) w \<Longrightarrow> step_fine i (Guard_leave a e) w (micro i (Guard_leave a e) w)"
proof -
  show "step_fine i (Guard_enter a acc) w (micro i (Guard_enter a acc) w)" if inv: "thread_inv i (Guard_enter a acc) w"
    using moved_guard_enter [OF inv] thread_invD(8) [OF inv]
    by (auto simp: guard_enter_run guards_def simp del: micro.simps split: option.split)
  show "step_fine i (Guard_use a acc) w (micro i (Guard_use a acc) w)" if inv: "thread_inv i (Guard_use a acc) w"
    using moved_guard_use [OF inv] moved_guard_fail [OF inv] guard_facts [OF inv, of a acc None, simplified]
    by (simp add: guard_use_run del: micro.simps split: option.split)
  show "step_fine i (Guard_commit a acc) w (micro i (Guard_commit a acc) w)" if inv: "thread_inv i (Guard_commit a acc) w"
    using moved_guard_commit [OF inv] guard_facts [OF inv, of a acc None, simplified]
    by (simp add: held_steps_run del: micro.simps)
  show "step_fine i (Guard_leave a e) w (micro i (Guard_leave a e) w)" if inv: "thread_inv i (Guard_leave a e) w"
    using moved_guard_leave [OF inv] guard_facts [OF inv, where acc = "Get_key []", simplified]
    by (simp add: held_steps_run del: micro.simps)
qed

lemma micro_fine_end:
  "thread_inv i (Commit_table as) w \<Longrightarrow> step_fine i (Commit_table as) w (micro i (Commit_table as) w)"
  "thread_inv i (Commit_unlock a as) w \<Longrightarrow> step_fine i (Commit_unlock a as) w (micro i (Commit_unlock a as) w)"
  "thread_inv i (Undo_table as u) w \<Longrightarrow> step_fine i (Undo_table as u) w (micro i (Undo_table as u) w)"
  "thread_inv i (Undo_unlock a as u) w \<Longrightarrow> step_fine i (Undo_unlock a as u) w (micro i (Undo_unlock a as u) w)"
proof -
  have fin: "moved i w p' (finish w)" if "thread_inv i p w" "p = Commit_table [] \<or> p = Undo_table [] u" "p' = Reply \<or> p' = Ready" for p p' u
    using that by (intro finished_inv [OF that(1)]) auto
  have close: "moved i w Ended (w\<lparr>wire_open := False\<rparr>)" if "thread_inv i (Undo_table [] None) w"
    using that by (intro moved_local [OF that]) auto
  show "step_fine i (Commit_table as) w (micro i (Commit_table as) w)" if inv: "thread_inv i (Commit_table as) w"
    using inv moved_ending(1) [of i _ _ w] fin [OF inv, of None Reply] owned_valid [OF inv]
    by (cases as) (simp_all add: held_steps_run local_steps_run del: micro.simps)
  show "step_fine i (Commit_unlock a as) w (micro i (Commit_unlock a as) w)" if inv: "thread_inv i (Commit_unlock a as) w"
    using moved_ending(2) [OF inv] owned_valid [OF inv] by (simp add: held_steps_run del: micro.simps)
  show "step_fine i (Undo_table as u) w (micro i (Undo_table as u) w)" if inv: "thread_inv i (Undo_table as u) w"
  proof (cases as)
    case Nil
    then show ?thesis
    proof (cases u)
      case None
      with Nil inv close show ?thesis by (simp add: local_steps_run del: micro.simps)
    next
      case (Some e)
      with Nil fin [OF inv, of u Ready] show ?thesis
        by (auto simp: text_steps_run moved_say simp del: micro.simps split: sum.split)
    qed
  next
    case (Cons b bs)
    with inv moved_ending(3) [of i b bs u w] owned_valid [OF inv] show ?thesis
      by (simp add: held_steps_run del: micro.simps)
  qed
  show "step_fine i (Undo_unlock a as u) w (micro i (Undo_unlock a as u) w)" if inv: "thread_inv i (Undo_unlock a as u) w"
    using moved_ending(4) [OF inv] owned_valid [OF inv] by (simp add: held_steps_run del: micro.simps)
qed

lemma micro_fine_local:
  "thread_inv i Reply w \<Longrightarrow> step_fine i Reply w (micro i Reply w)"
  "thread_inv i Closing w \<Longrightarrow> step_fine i Closing w (micro i Closing w)"
  "thread_inv i (Raised e) w \<Longrightarrow> step_fine i (Raised e) w (micro i (Raised e) w)"
proof -
  show "thread_inv i Reply w \<Longrightarrow> step_fine i Reply w (micro i Reply w)"
    by (auto simp: local_steps_run simp del: micro.simps intro: moved_local)
  show "step_fine i Closing w (micro i Closing w)" if inv: "thread_inv i Closing w"
    using thread_invD(6) [OF inv]
    by (auto simp: local_steps_run left_of_def simp del: micro.simps intro!: moved_local [OF inv])
  show "step_fine i (Raised e) w (micro i (Raised e) w)" if inv: "thread_inv i (Raised e) w"
    using thread_invD(8) [OF inv]
    by (cases e) (auto simp: text_steps_run local_steps_run left_of_def simp del: micro.simps
        split: sum.split intro!: moved_local [OF inv])
qed

lemma micro_fine: "thread_inv i p w \<Longrightarrow> step_fine i p w (micro i p w)"
proof (cases p)
  case Ready
  then show ?thesis by (simp add: local_steps_run resting_def del: micro.simps)
next
  case Ended
  then show ?thesis by (simp add: local_steps_run resting_def del: micro.simps)
qed (simp_all add: micro_fine_map micro_fine_txn micro_fine_guard micro_fine_end micro_fine_local del: micro.simps)

end
