(* ===== verification/ThreadTurn.thy ===== *)
theory ThreadTurn
  imports ThreadSteps ChatFacts
begin

text \<open>
  The first step of a turn: what it does to the thread's own state, and that it is undefined for one
  reason only, an arithmetic result that is no int.
\<close>

section \<open>Requests that touch nothing shared\<close>

fun plain_exn :: "exn \<Rightarrow> world \<Rightarrow> bool" where
  "plain_exn (OperationException t) w = True"
| "plain_exn (InvalidMessage t) w = True"
| "plain_exn (FailedTransaction t) w = m_in_transaction (conn w)"
| "plain_exn e w = False"

definition local_step :: "world \<Rightarrow> 'a res \<times> world \<Rightarrow> bool" where
  "local_step w rw \<longleftrightarrow> srv (snd rw) = srv w
     \<and> locked_tables (conn (snd rw)) = locked_tables (conn w)
     \<and> (m_in_transaction (conn w) \<longrightarrow> m_in_transaction (conn (snd rw)))
     \<and> wire_open (snd rw) = wire_open w
     \<and> (case fst rw of Blocked \<Rightarrow> False | Exn e \<Rightarrow> plain_exn e w | _ \<Rightarrow> True)"

lemma local_step_seq_ret: "local_step w (m w) \<Longrightarrow> local_step w (seq m (ret b) w)" for m :: "(world, unit) prog"
  by (cases "fst (m w)") (simp_all add: local_step_def seq_ret_fst seq_ret_snd)

lemma local_step_send: "local_step w (send_message msg w)"
  by (auto simp: local_step_def send_message_run dest!: encode_Inl split: sum.split)

definition int_result :: "(int \<Rightarrow> int \<Rightarrow> (world, int) prog) \<Rightarrow> bool" where
  "int_result f \<longleftrightarrow> (\<forall>a b w. snd (f a b w) = w \<and>
     (case fst (f a b w) of Blocked \<Rightarrow> False | Exn e \<Rightarrow> (\<exists>t. e = OperationException t) | _ \<Rightarrow> True))"

lemma local_step_binary:
  assumes "int_result f"
  shows "local_step w (binary_operation msg f w)"
proof (cases "operands w" rule: list_two_cases)
  case few
  then show ?thesis by (simp add: binary_operation_few local_step_def)
next
  case (two r l vs)
  let ?w = "drop_value (drop_value w)"
  have f: "\<exists>x. f a b ?w = (x, ?w) \<and> (case x of Blocked \<Rightarrow> False | Exn e \<Rightarrow> (\<exists>t. e = OperationException t) | _ \<Rightarrow> True)" for a b
    using assms by (auto simp: int_result_def intro!: exI [of _ "fst (f a b ?w)"] prod_eqI)
  show ?thesis
  proof (cases "\<exists>a b. stoi l = Inr a \<and> stoi r = Inr b")
    case True
    then obtain a b x where "stoi l = Inr a" "stoi r = Inr b" "f a b ?w = (x, ?w)"
      "case x of Blocked \<Rightarrow> False | Exn e \<Rightarrow> (\<exists>t. e = OperationException t) | _ \<Rightarrow> True"
      using f by blast
    then show ?thesis
      by (cases x) (auto simp: binary_operation_run [OF two] Let_def local_step_def)
  next
    case False
    then show ?thesis
      by (auto simp: binary_operation_run [OF two] Let_def local_step_def split: sum.split stoi_error.split)
  qed
qed

lemma int_result_ops:
  "int_result (\<lambda>a b. of_option (g a b))"
  "int_result (\<lambda>a b. if b = 0 then throw (OperationException t) else of_option (g a b))"
  by (auto simp: int_result_def of_option_fst basic_runs split: option.split)

lemma local_step_arith: "local_step w (arith_handler t w)"
  by (simp add: arith_handler_def handle_add_def handle_sub_def handle_mul_def handle_div_def
      local_step_binary int_result_ops)

lemma local_step_simple:
  "local_step w (handle_login msg w)" "local_step w (handle_bye msg w)" "local_step w (handle_pop msg w)"
  "local_step w (handle_top msg w)" "local_step w (handle_begin w)"
  "get_value msg \<noteq> None \<Longrightarrow> local_step w (handle_push msg w)"
proof -
  show "get_value msg \<noteq> None \<Longrightarrow> local_step w (handle_push msg w)"
    by (auto simp: local_step_def handle_push_run)
  show "local_step w (handle_top msg w)"
    using local_step_send [of w] by (cases "operands w") (simp_all add: handle_top_run, simp add: local_step_def)
  show "local_step w (handle_pop msg w)"
    by (cases "operands w") (simp_all add: handle_pop_run local_step_def)
qed (simp_all add: local_step_def handle_login_run handle_bye_run handle_begin_run)

definition map_request :: "message_type \<Rightarrow> bool" where
  "map_request t \<longleftrightarrow> t \<in> {CREATE, GET, SET, COMMIT}"

lemma dispatch_local:
  assumes "\<not> map_request (get_message_type req)" "is_valid req"
  shows "local_step w (dispatch i req w)"
proof -
  have "local_step w (seq handle_add (ret True) w)" "local_step w (seq handle_sub (ret True) w)"
    "local_step w (seq handle_mul (ret True) w)" "local_step w (seq handle_div (ret True) w)"
    using local_step_arith [of w ADD] local_step_arith [of w SUB] local_step_arith [of w MUL] local_step_arith [of w DIV]
    by (simp_all add: arith_handler_def local_step_seq_ret)
  then show ?thesis
    using assms(1) valid_accessors [OF assms(2), folded get_message_type_def]
    by (cases "get_message_type req")
       (auto simp: dispatch_def map_request_def basic_runs local_step_def [of w "(Exn _, w)"]
         intro!: local_step_seq_ret local_step_simple)
qed

text \<open>Such a request is undefined exactly when its arithmetic overflows.\<close>

lemma dispatch_local_undef:
  assumes "\<not> map_request (get_message_type req)" "is_valid req"
  shows "fst (dispatch i req w) = Undef \<longleftrightarrow> overflows req w"
proof (cases "get_message_type req \<in> {ADD, SUB, MUL, DIV}")
  case True
  then show ?thesis
    using arith_outcome [OF True, of w] by (cases "overflows req w") (auto simp: dispatch_arith seq_ret_fst calm_def split: res.splits)
next
  case False
  have "fst (handle_top req w) \<noteq> Undef"
    by (cases "operands w") (auto simp: handle_top_run send_text split: sum.split)
  moreover have "fst (handle_pop req w) \<noteq> Undef"
    by (cases "operands w") (simp_all add: handle_pop_run)
  ultimately show ?thesis
    using False assms(1) overflows_other [OF False] valid_accessors(3) [OF assms(2), folded get_message_type_def]
    by (cases "get_message_type req")
       (auto simp: dispatch_def map_request_def basic_runs seq_ret_fst handle_login_run handle_bye_run
         handle_begin_run handle_push_run split: res.splits)
qed

section \<open>The first step\<close>

text \<open>What \<open>begin_turn\<close> leaves: its place and its world, or undefined behaviour on an overflow.\<close>

definition begin_fine :: "tid \<Rightarrow> string \<Rightarrow> world \<Rightarrow> pc res \<times> world \<Rightarrow> bool" where
  "begin_fine i buf w rw = (case rw of
       (Ok p, w') \<Rightarrow> moved i w p w'
     | (Undef, w') \<Rightarrow> srv w' = srv w \<and> (\<exists>req. admitted buf w = Some req \<and> overflows req w)
     | _ \<Rightarrow> False)"

lemma begin_fine_simps [simp]:
  "begin_fine i buf w (Ok p, w') = moved i w p w'"
  "begin_fine i buf w (Undef, w') \<longleftrightarrow> srv w' = srv w \<and> (\<exists>req. admitted buf w = Some req \<and> overflows req w)"
  "\<not> begin_fine i buf w (Exn e, w')" "\<not> begin_fine i buf w (Blocked, w')"
  by (simp_all add: begin_fine_def)

lemma begin_turn_run: "begin_turn i buf w = (case admitted buf w of
     Some req \<Rightarrow> raising (start_request i req) w
   | None \<Rightarrow> (Ok (Raised (case decode (c_str buf) of Inl e \<Rightarrow> e | Inr req \<Rightarrow> OperationException not_logged_in)), w))"
  by (auto simp: begin_turn_def admitted_def runs micro_simps not_logged_in_def split: sum.split)

lemma start_map_request:
  assumes valid: "is_valid req" and inv: "thread_inv i Ready w"
  shows "get_message_type req = CREATE \<Longrightarrow> get_table req = Some n \<Longrightarrow>
      raising (start_request i req) w = (Ok (Map_enter (Op_create n)), w)"
    and "get_message_type req = GET \<Longrightarrow> get_table req = Some n \<Longrightarrow> get_key req = Some k \<Longrightarrow>
      raising (start_request i req) w = (Ok (Map_enter (Op_find n (Get_key k))), w)"
    and "get_message_type req = SET \<Longrightarrow> get_table req = Some n \<Longrightarrow> get_key req = Some k \<Longrightarrow>
      raising (start_request i req) w = (case operands w of
        [] \<Rightarrow> (Ok (Raised (OperationException ''The stack is empty!'')), w)
      | v # vs \<Rightarrow> (Ok (Map_enter (Op_find n (Set_key k v))), drop_value w))"
    and "get_message_type req = COMMIT \<Longrightarrow> raising (start_request i req) w =
      (if m_in_transaction (conn w) then (Ok (Commit_table (locked_tables (conn w))), w)
       else (Ok (Raised (OperationException ''Not in a transaction'')), w))"
  by (auto simp: start_request_def runs micro_simps vs.is_emp_iff operands_def [symmetric] split: list.split)

lemma start_local_request:
  assumes "\<not> map_request (get_message_type req)"
  shows "raising (start_request i req) w = (case dispatch i req w of
      (Ok active, w') \<Rightarrow> (Ok (if active then Ready else Closing), w')
    | (Exn e, w') \<Rightarrow> (Ok (Raised e), w') | (Blocked, w') \<Rightarrow> (Blocked, w') | (Undef, w') \<Rightarrow> (Undef, w'))"
  using assms
  by (cases "get_message_type req")
     (simp_all add: start_request_def map_request_def runs micro_simps split: prod.split res.split)

lemma begin_turn_fine:
  assumes inv: "thread_inv i Ready w"
  shows "begin_fine i buf w (begin_turn i buf w)"
proof (cases "admitted buf w")
  case None
  have "place (Raised (case decode (c_str buf) of Inl e \<Rightarrow> e | Inr req \<Rightarrow> OperationException t)) w" for t
    by (auto dest!: decode_texts split: sum.split)
  then have "moved i w (Raised (case decode (c_str buf) of Inl e \<Rightarrow> e | Inr req \<Rightarrow> OperationException t)) w" for t
    by (intro moved_local [OF inv]) auto
  with None show ?thesis
    by (simp add: begin_turn_run)
next
  case (Some req)
  then have valid: "is_valid req"
    using admittedD by blast
  note acc = valid_accessors [OF valid, folded get_message_type_def]
  have run: "begin_turn i buf w = raising (start_request i req) w"
    using Some by (simp add: begin_turn_run)
  have stay: "moved i w p w'" if "srv w' = srv w" "locked_tables (conn w') = locked_tables (conn w)"
    "m_in_transaction (conn w) \<Longrightarrow> m_in_transaction (conn w')" "wire_open w' = wire_open w"
    "owned p (locked_tables (conn w)) = set (locked_tables (conn w))" "\<not> in_map p" "place p w'" "p \<noteq> Ended" for p w'
    using that by (intro moved_local [OF inv]) auto
  show ?thesis
  proof (cases "map_request (get_message_type req)")
    case True
    then show ?thesis
      unfolding run map_request_def using acc(1,2)
      by (auto simp: start_map_request [OF valid inv] left_of_def split: list.split intro!: stay)
  next
    case False
    obtain r w' where d: "dispatch i req w = (r, w')"
      by (cases "dispatch i req w")
    note L = dispatch_local [OF False valid, of w i, unfolded d local_step_def]
    have "place (Raised e) w'" if "r = Exn e" for e
      using L that by (cases e) auto
    then show ?thesis
      unfolding run start_local_request [OF False] d
      using L Some dispatch_local_undef [OF False valid, of i w] d
      by (cases r) (auto intro!: stay)
  qed
qed

end
