(* ===== verification/ThreadSafe.thy ===== *)
theory ThreadSafe
  imports ThreadTurn
begin

text \<open>
  The invariant of every reachable state of the interleaved threads, and what it gives: no data
  race, no deadlock, and a bound on the steps of a turn.
\<close>

section \<open>The invariant\<close>

definition unowned :: "tid \<Rightarrow> server \<Rightarrow> bool" where
  "unowned i s \<longleftrightarrow> (\<forall>a. valid_ptr a s \<longrightarrow> table_mutex (table_at a s) \<noteq> Some i) \<and> table_lock s \<noteq> Some i"

definition th_inv :: "threads \<Rightarrow> bool" where
  "th_inv T \<longleftrightarrow> srv_wf (sys_srv (th_sys T))
     \<and> (\<forall>i. sessions (th_sys T) i \<noteq> None \<longrightarrow> i < next_tid (th_sys T))
     \<and> (status (th_sys T) = Running \<longrightarrow>
          (\<forall>i. if live i (th_sys T) then thread_inv i (th_pc T i) (world_of i (th_sys T))
               else unowned i (sys_srv (th_sys T))))"

lemma th_invD:
  assumes "th_inv T"
  shows "srv_wf (sys_srv (th_sys T))"
    and "\<And>i. sessions (th_sys T) i \<noteq> None \<Longrightarrow> i < next_tid (th_sys T)"
    and "\<And>i. runnable i T \<Longrightarrow> thread_inv i (th_pc T i) (world_of i (th_sys T))"
    and "\<And>i. status (th_sys T) = Running \<Longrightarrow> \<not> live i (th_sys T) \<Longrightarrow> unowned i (sys_srv (th_sys T))"
  using assms unfolding th_inv_def runnable_def by (auto split: if_splits)

lemma unowned_frame: "unowned j s \<Longrightarrow> th_frame i s s' \<Longrightarrow> j \<noteq> i \<Longrightarrow> unowned j s'"
  using frameD(5) [of i s s' _ j] by (auto simp: unowned_def th_frame_def)

lemma thread_inv_unowned:
  "thread_inv i p w \<Longrightarrow> owned p (locked_tables (conn w)) = {} \<Longrightarrow> \<not> in_map p \<Longrightarrow> unowned i (srv w)"
  using thread_invD(2,7) [of i p w] by (auto simp: unowned_def)

lemma unowned_new: "srv_wf s \<Longrightarrow> unowned i s \<Longrightarrow> thread_inv i Ready (world_new s fd)"
  by (auto simp: thread_inv_def unowned_def world_new_def connection_new_def)

section \<open>Every step keeps it\<close>

lemma th_inv_moved:
  assumes inv: "th_inv T" and run: "runnable i T" and m: "moved i (world_of i (th_sys T)) p w"
  shows "th_inv (T\<lparr>th_sys := put_world i w (th_sys T), th_pc := (th_pc T)(i := p)\<rparr>)"
proof -
  let ?\<sigma> = "th_sys T"
  have st: "status ?\<sigma> = Running" "live i ?\<sigma>" and op: "wire_open (world_of i ?\<sigma>)"
    using run world_of_open by (auto simp: runnable_def)
  have w: "thread_inv i p w" "th_frame i (sys_srv ?\<sigma>) (srv w)" "wire_open w = (p \<noteq> Ended)"
    using m op by (auto simp: moved_def)
  have "thread_inv j (th_pc T j) ((world_of j ?\<sigma>)\<lparr>srv := srv w\<rparr>)" if "live j ?\<sigma>" "j \<noteq> i" for j
    using thread_inv_frame [of j _ "world_of j ?\<sigma>" i "srv w"] th_invD(3) [OF inv, of j] that w st
      thread_invD(1) [OF w(1)] by (simp add: runnable_def)
  moreover have "unowned j (srv w)" if "\<not> live j ?\<sigma>" "j \<noteq> i" for j
    using unowned_frame [OF th_invD(4) [OF inv st(1) that(1)] w(2) that(2)] .
  moreover have "unowned i (srv w)" if "\<not> wire_open w"
    using thread_inv_unowned [OF w(1)] w(3) that by simp
  moreover have "i < next_tid ?\<sigma>"
    using th_invD(2) [OF inv] st(2) by (auto simp: live_Some)
  ultimately show ?thesis
    using thread_invD(1) [OF w(1)] w(1) th_invD(2) [OF inv] unfolding th_inv_def
    by (auto simp: world_of_put_other)
qed

text \<open>A step after which the process no longer runs.\<close>

lemma th_inv_stopped:
  assumes "th_inv T" "live i (th_sys T)" "srv w = sys_srv (th_sys T)" "st \<noteq> Running"
  shows "th_inv (T\<lparr>th_sys := (put_world i w (th_sys T))\<lparr>status := st\<rparr>\<rparr>)"
  using assms th_invD(2) [OF assms(1)] unfolding th_inv_def by (auto simp: live_Some)

lemma th_inv_put:
  assumes inv: "th_inv T" and run: "runnable i T" and put: "put_thread i (r, w) T = Some T'"
    and ok: "\<And>p. r = Ok p \<Longrightarrow> moved i (world_of i (th_sys T)) p w"
      "\<And>e. r = Exn e \<Longrightarrow> srv w = sys_srv (th_sys T)" "r = Undef \<Longrightarrow> srv w = sys_srv (th_sys T)"
  shows "th_inv T'"
  using put th_inv_moved [OF inv run] th_inv_stopped [OF inv] run ok
  by (cases r) (auto simp: put_thread_def runnable_def)

lemma accept_eq:
  "accept_connection fd created \<sigma> = (if fd < 0 then \<sigma>\<lparr>status := Exited 0\<rparr>
     else put_world (next_tid \<sigma>) ((world_new (sys_srv \<sigma>) fd)\<lparr>wire_open := created\<rparr>)
       (if created then \<sigma>\<lparr>next_tid := Suc (next_tid \<sigma>)\<rparr>
        else log_error ''Could not create client thread'' (\<sigma>\<lparr>next_tid := Suc (next_tid \<sigma>)\<rparr>)))"
proof -
  have "connection_destroy i (world_new s fd) = (Ok (), (world_new s fd)\<lparr>wire_open := False\<rparr>)" for i s
    by (simp add: connection_destroy_def runs modify_def world_new_def connection_new_def)
  moreover have "(world_new s fd)\<lparr>wire_open := True\<rparr> = world_new s fd" for s
    by (simp add: world_new_def)
  ultimately show ?thesis
    by (simp add: accept_connection_def close_session_def Let_def log_error_def)
qed

lemma th_inv_accept:
  assumes inv: "th_inv T" and run: "status (th_sys T) = Running"
  shows "th_inv (T\<lparr>th_sys := accept_connection fd created (th_sys T),
    th_pc := (th_pc T)(next_tid (th_sys T) := Ready)\<rparr>)"
proof -
  let ?\<sigma> = "th_sys T" and ?i = "next_tid (th_sys T)"
  have none: "sessions ?\<sigma> ?i = None"
    using th_invD(2) [OF inv, of ?i] by blast
  then have dead: "unowned ?i (sys_srv ?\<sigma>)"
    using th_invD(4) [OF inv run, of ?i] by (simp add: live_Some)
  have new: "thread_inv ?i Ready (world_new (sys_srv ?\<sigma>) fd)"
    using unowned_new [OF th_invD(1) [OF inv] dead] .
  have keep: "(world_new (sys_srv ?\<sigma>) fd)\<lparr>wire_open := True\<rparr> = world_new (sys_srv ?\<sigma>) fd"
    by (simp add: world_new_def)
  have ne: "j \<noteq> ?i" if "live j ?\<sigma>" for j
    using that none by (auto simp: live_Some)
  have "w\<lparr>srv := srv w\<rparr> = w" for w :: world
    by simp
  from this [of "world_of _ ?\<sigma>"]
  have "thread_inv j (th_pc T j) ((world_of j ?\<sigma>)\<lparr>srv := sys_srv ?\<sigma>\<rparr>)" if "live j ?\<sigma>" for j
    using th_invD(3) [OF inv, of j] run that by (simp only: runnable_def world_of_srv)
  moreover have "j < Suc ?i" if "sessions ?\<sigma> j \<noteq> None" for j
    using th_invD(2) [OF inv that] by simp
  ultimately show ?thesis
    using th_invD(1,2,4) [OF inv] new dead keep ne run unfolding th_inv_def
    by (auto simp: accept_eq world_of_put_other world_new_def)
qed

lemma th_inv_eof:
  assumes inv: "th_inv T" and run: "runnable i T" and pc: "th_pc T i = Ready"
  shows "th_inv (T\<lparr>th_pc := (th_pc T)(i := Closing)\<rparr>)"
proof -
  have "thread_inv i Closing (world_of i (th_sys T))"
    using th_invD(3) [OF inv run] pc by (simp add: thread_inv_def)
  then show ?thesis
    using th_invD [OF inv] run unfolding th_inv_def by (simp add: runnable_def)
qed

lemma th_inv_line:
  assumes "th_inv T" "runnable i T" "th_pc T i = Ready"
    and "put_thread i (begin_turn i buf (world_of i (th_sys T))) T = Some T'"
  shows "th_inv T'"
proof (cases "begin_turn i buf (world_of i (th_sys T))")
  case (Pair r w)
  have "begin_fine i buf (world_of i (th_sys T)) (r, w)"
    using begin_turn_fine [of i "world_of i (th_sys T)" buf] th_invD(3) [OF assms(1,2)] assms(3) Pair by simp
  then show ?thesis
    using th_inv_put [OF assms(1,2), of r w T'] assms(4) Pair by (cases r) auto
qed

lemma th_inv_run:
  assumes "th_inv T" "runnable i T"
    and "put_thread i (micro i (th_pc T i) (world_of i (th_sys T))) T = Some T'"
  shows "th_inv T'"
proof (cases "micro i (th_pc T i) (world_of i (th_sys T))")
  case (Pair r w)
  have "step_fine i (th_pc T i) (world_of i (th_sys T)) (r, w)"
    using micro_fine [OF th_invD(3) [OF assms(1,2)]] Pair by simp
  then show ?thesis
    using th_inv_put [OF assms(1,2), of r w T'] assms(3) Pair by (cases r) auto
qed

lemma th_inv_step: "th_step T e T' \<Longrightarrow> th_inv T \<Longrightarrow> th_inv T'"
  by (cases rule: th_step.cases, assumption) (blast intro: th_inv_accept th_inv_eof th_inv_line th_inv_run)+

lemma th_inv_start: "th_inv (th_start (server_main argc fd))"
  by (auto simp: th_inv_def th_start_def unowned_def server_main_def system_start_def server_listen_def
      srv_wf_def map_free_def server_wf_def server_new_def valid_ptr_def log_error_def live_Some
      seq_run basic_runs bind_case modify_def mutex_init_def)

lemma th_reachable_inv: "th_reachable T \<Longrightarrow> th_inv T"
  by (induction rule: th_reachable.induct) (auto intro: th_inv_start th_inv_step)

end
