(* ===== verification/ThreadLive.thy ===== *)
theory ThreadLive
  imports ThreadSafe
begin

text \<open>
  What the invariant gives: no step is a data race, a thread that cannot go on waits for somebody
  who can, and a turn is over after a bounded number of the thread's own steps.
\<close>

section \<open>No data race\<close>

lemma step_undefined:
  assumes inv: "th_inv T" and st: "th_step T e T'" and bad: "status (th_sys T') = Undefined_behaviour"
  shows "\<exists>i buf req. e = Th_line i buf \<and> admitted buf (world_of i (th_sys T)) = Some req
    \<and> overflows req (world_of i (th_sys T))"
  using st
proof (cases rule: th_step.cases)
  case (accept client_fd created)
  then show ?thesis
    using bad by (auto simp: accept_eq log_error_def split: if_splits)
next
  case (line i buf)
  then have "begin_fine i buf (world_of i (th_sys T)) (begin_turn i buf (world_of i (th_sys T)))"
    using begin_turn_fine th_invD(3) [OF inv] by metis
  then show ?thesis
    using line bad
    by (cases "begin_turn i buf (world_of i (th_sys T))"; cases "fst (begin_turn i buf (world_of i (th_sys T)))")
       (auto simp: put_thread_def runnable_def)
next
  case (eof i)
  then show ?thesis
    using bad by (simp add: runnable_def)
next
  case (run i)
  have "step_fine i (th_pc T i) (world_of i (th_sys T)) (micro i (th_pc T i) (world_of i (th_sys T)))"
    using micro_fine [OF th_invD(3) [OF inv run(2)]] .
  then show ?thesis
    using run bad
    by (cases "micro i (th_pc T i) (world_of i (th_sys T))"; cases "fst (micro i (th_pc T i) (world_of i (th_sys T)))")
       (auto simp: put_thread_def runnable_def)
qed

section \<open>No deadlock\<close>

lemma run_enabled:
  assumes inv: "th_inv T" and run: "runnable i T" and "th_pc T i \<noteq> Ready"
    and free: "waits_at i (th_pc T i) (sys_srv (th_sys T)) = None"
  shows "exec_th (Th_run i) T \<noteq> None"
proof -
  have "th_pc T i \<noteq> Ended"
    using thread_invD(8) [OF th_invD(3) [OF inv run]] world_of_open run by (auto simp: runnable_def)
  moreover have "step_fine i (th_pc T i) (world_of i (th_sys T)) (micro i (th_pc T i) (world_of i (th_sys T)))"
    using micro_fine [OF th_invD(3) [OF inv run]] .
  ultimately show ?thesis
    using assms
    by (cases "micro i (th_pc T i) (world_of i (th_sys T))"; cases "fst (micro i (th_pc T i) (world_of i (th_sys T)))")
       (auto simp: put_thread_def resting_def)
qed

text \<open>Who holds the lock of the map can go on.\<close>

lemma map_owner_runs:
  assumes inv: "th_inv T" and run: "status (th_sys T) = Running"
    and own: "table_lock (sys_srv (th_sys T)) = Some j"
  shows "runnable j T" "exec_th (Th_run j) T \<noteq> None"
proof -
  show r: "runnable j T"
    using th_invD(4) [OF inv run, of j] own run by (auto simp: runnable_def unowned_def)
  have "in_map (th_pc T j)"
    using thread_invD(7) [OF th_invD(3) [OF inv r]] own by simp
  then show "exec_th (Th_run j) T \<noteq> None"
    using run_enabled [OF inv r] by (cases "th_pc T j") (auto simp del: exec_th.simps)
qed

text \<open>Who holds a table can go on, waits for the lock of the map, or rests in its transaction.\<close>

lemma table_owner:
  assumes inv: "th_inv T" and run: "status (th_sys T) = Running" and ptr: "valid_ptr a (sys_srv (th_sys T))"
    and own: "table_mutex (table_at a (sys_srv (th_sys T))) = Some j"
  shows "runnable j T" "exec_th (Th_run j) T \<noteq> None \<or> table_lock (sys_srv (th_sys T)) \<noteq> None
    \<or> th_pc T j = Ready \<and> a \<in> set (locked_tables (conn (world_of j (th_sys T))))
      \<and> m_in_transaction (conn (world_of j (th_sys T)))"
proof -
  show r: "runnable j T"
    using th_invD(4) [OF inv run, of j] own run ptr by (auto simp: runnable_def unowned_def)
  note J = th_invD(3) [OF inv r]
  have a: "a \<in> owned (th_pc T j) (locked_tables (conn (world_of j (th_sys T))))"
    using thread_invD(2) [OF J] ptr own by simp
  then show "exec_th (Th_run j) T \<noteq> None \<or> table_lock (sys_srv (th_sys T)) \<noteq> None
    \<or> th_pc T j = Ready \<and> a \<in> set (locked_tables (conn (world_of j (th_sys T))))
      \<and> m_in_transaction (conn (world_of j (th_sys T)))"
    using run_enabled [OF inv r] thread_invD(6,8) [OF J]
    by (cases "th_pc T j") (auto simp: guards_def simp del: exec_th.simps)
qed

lemma stuck_thread:
  assumes inv: "th_inv T" and all: "\<forall>j. exec_th (Th_run j) T = None"
    and i: "runnable i T" "th_pc T i \<noteq> Ready"
  shows "\<exists>a acc j. th_pc T i = Guard_enter a acc \<and> table_mutex (table_at a (sys_srv (th_sys T))) = Some j
    \<and> runnable j T \<and> th_pc T j = Ready \<and> m_in_transaction (conn (world_of j (th_sys T)))
    \<and> a \<in> set (locked_tables (conn (world_of j (th_sys T))))"
proof -
  have run: "status (th_sys T) = Running"
    using i by (simp add: runnable_def)
  have free: "table_lock (sys_srv (th_sys T)) = None"
    using map_owner_runs(2) [OF inv run] all by fastforce
  note I = th_invD(3) [OF inv i(1)]
  have "waits_at i (th_pc T i) (sys_srv (th_sys T)) \<noteq> None"
    using run_enabled [OF inv i] spec [OF all, of i] by blast
  then obtain a acc j where w: "th_pc T i = Guard_enter a acc"
    "table_mutex (table_at a (sys_srv (th_sys T))) = Some j"
    using free by (cases "th_pc T i") auto
  then have "valid_ptr a (sys_srv (th_sys T))"
    using thread_invD(8) [OF I] by (simp add: guards_def)
  from table_owner [OF inv run this w(2)] have "runnable j T \<and> th_pc T j = Ready
    \<and> a \<in> set (locked_tables (conn (world_of j (th_sys T)))) \<and> m_in_transaction (conn (world_of j (th_sys T)))"
    using spec [OF all, of j] free by simp
  with w show ?thesis
    by blast
qed

section \<open>The length of a turn\<close>

text \<open>The steps left to a thread, with \<open>l\<close> tables locked.\<close>

fun work :: "pc \<Rightarrow> nat \<Rightarrow> nat" where
  "work (Map_enter op) l = 2 * l + 12"
| "work (Map_look op) l = 2 * l + 11"
| "work (Map_leave op r) l = 2 * l + 10"
| "work (Txn_lock n a acc) l = 2 * l + 9"
| "work (Txn_use a acc) l = 2 * l + 6"
| "work (Guard_enter a acc) l = 2 * l + 9"
| "work (Guard_use a acc) l = 2 * l + 8"
| "work (Guard_commit a acc) l = 2 * l + 7"
| "work (Guard_leave a e) l = 2 * l + 6"
| "work Reply l = 1"
| "work (Commit_table as) l = 2 * length as + 2"
| "work (Commit_unlock a as) l = 2 * length as + 3"
| "work (Raised e) l = 2 * l + 5"
| "work (Undo_table as u) l = 2 * length as + 1"
| "work (Undo_unlock a as u) l = 2 * length as + 2"
| "work Closing l = 2 * l + 2"
| "work Ready l = 0"
| "work Ended l = 0"

abbreviation work_of :: "pc \<Rightarrow> world \<Rightarrow> nat" where
  "work_of p w \<equiv> work p (length (locked_tables (conn w)))"

lemma work_map_look:
  "thread_inv i (Map_look op) w \<Longrightarrow> micro i (Map_look op) w = (Ok p', w') \<Longrightarrow> work_of p' w' < work_of (Map_look op) w"
  using thread_invD(7) [of i "Map_look op" w]
  by (cases op) (auto simp: map_look_create_run map_look_find_run simp del: micro.simps split: if_splits)

lemma work_txn:
  "thread_inv i (Txn_lock n a acc) w \<Longrightarrow> micro i (Txn_lock n a acc) w = (Ok p', w') \<Longrightarrow>
    work_of p' w' < work_of (Txn_lock n a acc) w"
  "thread_inv i (Txn_use a acc) w \<Longrightarrow> micro i (Txn_use a acc) w = (Ok p', w') \<Longrightarrow>
    work_of p' w' < work_of (Txn_use a acc) w"
  by (auto simp: txn_lock_run txn_use_run txn_facts insort_insert_insort simp del: micro.simps split: if_splits option.splits)


lemma work_guard:
  "thread_inv i (Guard_enter a acc) w \<Longrightarrow> micro i (Guard_enter a acc) w = (Ok p', w') \<Longrightarrow>
    work_of p' w' < work_of (Guard_enter a acc) w"
  "thread_inv i (Guard_use a acc) w \<Longrightarrow> micro i (Guard_use a acc) w = (Ok p', w') \<Longrightarrow>
    work_of p' w' < work_of (Guard_use a acc) w"
  "thread_inv i (Guard_commit a acc) w \<Longrightarrow> micro i (Guard_commit a acc) w = (Ok p', w') \<Longrightarrow>
    work_of p' w' < work_of (Guard_commit a acc) w"
  "thread_inv i (Guard_leave a e) w \<Longrightarrow> micro i (Guard_leave a e) w = (Ok p', w') \<Longrightarrow>
    work_of p' w' < work_of (Guard_leave a e) w"
proof -
  show "work_of p' w' < work_of (Guard_enter a acc) w"
    if "thread_inv i (Guard_enter a acc) w" "micro i (Guard_enter a acc) w = (Ok p', w')"
    using that thread_invD(8) [OF that(1)]
    by (auto simp: guard_enter_run guards_def simp del: micro.simps split: option.splits)
  show "work_of p' w' < work_of (Guard_use a acc) w"
    if "thread_inv i (Guard_use a acc) w" "micro i (Guard_use a acc) w = (Ok p', w')"
    using that guard_facts [OF that(1), of a acc None]
    by (cases acc) (auto simp: guard_use_run simp del: micro.simps split: option.splits)
  show "work_of p' w' < work_of (Guard_commit a acc) w"
    if "thread_inv i (Guard_commit a acc) w" "micro i (Guard_commit a acc) w = (Ok p', w')"
    using that guard_facts [OF that(1), of a acc None] by (auto simp: held_steps_run simp del: micro.simps)
  show "work_of p' w' < work_of (Guard_leave a e) w"
    if "thread_inv i (Guard_leave a e) w" "micro i (Guard_leave a e) w = (Ok p', w')"
    using that guard_facts [OF that(1), of a _ e]
    by (auto simp: held_steps_run simp del: micro.simps split: option.splits)
qed

lemma work_end:
  "thread_inv i (Commit_table as) w \<Longrightarrow> micro i (Commit_table as) w = (Ok p', w') \<Longrightarrow>
    work_of p' w' < work_of (Commit_table as) w"
  "thread_inv i (Commit_unlock a as) w \<Longrightarrow> micro i (Commit_unlock a as) w = (Ok p', w') \<Longrightarrow>
    work_of p' w' < work_of (Commit_unlock a as) w"
  "thread_inv i (Undo_table as u) w \<Longrightarrow> micro i (Undo_table as u) w = (Ok p', w') \<Longrightarrow>
    work_of p' w' < work_of (Undo_table as u) w"
  "thread_inv i (Undo_unlock a as u) w \<Longrightarrow> micro i (Undo_unlock a as u) w = (Ok p', w') \<Longrightarrow>
    work_of p' w' < work_of (Undo_unlock a as u) w"
proof -
  have own: "valid_ptr a (srv w)" "table_mutex (table_at a (srv w)) = Some i"
    if "thread_inv i p w" "a \<in> owned p (locked_tables (conn w))" for p a
    using owned_valid [OF that] by auto
  show "work_of p' w' < work_of (Commit_table as) w"
    if "thread_inv i (Commit_table as) w" "micro i (Commit_table as) w = (Ok p', w')"
    using that own [OF that(1)] by (cases as) (auto simp: held_steps_run local_steps_run simp del: micro.simps)
  show "work_of p' w' < work_of (Commit_unlock a as) w"
    if "thread_inv i (Commit_unlock a as) w" "micro i (Commit_unlock a as) w = (Ok p', w')"
    using that own [OF that(1)] by (auto simp: held_steps_run simp del: micro.simps)
  show "work_of p' w' < work_of (Undo_table as u) w"
    if "thread_inv i (Undo_table as u) w" "micro i (Undo_table as u) w = (Ok p', w')"
    using that own [OF that(1)]
    by (cases as; cases u)
       (auto simp: held_steps_run local_steps_run text_steps_run simp del: micro.simps split: sum.splits)
  show "work_of p' w' < work_of (Undo_unlock a as u) w"
    if "thread_inv i (Undo_unlock a as u) w" "micro i (Undo_unlock a as u) w = (Ok p', w')"
    using that own [OF that(1)] by (auto simp: held_steps_run simp del: micro.simps)
qed

lemma work_other:
  "micro i (Map_enter op) w = (Ok p', w') \<Longrightarrow> work_of p' w' < work_of (Map_enter op) w"
  "thread_inv i (Map_leave op r) w \<Longrightarrow> micro i (Map_leave op r) w = (Ok p', w') \<Longrightarrow>
    work_of p' w' < work_of (Map_leave op r) w"
  "micro i Reply w = (Ok p', w') \<Longrightarrow> work_of p' w' < work_of Reply w"
  "micro i Closing w = (Ok p', w') \<Longrightarrow> work_of p' w' < work_of Closing w"
  using thread_invD(7) [of i "Map_leave op r" w]
  by (auto simp: map_enter_run map_leave_run after_map_def local_steps_run text_steps_run basic_runs simp del: micro.simps
      split: option.splits sum.splits map_op.splits)

lemma work_raised: "micro i (Raised e) w = (Ok p', w') \<Longrightarrow> work_of p' w' < work_of (Raised e) w"
proof (cases e)
qed (auto simp: local_steps_run text_steps_run simp del: micro.simps split: sum.splits)

lemma work_run: "thread_inv i p w \<Longrightarrow> micro i p w = (Ok p', w') \<Longrightarrow> work_of p' w' < work_of p w"
proof (cases p)
qed (auto simp: work_map_look work_txn work_guard work_end work_other work_raised local_steps_run simp del: micro.simps work.simps)

text \<open>A thread between two turns or gone has none left; in a turn there is a bound.\<close>

lemma work_bound: "thread_inv i p w \<Longrightarrow> work_of p w \<le> 2 * length (locked_tables (conn w)) + 12"
  using thread_invD(8) [of i p w] by (cases p) (auto simp: left_of_def)

lemma work_zero: "thread_inv i p w \<Longrightarrow> wire_open w \<Longrightarrow> work_of p w = 0 \<longleftrightarrow> p = Ready"
  using thread_invD(8) [of i p w] by (cases p) auto

definition works :: "threads \<Rightarrow> tid \<Rightarrow> nat" where
  "works T i = work_of (th_pc T i) (world_of i (th_sys T))"

text \<open>The steps left to all threads together until each waits for its client or for a table.\<close>

definition total_work :: "threads \<Rightarrow> nat" where
  "total_work T = (\<Sum>i | i < next_tid (th_sys T) \<and> live i (th_sys T). works T i)"

lemma conn_world_put: "j \<noteq> i \<Longrightarrow> conn (world_of j (put_world i w \<sigma>)) = conn (world_of j \<sigma>)"
  by (simp add: world_of_def put_world_def world_new_def split: option.split)

lemma run_cases:
  assumes inv: "th_inv T" and st: "exec_th (Th_run i) T = Some T'"
  obtains (ok) p w where "runnable i T" "micro i (th_pc T i) (world_of i (th_sys T)) = (Ok p, w)"
      "T' = T\<lparr>th_sys := put_world i w (th_sys T), th_pc := (th_pc T)(i := p)\<rparr>"
      "moved i (world_of i (th_sys T)) p w"
    | (raised) "runnable i T" "th_pc T i \<noteq> Ready" "status (th_sys T') = Terminated"
proof -
  let ?m = "micro i (th_pc T i) (world_of i (th_sys T))"
  have r: "runnable i T" and put: "put_thread i ?m T = Some T'"
    using st by (auto split: if_splits)
  have f: "step_fine i (th_pc T i) (world_of i (th_sys T)) ?m"
    using micro_fine [OF th_invD(3) [OF inv r]] .
  obtain x w where m: "?m = (x, w)"
    by (cases ?m)
  show thesis
  proof (cases x)
    case (Ok p)
    then show thesis
      using ok r m f put by (auto simp: put_thread_def)
  next
    case (Exn e)
    moreover have "th_pc T i \<noteq> Ready"
      using m Exn by (auto simp: basic_runs block_def)
    ultimately show thesis
      using raised r m put by (auto simp: put_thread_def)
  qed (use m f put in \<open>auto simp: put_thread_def\<close>)
qed

lemma total_work_run:
  assumes inv: "th_inv T" and st: "exec_th (Th_run i) T = Some T'"
  shows "1 \<le> total_work T" "status (th_sys T') = Running \<Longrightarrow> total_work T' < total_work T"
proof -
  let ?S = "\<lambda>T. {j. j < next_tid (th_sys T) \<and> live j (th_sys T)}"
  have fin: "finite (?S T)"
    by (rule finite_subset [of _ "{..< next_tid (th_sys T)}"]) auto
  have "runnable i T \<and> th_pc T i \<noteq> Ready"
    using inv st by (cases rule: run_cases) (auto simp: local_steps_run simp del: micro.simps)
  then have "i \<in> ?S T" "0 < works T i"
    using th_invD(2) [OF inv] work_zero [OF th_invD(3) [OF inv]] world_of_open
    by (auto simp: runnable_def live_Some works_def)
  then show "1 \<le> total_work T"
    using member_le_sum [of i "?S T" "works T"] fin unfolding total_work_def by simp
  show "total_work T' < total_work T" if "status (th_sys T') = Running"
    using inv st
  proof (cases rule: run_cases)
    case (ok p w)
    have i: "i \<in> ?S T"
      using ok(1) th_invD(2) [OF inv] by (auto simp: runnable_def live_Some)
    have same: "works T' j = works T j" if "j \<noteq> i" for j
      using that ok(3) by (simp add: works_def conn_world_put)
    have less: "works T' i < works T i"
      using work_run [OF th_invD(3) [OF inv ok(1)] ok(2)] ok(3) by (simp add: works_def)
    have le: "works T' j \<le> works T j" for j
      using same less by (cases "j = i") auto
    have "?S T' \<subseteq> ?S T"
      using i ok(3) by (auto split: if_splits)
    then have "total_work T' \<le> (\<Sum>j \<in> ?S T. works T' j)"
      unfolding total_work_def by (intro sum_mono2 fin) auto
    also have "\<dots> < total_work T"
      unfolding total_work_def by (rule sum_strict_mono_ex1 [OF fin]) (use le less i in auto)
    finally show ?thesis .
  next
    case raised
    with that show ?thesis by simp
  qed
qed

lemma run_th_length:
  "th_inv T \<Longrightarrow> run_th (map Th_run is) T = Some T' \<Longrightarrow> length is \<le> total_work T"
proof (induction "is" arbitrary: T)
  case (Cons i "is")
  then obtain T1 where T1: "exec_th (Th_run i) T = Some T1" "run_th (map Th_run is) T1 = Some T'"
    by (auto simp: bind_eq_Some_conv simp del: exec_th.simps)
  have inv: "th_inv T1"
    using T1(1) Cons.prems(1) th_inv_step by (simp only: exec_th_step)
  show ?case
  proof (cases "status (th_sys T1) = Running")
    case True
    then show ?thesis
      using Cons.IH [OF inv T1(2)] total_work_run(2) [OF Cons.prems(1) T1(1)] by simp
  next
    case False
    then have "is = []"
      using T1(2) by (cases "is") (auto simp: runnable_def)
    then show ?thesis
      using total_work_run(1) [OF Cons.prems(1) T1(1)] by simp
  qed
qed simp

lemma total_work_le:
  assumes inv: "th_inv T" and run: "status (th_sys T) = Running"
  shows "total_work T \<le> (\<Sum>i | i < next_tid (th_sys T) \<and> live i (th_sys T).
    2 * length (locked_tables (conn (world_of i (th_sys T)))) + 12)"
  unfolding total_work_def works_def
  using work_bound [OF th_invD(3) [OF inv]] run by (intro sum_mono) (auto simp: runnable_def)

text \<open>Whoever is chosen each time, a point is reached where nobody can go on without a client.\<close>

lemma run_th_append: "run_th (es @ es') T = Option.bind (run_th es T) (run_th es')"
  by (induction es arbitrary: T) (auto split: Option.bind_split)

lemma comes_to_rest:
  assumes "th_inv T"
  shows "\<exists>is T'. run_th (map Th_run is) T = Some T' \<and> (\<forall>j. exec_th (Th_run j) T' = None)"
  using assms
proof (induction "total_work T" arbitrary: T rule: less_induct)
  case less
  show ?case
  proof (cases "\<exists>j. exec_th (Th_run j) T \<noteq> None")
    case False
    then show ?thesis
      by (intro exI [of _ "[]"]) auto
  next
    case True
    then obtain j T1 where T1: "exec_th (Th_run j) T = Some T1"
      by blast
    have inv: "th_inv T1"
      using T1 less.prems th_inv_step by (simp only: exec_th_step)
    obtain "is" T' where "run_th (map Th_run is) T1 = Some T'" "\<forall>j. exec_th (Th_run j) T' = None"
    proof (cases "status (th_sys T1) = Running")
      case True
      then show thesis
        using less.hyps [OF total_work_run(2) [OF less.prems T1] inv] that by blast
    next
      case False
      then show thesis
        using that [of "[]" T1] by (simp add: runnable_def)
    qed
    then show ?thesis
      using T1 by (intro exI [of _ "j # is"]) auto
  qed
qed

end
