(* ===== verification/Serial.thy ===== *)
theory Serial
  imports Mutexes
begin

text \<open>
  What a database promises its clients about their transactions: run one after the other, in some
  order, they would have read what they read and left what they left.  The machine here is the
  specification; the locale \<open>two_phase\<close> holds the reason why a server that keeps its table locks to
  the end of the transaction meets it.
\<close>

section \<open>Operations and serial execution\<close>

type_synonym entries = "string \<rightharpoonup> string"
type_synonym store = "string \<rightharpoonup> entries"

datatype op = Made string | Got string string "string option" | Put string string string

fun op_table :: "op \<Rightarrow> string" where
  "op_table (Made n) = n"
| "op_table (Got n k r) = n"
| "op_table (Put n k v) = n"

text \<open>\<open>None\<close>: the operation could not have happened there, or not with that result.\<close>

fun run_op :: "op \<Rightarrow> store \<Rightarrow> store option" where
  "run_op (Made n) S = (if S n = None then Some (S(n \<mapsto> Map.empty)) else None)"
| "run_op (Got n k r) S = (case S n of None \<Rightarrow> None | Some m \<Rightarrow> if m k = r then Some S else None)"
| "run_op (Put n k v) S = (case S n of None \<Rightarrow> None | Some m \<Rightarrow> Some (S(n \<mapsto> m(k \<mapsto> v))))"

fun run_ops :: "op list \<Rightarrow> store \<Rightarrow> store option" where
  "run_ops [] S = Some S"
| "run_ops (x # xs) S = Option.bind (run_op x S) (run_ops xs)"

text \<open>Whole transactions, each with its thread, one after the other.\<close>

definition run_serially :: "(tid \<times> op list) list \<Rightarrow> store \<Rightarrow> store option" where
  "run_serially us = run_ops (concat (map snd us))"

lemma run_ops_append: "run_ops (xs @ ys) S = Option.bind (run_ops xs S) (run_ops ys)"
  by (induction xs arbitrary: S) (auto split: Option.bind_split)

lemma run_serially_append: "run_serially (us @ vs) S = Option.bind (run_serially us S) (run_serially vs)"
  by (simp add: run_serially_def run_ops_append)

lemma run_op_frame: "run_op x S = Some S' \<Longrightarrow> n \<noteq> op_table x \<Longrightarrow> S' n = S n"
  by (cases x) (auto split: option.splits if_splits)

lemma run_op_local:
  assumes "run_op x S = Some S1" "T (op_table x) = S (op_table x)"
  shows "\<exists>T1. run_op x T = Some T1 \<and> T1 (op_table x) = S1 (op_table x)"
  using assms by (cases x) (auto split: option.splits if_splits)

lemma run_ops_frame: "run_ops xs S = Some S' \<Longrightarrow> n \<notin> op_table ` set xs \<Longrightarrow> S' n = S n"
proof (induction xs arbitrary: S)
  case (Cons x xs)
  then obtain S1 where "run_op x S = Some S1" "run_ops xs S1 = Some S'"
    by (auto simp: bind_eq_Some_conv)
  with Cons run_op_frame [of x S S1 n] show ?case by simp
qed simp

text \<open>An entry stays until it is written.\<close>

lemma run_ops_keeps:
  "run_ops xs S = Some S' \<Longrightarrow> S n = Some m \<Longrightarrow> \<forall>v. Put n k v \<notin> set xs \<Longrightarrow> \<exists>m'. S' n = Some m' \<and> m' k = m k"
proof (induction xs arbitrary: S m)
  case (Cons x xs)
  then obtain S1 where S1: "run_op x S = Some S1" "run_ops xs S1 = Some S'"
    by (auto simp: bind_eq_Some_conv)
  have "\<exists>m1. S1 n = Some m1 \<and> m1 k = m k"
    using S1(1) Cons.prems(2,3) by (cases "n = op_table x"; cases x) (auto split: option.splits if_splits)
  then obtain m1 where "S1 n = Some m1" "m1 k = m k"
    by blast
  then show ?case
    using Cons.IH [OF S1(2)] Cons.prems(3) by auto
qed simp

text \<open>A run depends on the tables it touches only.\<close>

lemma run_ops_local:
  "run_ops xs S = Some S' \<Longrightarrow> \<forall>n \<in> N. T n = S n \<Longrightarrow> op_table ` set xs \<subseteq> N \<Longrightarrow>
    \<exists>T'. run_ops xs T = Some T' \<and> (\<forall>n \<in> N. T' n = S' n)"
proof (induction xs arbitrary: S T)
  case (Cons x xs)
  then obtain S1 where S1: "run_op x S = Some S1" "run_ops xs S1 = Some S'"
    by (auto simp: bind_eq_Some_conv)
  obtain T1 where T1: "run_op x T = Some T1" "T1 (op_table x) = S1 (op_table x)"
    using run_op_local [OF S1(1), of T] Cons.prems(2,3) by auto
  have "T1 n = S1 n" if "n \<in> N" for n
    using T1(2) run_op_frame [OF S1(1), of n] run_op_frame [OF T1(1), of n] Cons.prems(2) that
    by (cases "n = op_table x") auto
  then show ?case
    using Cons.IH [OF S1(2), of T1] T1(1) Cons.prems(3) by auto
qed auto

section \<open>The machine\<close>

text \<open>The committed entries, and what each thread's unfinished transaction has written.\<close>

record machine =
  m_store :: store
  m_buffer :: "tid \<Rightarrow> string \<Rightarrow> entries"

definition overlay :: "store \<Rightarrow> (string \<Rightarrow> entries) \<Rightarrow> store" where
  "overlay S b = (\<lambda>n. map_option (\<lambda>m. m ++ b n) (S n))"

datatype act = Silent | Auto op | Txn op | Commit | Abort

definition no_buffer :: "string \<Rightarrow> entries" where
  "no_buffer = (\<lambda>n. Map.empty)"

fun buffer_op :: "op \<Rightarrow> (string \<Rightarrow> entries) \<Rightarrow> string \<Rightarrow> entries" where
  "buffer_op (Put n k v) b = b(n := (b n)(k \<mapsto> v))"
| "buffer_op x b = b"

text \<open>\<open>Auto\<close>: a statement that is its own transaction.  A statement inside one sees its own writes.\<close>

fun machine_act :: "tid \<Rightarrow> act \<Rightarrow> machine \<Rightarrow> machine option" where
  "machine_act i Silent d = Some d"
| "machine_act i (Auto x) d = map_option (\<lambda>S. d\<lparr>m_store := S\<rparr>) (run_op x (m_store d))"
| "machine_act i (Txn x) d =
     (if (\<exists>n. x = Made n) \<or> run_op x (overlay (m_store d) (m_buffer d i)) = None then None
      else Some (d\<lparr>m_buffer := (m_buffer d)(i := buffer_op x (m_buffer d i))\<rparr>))"
| "machine_act i Commit d = Some (d\<lparr>m_store := overlay (m_store d) (m_buffer d i),
     m_buffer := (m_buffer d)(i := no_buffer)\<rparr>)"
| "machine_act i Abort d = Some (d\<lparr>m_buffer := (m_buffer d)(i := no_buffer)\<rparr>)"

definition machine_new :: machine where
  "machine_new = \<lparr>m_store = Map.empty, m_buffer = (\<lambda>i. no_buffer)\<rparr>"

lemma overlay_no_buffer [simp]: "overlay S no_buffer = S"
  by (auto simp: overlay_def no_buffer_def fun_eq_iff option.map_ident)

lemma run_op_buffer:
  assumes "run_op x (overlay S b) = Some S'" "\<not> (\<exists>n. x = Made n)"
  shows "S' = overlay S (buffer_op x b)"
  using assms by (cases x) (auto simp: overlay_def fun_eq_iff split: option.splits if_splits)

lemma machine_act_other: "machine_act i a d = Some d' \<Longrightarrow> j \<noteq> i \<Longrightarrow> m_buffer d' j = m_buffer d j"
  by (cases a) (auto split: if_splits)

lemma machine_actD:
  "machine_act i Silent d = Some d' \<Longrightarrow> d' = d"
  "machine_act i (Auto x) d = Some d' \<Longrightarrow> run_op x (m_store d) = Some (m_store d') \<and> m_buffer d' = m_buffer d"
  "machine_act i (Txn x) d = Some d' \<Longrightarrow> \<not> (\<exists>n. x = Made n) \<and> run_op x (overlay (m_store d) (m_buffer d i)) \<noteq> None
     \<and> m_store d' = m_store d \<and> m_buffer d' i = buffer_op x (m_buffer d i)"
  "machine_act i Commit d = Some d' \<Longrightarrow> m_store d' = overlay (m_store d) (m_buffer d i) \<and> m_buffer d' i = no_buffer"
  "machine_act i Abort d = Some d' \<Longrightarrow> m_store d' = m_store d \<and> m_buffer d' i = no_buffer"
  by (auto split: if_splits)

section \<open>Histories\<close>

text \<open>What each unfinished transaction has done, and the finished ones in the order they committed.\<close>

type_synonym history = "(tid \<Rightarrow> op list) \<times> (tid \<times> op list) list"

fun record_act :: "tid \<times> act \<Rightarrow> history \<Rightarrow> history" where
  "record_act (i, Silent) (L, H) = (L, H)"
| "record_act (i, Auto x) (L, H) = (L, H @ [(i, [x])])"
| "record_act (i, Txn x) (L, H) = (L(i := L i @ [x]), H)"
| "record_act (i, Commit) (L, H) = (L(i := []), H @ [(i, L i)])"
| "record_act (i, Abort) (L, H) = (L(i := []), H)"

definition no_history :: history where
  "no_history = ((\<lambda>i. []), [])"

definition ends_txn :: "act \<Rightarrow> bool" where
  "ends_txn a \<longleftrightarrow> a = Commit \<or> a = Abort"

lemma ends_txn_simps [simp]:
  "\<not> ends_txn Silent" "\<not> ends_txn (Auto x)" "\<not> ends_txn (Txn x)" "ends_txn Commit" "ends_txn Abort"
  by (simp_all add: ends_txn_def)

section \<open>Two-phase locking\<close>

text \<open>
  The laws of a server that locks a table before it uses it in a transaction and keeps it to the
  end: what it does refines the machine, and a table somebody holds is changed by nobody else.
\<close>

locale two_phase =
  fixes good :: "'s \<Rightarrow> bool"
    and stp :: "'s \<Rightarrow> tid \<times> act \<Rightarrow> 's \<Rightarrow> bool"
    and shown :: "'s \<Rightarrow> machine"
    and held :: "'s \<Rightarrow> tid \<Rightarrow> string set"
  assumes refines: "good s \<Longrightarrow> stp s (i, a) s' \<Longrightarrow> machine_act i a (shown s) = Some (shown s')"
    and locks: "good s \<Longrightarrow> stp s (i, Txn x) s' \<Longrightarrow> op_table x \<in> held s' i"
    and keeps: "good s \<Longrightarrow> stp s (i, a) s' \<Longrightarrow> j \<noteq> i \<or> \<not> ends_txn a \<Longrightarrow> held s j \<subseteq> held s' j"
    and excludes: "good s \<Longrightarrow> stp s (i, a) s' \<Longrightarrow> j \<noteq> i \<or> \<not> ends_txn a \<Longrightarrow> n \<in> held s j \<Longrightarrow>
      m_store (shown s') n = m_store (shown s) n"
begin

definition serial :: "history \<Rightarrow> 's \<Rightarrow> bool" where
  "serial h s \<longleftrightarrow> run_serially (snd h) Map.empty = Some (m_store (shown s))
     \<and> (\<forall>i. run_ops (fst h i) (m_store (shown s)) = Some (overlay (m_store (shown s)) (m_buffer (shown s) i))
          \<and> op_table ` set (fst h i) \<subseteq> held s i
          \<and> (\<forall>n. n \<notin> op_table ` set (fst h i) \<longrightarrow> m_buffer (shown s) i n = Map.empty))"

text \<open>The statements of a transaction stay possible while the others go on.\<close>

lemma still_valid:
  assumes "serial h s" "\<forall>n \<in> held s j. S n = m_store (shown s) n"
  shows "run_ops (fst h j) S = Some (overlay S (m_buffer (shown s) j))"
proof -
  let ?N = "op_table ` set (fst h j)"
  have S: "run_ops (fst h j) (m_store (shown s)) = Some (overlay (m_store (shown s)) (m_buffer (shown s) j))"
    and N: "?N \<subseteq> held s j" and out: "\<And>n. n \<notin> ?N \<Longrightarrow> m_buffer (shown s) j n = Map.empty"
    using assms(1) by (auto simp: serial_def)
  obtain S' where S': "run_ops (fst h j) S = Some S'"
    "\<forall>n \<in> ?N. S' n = overlay (m_store (shown s)) (m_buffer (shown s) j) n"
    using run_ops_local [OF S, of ?N S] assms(2) N by blast
  have "S' n = overlay S (m_buffer (shown s) j) n" for n
  proof (cases "n \<in> ?N")
    case True
    then show ?thesis
      using S'(2) assms(2) N by (auto simp: overlay_def)
  next
    case False
    then show ?thesis
      using run_ops_frame [OF S'(1) False] out by (simp add: overlay_def option.map_ident)
  qed
  then show ?thesis
    using S'(1) by (simp add: fun_eq_iff)
qed

lemma serial_step:
  assumes good: "good s" and st: "stp s (i, a) s'" and ser: "serial h s"
  shows "serial (record_act (i, a) h) s'"
proof -
  obtain L H where h: "h = (L, H)"
    by (cases h)
  note R = refines [OF good st]
  have L: "run_ops (L j) (m_store (shown s)) = Some (overlay (m_store (shown s)) (m_buffer (shown s) j))"
    "op_table ` set (L j) \<subseteq> held s j" "\<And>n. n \<notin> op_table ` set (L j) \<Longrightarrow> m_buffer (shown s) j n = Map.empty" for j
    using ser by (auto simp: serial_def h)
  have H: "run_serially H Map.empty = Some (m_store (shown s))"
    using ser by (simp add: serial_def h)
  have more: "run_serially (H @ [(i, xs)]) Map.empty = run_ops xs (m_store (shown s))" for xs
    using H by (simp add: run_serially_def run_ops_append)
  have keep: "run_ops (L j) (m_store (shown s')) = Some (overlay (m_store (shown s')) (m_buffer (shown s) j))
      \<and> op_table ` set (L j) \<subseteq> held s' j" if "j \<noteq> i \<or> \<not> ends_txn a" for j
    using still_valid [OF ser, of j "m_store (shown s')"] excludes [OF good st that] keeps [OF good st that] L(2) [of j]
    by (auto simp: h)
  have buffer: "m_buffer (shown s') j = m_buffer (shown s) j" if "j \<noteq> i" for j
    using machine_act_other [OF R that] .
  have other: "run_ops (L j) (m_store (shown s')) = Some (overlay (m_store (shown s')) (m_buffer (shown s') j))
      \<and> op_table ` set (L j) \<subseteq> held s' j \<and> (\<forall>n. n \<notin> op_table ` set (L j) \<longrightarrow> m_buffer (shown s') j n = Map.empty)"
    if "j \<noteq> i" for j
    using keep [of j] buffer [OF that] L(3) [of _ j] that by simp
  have whole: "serial (L', H') s'"
    if "run_serially H' Map.empty = Some (m_store (shown s'))" "\<And>j. j \<noteq> i \<Longrightarrow> L' j = L j"
      "run_ops (L' i) (m_store (shown s')) = Some (overlay (m_store (shown s')) (m_buffer (shown s') i))"
      "op_table ` set (L' i) \<subseteq> held s' i"
      "\<And>n. n \<notin> op_table ` set (L' i) \<Longrightarrow> m_buffer (shown s') i n = Map.empty" for L' H'
    unfolding serial_def using that other by (metis fst_conv snd_conv)
  have empty: "serial (L(i := []), H') s'"
    if "run_serially H' Map.empty = Some (m_store (shown s'))" "m_buffer (shown s') i = no_buffer" for H'
    using that by (intro whole) (simp_all, simp add: no_buffer_def)
  show ?thesis
  proof (cases a)
    case Silent
    then have "shown s' = shown s"
      using R machine_actD(1) by blast
    then show ?thesis
      unfolding Silent h record_act.simps using keep [of i] H L(3) [of _ i] Silent by (intro whole) simp_all
  next
    case (Auto x)
    then have x: "run_op x (m_store (shown s)) = Some (m_store (shown s'))" and "m_buffer (shown s') = m_buffer (shown s)"
      using machine_actD(2) [OF R [unfolded Auto]] by blast+
    then show ?thesis
      unfolding Auto h record_act.simps using keep [of i] more [of "[x]"] L(3) [of _ i] Auto
      by (intro whole) simp_all
  next
    case Commit
    then have "m_store (shown s') = overlay (m_store (shown s)) (m_buffer (shown s) i)"
      "m_buffer (shown s') i = no_buffer"
      using machine_actD(4) [OF R [unfolded Commit]] by blast+
    then show ?thesis
      unfolding Commit h record_act.simps using more [of "L i"] L(1) [of i] by (intro empty) simp_all
  next
    case Abort
    then have "m_store (shown s') = m_store (shown s)" "m_buffer (shown s') i = no_buffer"
      using machine_actD(5) [OF R [unfolded Abort]] by blast+
    then show ?thesis
      unfolding Abort h record_act.simps using H by (intro empty) simp_all
  next
    case (Txn x)
    then have nc: "\<not> (\<exists>n. x = Made n)"
      and run: "run_op x (overlay (m_store (shown s)) (m_buffer (shown s) i)) \<noteq> None"
      and eq: "m_store (shown s') = m_store (shown s)"
        "m_buffer (shown s') i = buffer_op x (m_buffer (shown s) i)"
      using machine_actD(3) [OF R [unfolded Txn]] by blast+
    have "run_ops (L i @ [x]) (m_store (shown s')) = Some (overlay (m_store (shown s')) (m_buffer (shown s') i))"
      using L(1) [of i] run run_op_buffer [OF _ nc] eq by (auto simp: run_ops_append)
    moreover have "op_table x \<in> held s' i"
      using locks good st Txn by blast
    moreover have "m_buffer (shown s') i n = Map.empty" if "n \<noteq> op_table x" "n \<notin> op_table ` set (L i)" for n
      using that eq(2) L(3) [of n i] by (cases x) auto
    ultimately show ?thesis
      unfolding Txn h record_act.simps using keep [of i] H eq(1) Txn by (intro whole) simp_all
  qed
qed

lemma serial_start: "shown s = machine_new \<Longrightarrow> serial no_history s"
  by (simp add: serial_def no_history_def machine_new_def run_serially_def) (simp add: no_buffer_def)

lemma serial_store: "serial h s \<Longrightarrow> run_serially (snd h) Map.empty = Some (m_store (shown s))"
  by (simp add: serial_def)

end

end
