(* ===== verification/ThreadStore.thy ===== *)
theory ThreadStore
  imports ThreadLive Serial
begin

text \<open>
  The interleaved threads and the transaction machine of \<open>Serial\<close>: what the tables mean while
  transactions are being written, committed and rolled back table by table, which step of a thread
  is which act of the machine, and that the server keeps the laws of two-phase locking.
\<close>

section \<open>What the tables mean\<close>

text \<open>
  A COMMIT counts from its first step: the tables it has yet to commit are read as if they were.
  \<open>buffering\<close>: the pending entries of the tables this thread holds are its transaction's.
\<close>

fun committing :: "pc \<Rightarrow> bool" where
  "committing (Commit_table as) = True"
| "committing (Commit_unlock a as) = True"
| "committing p = False"

fun buffering :: "pc \<Rightarrow> bool" where
  "buffering (Guard_use a acc) = False"
| "buffering (Guard_commit a acc) = False"
| "buffering (Guard_leave a e) = False"
| "buffering (Commit_table as) = False"
| "buffering (Commit_unlock a as) = False"
| "buffering (Undo_table as u) = False"
| "buffering (Undo_unlock a as u) = False"
| "buffering Ended = False"
| "buffering p = True"

definition entries_at :: "(tid \<Rightarrow> pc) \<Rightarrow> table \<Rightarrow> entries" where
  "entries_at P t = (case table_mutex t of None \<Rightarrow> committed t
     | Some j \<Rightarrow> if committing (P j) then view t else committed t)"

definition written :: "(tid \<Rightarrow> pc) \<Rightarrow> tid \<Rightarrow> table \<Rightarrow> entries" where
  "written P i t = (if table_mutex t = Some i \<and> buffering (P i) then pending t else Map.empty)"

definition machine_of :: "(tid \<Rightarrow> pc) \<Rightarrow> server \<Rightarrow> machine" where
  "machine_of P s = \<lparr>
     m_store = (\<lambda>n. map_option (\<lambda>a. entries_at P (table_at a s)) (smap_find n (set_of_table s))),
     m_buffer = (\<lambda>i n. case smap_find n (set_of_table s) of None \<Rightarrow> Map.empty
       | Some a \<Rightarrow> written P i (table_at a s))\<rparr>"

text \<open>The tables a thread has locked in the transaction it is in.\<close>

definition held_of :: "(tid \<Rightarrow> pc) \<Rightarrow> server \<Rightarrow> tid \<Rightarrow> string set" where
  "held_of P s i = {n. \<exists>a. smap_find n (set_of_table s) = Some a
     \<and> table_mutex (table_at a s) = Some i \<and> buffering (P i)}"

section \<open>Which act a step is\<close>

text \<open>What the thread got for a GET: the value now on its stack, if the step was one that read.\<close>

fun got :: "pc \<Rightarrow> world \<Rightarrow> string option" where
  "got Reply w = Some (hd (operands w))"
| "got (Guard_leave a None) w = Some (hd (operands w))"
| "got p w = None"

definition table_name :: "addr \<Rightarrow> world \<Rightarrow> string" where
  "table_name a w = m_name (table_at a (srv w))"

fun access_op :: "string \<Rightarrow> access \<Rightarrow> string option \<Rightarrow> op" where
  "access_op n (Get_key k) r = Got n k r"
| "access_op n (Set_key k v) r = Put n k v"

definition step_act :: "pc \<Rightarrow> world \<Rightarrow> pc \<Rightarrow> world \<Rightarrow> act" where
  "step_act p w p' w' = (case p of
       Ready \<Rightarrow> (case p' of Commit_table as \<Rightarrow> Commit | _ \<Rightarrow> Silent)
     | Map_look op \<Rightarrow> (case (op, p') of (Op_create n, Map_leave _ (Inr a)) \<Rightarrow> Auto (Made n) | _ \<Rightarrow> Silent)
     | Txn_use a acc \<Rightarrow> Txn (access_op (table_name a w) acc (got p' w'))
     | Guard_use a (Get_key k) \<Rightarrow> Auto (Got (table_name a w) k (got p' w'))
     | Guard_commit a acc \<Rightarrow> Auto (access_op (table_name a w) acc None)
     | Raised (FailedTransaction e) \<Rightarrow> Abort
     | Closing \<Rightarrow> Abort
     | _ \<Rightarrow> Silent)"

section \<open>The machine after a step\<close>

definition same_mode :: "pc \<Rightarrow> pc \<Rightarrow> bool" where
  "same_mode p p' \<longleftrightarrow> committing p = committing p' \<and> buffering p = buffering p'"

lemma found_valid: "thread_inv i p w \<Longrightarrow> smap_find n (set_of_table (srv w)) = Some a \<Longrightarrow> valid_ptr a (srv w)"
  using srv_wfD(1) thread_invD(1) by blast

lemma found_name:
  "srv_wf s \<Longrightarrow> valid_ptr a s \<Longrightarrow> smap_find n (set_of_table s) = Some a \<longleftrightarrow> n = m_name (table_at a s)"
  using srv_wfD(2,5) by metis

text \<open>A table whose owner has not moved, or not in a way that matters here, means what it meant.\<close>

lemma entries_at_other:
  "table_mutex t \<noteq> Some i \<or> same_mode (P i) p' \<Longrightarrow> entries_at (P(i := p')) t = entries_at P t"
  "table_mutex t \<noteq> Some i \<or> same_mode (P i) p' \<Longrightarrow> written (P(i := p')) j t = written P j t"
  by (auto simp: entries_at_def written_def same_mode_def split: option.split)

lemma machine_same:
  assumes inv: "thread_inv i p w" and p: "P i = p"
    and mode: "same_mode p p' \<or> owned p (locked_tables (conn w)) = {}"
    and s': "set_of_table s' = set_of_table (srv w)" "\<And>a. valid_ptr a (srv w) \<Longrightarrow> table_at a s' = table_at a (srv w)"
  shows "machine_of (P(i := p')) s' = machine_of P (srv w)"
proof -
  have "table_mutex (table_at a (srv w)) \<noteq> Some i \<or> same_mode (P i) p'" if "smap_find n (set_of_table (srv w)) = Some a" for n a
    using mode thread_invD(2) [OF inv found_valid [OF inv that]] p by auto
  then show ?thesis
    using s' found_valid [OF inv]
    by (auto simp: machine_of_def entries_at_other fun_eq_iff split: option.split intro!: map_option_cong)
qed

definition put_entries :: "string \<Rightarrow> entries \<Rightarrow> (tid \<Rightarrow> entries) \<Rightarrow> machine \<Rightarrow> machine" where
  "put_entries n m b d = \<lparr>m_store = (m_store d)(n \<mapsto> m), m_buffer = (\<lambda>j. (m_buffer d j)(n := b j))\<rparr>"

lemma machine_put:
  assumes inv: "thread_inv i p w" and p: "P i = p" and ptr: "valid_ptr a (srv w)"
    and mode: "same_mode p p' \<or> owned p (locked_tables (conn w)) \<subseteq> {a}"
  shows "machine_of (P(i := p')) (put_table a t (srv w)) =
    put_entries (table_name a w) (entries_at (P(i := p')) t) (\<lambda>j. written (P(i := p')) j t) (machine_of P (srv w))"
proof -
  have other: "table_mutex (table_at b (srv w)) \<noteq> Some i \<or> same_mode (P i) p'"
    if "smap_find n (set_of_table (srv w)) = Some b" "b \<noteq> a" for n b
    using mode thread_invD(2) [OF inv found_valid [OF inv that(1)]] p that(2) by auto
  have name: "smap_find n (set_of_table (srv w)) = Some a \<longleftrightarrow> n = table_name a w" for n
    using found_name [OF thread_invD(1) [OF inv] ptr] by (simp add: table_name_def)
  have "m_store (machine_of (P(i := p')) (put_table a t (srv w))) n =
      ((m_store (machine_of P (srv w)))(table_name a w \<mapsto> entries_at (P(i := p')) t)) n" for n
    using name [of n] other [of n] found_valid [OF inv, of n] ptr
    by (cases "smap_find n (set_of_table (srv w))") (auto simp: machine_of_def entries_at_other)
  moreover have "m_buffer (machine_of (P(i := p')) (put_table a t (srv w))) j n =
      ((m_buffer (machine_of P (srv w)) j)(table_name a w := written (P(i := p')) j t)) n" for j n
    using name [of n] other [of n] found_valid [OF inv, of n] ptr
    by (cases "smap_find n (set_of_table (srv w))") (auto simp: machine_of_def entries_at_other)
  ultimately show ?thesis
    by (simp add: put_entries_def fun_eq_iff)
qed

lemma machine_at:
  assumes "thread_inv i p w" "valid_ptr a (srv w)"
  shows "m_store (machine_of P (srv w)) (table_name a w) = Some (entries_at P (table_at a (srv w)))"
    and "m_buffer (machine_of P (srv w)) j (table_name a w) = written P j (table_at a (srv w))"
  using srv_wfD(5) [OF thread_invD(1) [OF assms(1)] assms(2)]
  by (simp_all add: machine_of_def table_name_def)

lemma machine_put_same:
  assumes "thread_inv i p w" "P i = p" "valid_ptr a (srv w)"
    and "same_mode p p' \<or> owned p (locked_tables (conn w)) \<subseteq> {a}"
    and "entries_at (P(i := p')) t = entries_at P (table_at a (srv w))"
    and "\<And>j. written (P(i := p')) j t = written P j (table_at a (srv w))"
  shows "machine_of (P(i := p')) (put_table a t (srv w)) = machine_of P (srv w)"
  using machine_put [where P = P, OF assms(1-4), of t] machine_at [OF assms(1,3), of P] assms(5,6)
  by (cases "machine_of P (srv w)") (auto simp: put_entries_def fun_upd_idem fun_eq_iff)

section \<open>Each step is its act\<close>

definition acts :: "tid \<Rightarrow> act \<Rightarrow> (tid \<Rightarrow> pc) \<Rightarrow> server \<Rightarrow> pc \<Rightarrow> server \<Rightarrow> bool" where
  "acts i a P s p' s' \<longleftrightarrow> machine_act i a (machine_of P s) = Some (machine_of (P(i := p')) s')"

lemma acts_silent: "machine_of (P(i := p')) s' = machine_of P s \<Longrightarrow> acts i Silent P s p' s'"
  by (simp add: acts_def)

lemma silent_local:
  assumes "thread_inv i p w" "P i = p" "same_mode p p' \<or> owned p (locked_tables (conn w)) = {}" "srv w' = srv w"
  shows "acts i Silent P (srv w) p' (srv w')"
  using machine_same [where P = P, OF assms(1-3), of "srv w'"] assms(4) by (simp add: acts_silent)

lemma silent_put:
  assumes "thread_inv i p w" "P i = p" "valid_ptr a (srv w)"
    and "same_mode p p' \<or> owned p (locked_tables (conn w)) \<subseteq> {a}"
    and "entries_at (P(i := p')) (f (table_at a (srv w))) = entries_at P (table_at a (srv w))"
    and "\<And>j. written (P(i := p')) j (f (table_at a (srv w))) = written P j (table_at a (srv w))"
  shows "acts i Silent P (srv w) p' (srv (upd_table a f w))"
  using machine_put_same [where P = P, OF assms] by (simp add: acts_silent)

text \<open>Nothing is pending in a free table.\<close>

lemma free_pending:
  "thread_inv i p w \<Longrightarrow> valid_ptr a (srv w) \<Longrightarrow> table_mutex (table_at a (srv w)) = None \<Longrightarrow>
    pending (table_at a (srv w)) = Map.empty"
  using srv_wfD(4) [OF thread_invD(1)] by (auto simp: pending_def)

lemma temp_pending: "key_value_temp t = [] \<Longrightarrow> pending t = Map.empty \<and> view t = committed t"
  by (simp add: view_def pending_def)

lemma new_table_entries [simp]: "entries_at P (table_new n) = Map.empty" "written P j (table_new n) = Map.empty"
  by (simp_all add: entries_at_def written_def mutex_init_def)

lemmas acts_simps = entries_at_def written_def same_mode_def

lemma acts_map:
  assumes inv: "thread_inv i (Map_look op) w" and P: "P i = Map_look op" and m: "micro i (Map_look op) w = (Ok p', w')"
  shows "acts i (step_act (Map_look op) w p' w') P (srv w) p' (srv w')"
proof (cases op)
  case (Op_find n acc)
  then have "srv w' = srv w" "\<exists>r. p' = Map_leave op r"
    using m thread_invD(7) [OF inv] by (auto simp: map_look_find_run simp del: micro.simps)
  then show ?thesis
    using silent_local [where P = P, OF inv P, of p' w'] Op_find by (auto simp: step_act_def same_mode_def)
next
  case (Op_create n)
  show ?thesis
  proof (cases "smap_find n (set_of_table (srv w)) = None")
    case False
    then have "srv w' = srv w" "\<exists>e. p' = Map_leave op (Inl e)"
      using m thread_invD(7) [OF inv] Op_create by (auto simp: map_look_create_run simp del: micro.simps)
    then show ?thesis
      using silent_local [where P = P, OF inv P, of p' w'] Op_create by (auto simp: step_act_def same_mode_def)
  next
    case True
    then have s': "srv w' = add_table n (srv w)" and p': "\<exists>a. p' = Map_leave op (Inr a)"
      using m thread_invD(7) [OF inv] Op_create by (auto simp: map_look_create_run simp del: micro.simps)
    have mode: "same_mode (P i) p'"
      using p' P by (auto simp: same_mode_def)
    have "m_store (machine_of (P(i := p')) (srv w')) k = ((m_store (machine_of P (srv w)))(n \<mapsto> Map.empty)) k" for k
      using found_valid [OF inv, of k] mode
      by (cases "smap_find k (set_of_table (srv w))") (auto simp: s' machine_of_def entries_at_other)
    moreover have "m_buffer (machine_of (P(i := p')) (srv w')) j k = m_buffer (machine_of P (srv w)) j k" for j k
      using found_valid [OF inv, of k] mode True
      by (cases "smap_find k (set_of_table (srv w))") (auto simp: s' machine_of_def entries_at_other)
    moreover have "m_store (machine_of P (srv w)) n = None"
      using True by (simp add: machine_of_def)
    ultimately show ?thesis
      using p' Op_create by (auto simp: acts_def step_act_def fun_eq_iff)
  qed
qed

lemma acts_txn_lock:
  assumes inv: "thread_inv i (Txn_lock n a acc) w" and P: "P i = Txn_lock n a acc"
    and m: "micro i (Txn_lock n a acc) w = (Ok p', w')"
  shows "acts i Silent P (srv w) p' (srv w')"
proof -
  have ptr: "valid_ptr a (srv w)"
    using txn_facts(1) [OF inv, of n a acc] by simp
  show ?thesis
  proof (cases "a \<notin> set (locked_tables (conn w)) \<and> table_mutex (table_at a (srv w)) = None")
    case True
    then have w': "w' = acquire i a w" "p' = Txn_use a acc"
      using m ptr by (auto simp: txn_lock_run simp del: micro.simps)
    have "acts i Silent P (srv w) p' (srv (set_mutex a (Some i) w))"
      using True w' P free_pending [OF inv ptr] by (intro silent_put [where P = P, OF inv P ptr]) (auto simp: acts_simps)
    then show ?thesis
      using w' by simp
  next
    case False
    then have "srv w' = srv w" "same_mode (P i) p'"
      using m ptr P by (auto simp: txn_lock_run same_mode_def simp del: micro.simps split: if_splits)
    then show ?thesis
      using silent_local [where P = P, OF inv P, of p' w'] P by simp
  qed
qed

text \<open>Using a table inside a transaction.\<close>

lemma acts_txn_use:
  assumes inv: "thread_inv i (Txn_use a acc) w" and P: "P i = Txn_use a acc"
    and m: "micro i (Txn_use a acc) w = (Ok p', w')"
  shows "acts i (step_act (Txn_use a acc) w p' w') P (srv w) p' (srv w')"
proof -
  note T = txn_facts [OF inv, of _ a acc, simplified]
  note run = txn_use_run [OF T(1,3), of acc]
  have mode: "same_mode (P i) p'"
    using m run P by (auto simp: same_mode_def no_key_def split: option.splits)
  have w: "written P i (table_at a (srv w)) = pending (table_at a (srv w))"
    and e: "entries_at P (table_at a (srv w)) = committed (table_at a (srv w))"
    using T(3) P by (simp_all add: acts_simps)
  note at = machine_at [OF inv T(1), of P, unfolded e]
  have ov: "overlay (m_store (machine_of P (srv w))) (m_buffer (machine_of P (srv w)) i) (table_name a w)
      = Some (view (table_at a (srv w)))"
    by (simp add: overlay_def at w view_def)
  show ?thesis
  proof (cases acc)
    case (Get_key k)
    have "got p' w' = view (table_at a (srv w)) k" "srv w' = srv w"
      using m run Get_key by (auto split: option.splits)
    moreover have "machine_of (P(i := p')) (srv w) = machine_of P (srv w)"
      using machine_same [where P = P, OF inv P, of p' "srv w"] mode P by simp
    ultimately show ?thesis
      using ov Get_key by (simp add: acts_def step_act_def)
  next
    case (Set_key k v)
    have w': "w' = upd_table a (table_set k v) w" "p' = Reply"
      using m run Set_key by (auto split: option.splits)
    let ?t = "table_set k v (table_at a (srv w))"
    have "entries_at (P(i := p')) ?t = committed (table_at a (srv w))"
      "\<And>j. written (P(i := p')) j ?t = (if j = i then (pending (table_at a (srv w)))(k \<mapsto> v) else Map.empty)"
      using T(3) w'(2) by (auto simp: acts_simps)
    moreover have "m_buffer (machine_of P (srv w)) j (table_name a w) = Map.empty" if "j \<noteq> i" for j
      using at(2) [of j] T(3) that by (simp add: written_def)
    ultimately have "machine_of (P(i := p')) (srv w') = (machine_of P (srv w))
        \<lparr>m_buffer := (m_buffer (machine_of P (srv w)))(i := buffer_op (Put (table_name a w) k v) (m_buffer (machine_of P (srv w)) i))\<rparr>"
      using machine_put [where P = P, OF inv P T(1), of p' ?t] mode P w' at w
      by (cases "machine_of P (srv w)") (auto simp: put_entries_def fun_eq_iff fun_upd_idem)
    then show ?thesis
      using ov Set_key by (simp add: acts_def step_act_def)
  qed
qed

text \<open>A statement outside a transaction.\<close>

lemma guard_owned:
  assumes "thread_inv i p w" "p \<in> {Guard_use a acc, Guard_commit a acc, Guard_leave a e}"
  shows "owned p (locked_tables (conn w)) \<subseteq> {a}"
  using assms(2) by auto

lemma acts_guard_enter:
  assumes inv: "thread_inv i (Guard_enter a acc) w" and P: "P i = Guard_enter a acc"
    and m: "micro i (Guard_enter a acc) w = (Ok p', w')"
  shows "acts i Silent P (srv w) p' (srv w')"
proof -
  have ptr: "valid_ptr a (srv w)" and none: "locked_tables (conn w) = []"
    using thread_invD(6,8) [OF inv] by (auto simp: guards_def)
  then have free: "table_mutex (table_at a (srv w)) = None" and w': "w' = set_mutex a (Some i) w" "p' = Guard_use a acc"
    using m by (auto simp: guard_enter_run simp del: micro.simps split: option.splits)
  show ?thesis
    unfolding w' using free none free_pending [OF inv ptr free]
    by (intro silent_put [where P = P, OF inv P ptr]) (auto simp: acts_simps)
qed

lemma acts_guard_use:
  assumes inv: "thread_inv i (Guard_use a acc) w" and P: "P i = Guard_use a acc"
    and m: "micro i (Guard_use a acc) w = (Ok p', w')"
  shows "acts i (step_act (Guard_use a acc) w p' w') P (srv w) p' (srv w')"
proof -
  note G = guard_facts [OF inv, of a acc None, simplified]
  note run = guard_use_run [OF G(1,2), of acc]
  have temp: "key_value_temp (table_at a (srv w)) = []"
    using thread_invD(8) [OF inv] by simp
  have mode: "same_mode (P i) p'"
    using m run P by (cases acc) (auto simp: same_mode_def split: option.splits)
  show ?thesis
  proof (cases acc)
    case (Get_key k)
    have e: "entries_at P (table_at a (srv w)) = view (table_at a (srv w))"
      using G(2) P temp_pending [OF temp] by (simp add: acts_simps)
    have "got p' w' = view (table_at a (srv w)) k" "srv w' = srv w"
      using m run Get_key by (auto split: option.splits)
    moreover have "machine_of (P(i := p')) (srv w) = machine_of P (srv w)"
      using machine_same [where P = P, OF inv P, of p' "srv w"] mode P by simp
    ultimately show ?thesis
      using machine_at(1) [OF inv G(1), of P] e Get_key by (simp add: acts_def step_act_def)
  next
    case (Set_key k v)
    have w': "w' = upd_table a (table_set k v) w" "p' = Guard_commit a (Set_key k v)"
      using m run Set_key by (auto split: option.splits)
    have "acts i Silent P (srv w) p' (srv w')"
      unfolding w' using Set_key P G(2) by (intro silent_put [where P = P, OF inv P G(1)]) (auto simp: acts_simps)
    then show ?thesis
      using Set_key by (simp add: step_act_def)
  qed
qed

lemma acts_guard_commit:
  assumes inv: "thread_inv i (Guard_commit a acc) w" and P: "P i = Guard_commit a acc"
    and m: "micro i (Guard_commit a acc) w = (Ok p', w')"
  shows "acts i (step_act (Guard_commit a acc) w p' w') P (srv w) p' (srv w')"
proof -
  note G = guard_facts [OF inv, of a acc None, simplified]
  obtain k v where kv: "acc = Set_key k v" "key_value_temp (table_at a (srv w)) = [(k, v)]"
    using thread_invD(8) [OF inv] by auto
  have w': "w' = upd_table a commit_changes w" "p' = Guard_leave a None"
    using m G by (simp_all add: held_steps_run del: micro.simps)
  let ?t = "table_at a (srv w)"
  have "table_wf ?t"
    using srv_wfD(3) [OF thread_invD(1) [OF inv] G(1)] .
  moreover have "pending ?t = [k \<mapsto> v]"
    using kv(2) by (simp add: pending_def smap_abs_def fun_eq_iff)
  ultimately have c: "committed (commit_changes ?t) = (committed ?t)(k \<mapsto> v)"
    by (simp add: committed_commit view_def)
  have e: "entries_at P ?t = committed ?t" "\<And>j. written P j ?t = Map.empty"
    using G(2) P by (auto simp: acts_simps)
  have "machine_of (P(i := p')) (srv w') = (machine_of P (srv w))
      \<lparr>m_store := (m_store (machine_of P (srv w)))(table_name a w \<mapsto> (committed ?t)(k \<mapsto> v))\<rparr>"
    using machine_put [where P = P, OF inv P G(1), of p' "commit_changes ?t"] machine_at [OF inv G(1), of P]
      P G(2) w' c e
    by (cases "machine_of P (srv w)") (auto simp: put_entries_def fun_eq_iff fun_upd_idem acts_simps)
  then show ?thesis
    using machine_at(1) [OF inv G(1), of P] e kv(1) by (simp add: acts_def step_act_def)
qed

lemma acts_guard_leave:
  assumes inv: "thread_inv i (Guard_leave a e) w" and P: "P i = Guard_leave a e"
    and m: "micro i (Guard_leave a e) w = (Ok p', w')"
  shows "acts i Silent P (srv w) p' (srv w')"
proof -
  note G = guard_facts [OF inv, where acc = "Get_key []", simplified]
  have temp: "key_value_temp (table_at a (srv w)) = []"
    using thread_invD(8) [OF inv] by simp
  have w': "w' = set_mutex a None w"
    using m G by (simp add: held_steps_run del: micro.simps)
  show ?thesis
    unfolding w' using G(2) P temp_pending [OF temp] guard_owned [OF inv]
    by (intro silent_put [where P = P, OF inv P G(1)]) (auto simp: acts_simps)
qed

text \<open>The tables of a transaction that ends.\<close>

lemma acts_end_table:
  assumes inv: "thread_inv i p w" and P: "P i = p" and a: "a \<in> owned p (locked_tables (conn w))"
    and "\<not> buffering p" "same_mode p p'"
    and f: "f = commit_changes \<and> committing p \<or> f = rollback_changes \<and> \<not> committing p"
  shows "acts i Silent P (srv w) p' (srv (upd_table a f w))"
proof -
  note own = owned_valid [OF inv a]
  have "committed (commit_changes (table_at a (srv w))) = view (table_at a (srv w))"
    using committed_commit srv_wfD(3) [OF thread_invD(1) [OF inv] own(1)] by blast
  then show ?thesis
    using own P assms(4-6)
    by (intro silent_put [where P = P, OF inv P own(1)]) (auto simp: acts_simps view_def)
qed

lemma acts_end_unlock:
  assumes inv: "thread_inv i p w" and P: "P i = p" and a: "a \<in> owned p (locked_tables (conn w))"
    and mode: "\<not> buffering p" "same_mode p p'" and temp: "key_value_temp (table_at a (srv w)) = []"
  shows "acts i Silent P (srv w) p' (srv (set_mutex a None w))"
  using owned_valid [OF inv a] P mode temp_pending [OF temp]
  by (intro silent_put [where P = P, OF inv P]) (auto simp: acts_simps)

lemma acts_commit:
  assumes inv: "thread_inv i (Commit_table as) w" and P: "P i = Commit_table as"
    and m: "micro i (Commit_table as) w = (Ok p', w')"
  shows "acts i Silent P (srv w) p' (srv w')"
proof (cases as)
  case Nil
  then show ?thesis
    using m silent_local [where P = P, OF inv P, of Reply w'] by (auto simp: local_steps_run simp del: micro.simps)
next
  case (Cons a bs)
  then have "a \<in> owned (Commit_table as) (locked_tables (conn w))"
    by simp
  note own = owned_valid [OF inv this] and step = acts_end_table [where P = P, OF inv P this, of "Commit_unlock a bs" commit_changes]
  show ?thesis
    using m step own Cons by (auto simp: held_steps_run same_mode_def simp del: micro.simps)
qed

lemma acts_undo:
  assumes inv: "thread_inv i (Undo_table as u) w" and P: "P i = Undo_table as u"
    and m: "micro i (Undo_table as u) w = (Ok p', w')"
  shows "acts i Silent P (srv w) p' (srv w')"
proof (cases as)
  case Nil
  then show ?thesis
    using m silent_local [where P = P, OF inv P, of p' w']
    by (cases u) (auto simp: local_steps_run text_steps_run simp del: micro.simps split: sum.splits)
next
  case (Cons a bs)
  then have "a \<in> owned (Undo_table as u) (locked_tables (conn w))"
    by simp
  note own = owned_valid [OF inv this] and step = acts_end_table [where P = P, OF inv P this, of "Undo_unlock a bs u" rollback_changes]
  show ?thesis
    using m step own Cons by (auto simp: held_steps_run same_mode_def simp del: micro.simps)
qed

lemma acts_unlocks:
  "thread_inv i (Commit_unlock a as) w \<Longrightarrow> P i = Commit_unlock a as \<Longrightarrow>
    micro i (Commit_unlock a as) w = (Ok p', w') \<Longrightarrow> acts i Silent P (srv w) p' (srv w')"
  "thread_inv i (Undo_unlock a as u) w \<Longrightarrow> P i = Undo_unlock a as u \<Longrightarrow>
    micro i (Undo_unlock a as u) w = (Ok p', w') \<Longrightarrow> acts i Silent P (srv w) p' (srv w')"
proof -
  show "acts i Silent P (srv w) p' (srv w')" if inv: "thread_inv i (Commit_unlock a as) w"
    and P: "P i = Commit_unlock a as" and m: "micro i (Commit_unlock a as) w = (Ok p', w')"
    using m owned_valid [OF inv, of a] thread_invD(8) [OF inv]
      acts_end_unlock [where P = P, OF inv P, of a "Commit_table as"]
    by (auto simp: held_steps_run same_mode_def simp del: micro.simps)
  show "acts i Silent P (srv w) p' (srv w')" if inv: "thread_inv i (Undo_unlock a as u) w"
    and P: "P i = Undo_unlock a as u" and m: "micro i (Undo_unlock a as u) w = (Ok p', w')"
    using m owned_valid [OF inv, of a] thread_invD(8) [OF inv]
      acts_end_unlock [where P = P, OF inv P, of a "Undo_table as u"]
    by (auto simp: held_steps_run same_mode_def simp del: micro.simps)
qed

text \<open>The first step of an end of a transaction is where it ends for the others.\<close>

lemma acts_end:
  assumes inv: "thread_inv i p w" and P: "P i = p" and p: "buffering p" "\<not> committing p" and p': "\<not> buffering p'"
    and "owned p (locked_tables (conn w)) = set (locked_tables (conn w))"
  shows "acts i (if committing p' then Commit else Abort) P (srv w) p' (srv w)"
proof -
  have store: "m_store (machine_of (P(i := p')) (srv w)) n = (if committing p'
      then overlay (m_store (machine_of P (srv w))) (m_buffer (machine_of P (srv w)) i) n
      else m_store (machine_of P (srv w)) n)" for n
    using p p' P
    by (cases "smap_find n (set_of_table (srv w))")
       (auto simp: machine_of_def overlay_def entries_at_def written_def view_def split: option.splits)
  have buffer: "m_buffer (machine_of (P(i := p')) (srv w)) j n =
      (if j = i then Map.empty else m_buffer (machine_of P (srv w)) j n)" for j n
    using p' by (auto simp: machine_of_def written_def split: option.splits)
  have "machine_of (P(i := p')) (srv w) = \<lparr>m_store = (if committing p'
      then overlay (m_store (machine_of P (srv w))) (m_buffer (machine_of P (srv w)) i)
      else m_store (machine_of P (srv w))), m_buffer = (m_buffer (machine_of P (srv w)))(i := no_buffer)\<rparr>"
    using store buffer by (cases "machine_of (P(i := p')) (srv w)") (auto simp: fun_eq_iff no_buffer_def)
  then show ?thesis
    by (cases "machine_of P (srv w)") (auto simp: acts_def)
qed

lemma acts_raised:
  assumes inv: "thread_inv i (Raised e) w" and P: "P i = Raised e" and m: "micro i (Raised e) w = (Ok p', w')"
  shows "acts i (step_act (Raised e) w p' w') P (srv w) p' (srv w')"
proof (cases e)
  case (FailedTransaction t)
  then show ?thesis
    using m acts_end [where P = P, OF inv P, of p']
    by (auto simp: local_steps_run step_act_def simp del: micro.simps)
qed (use m silent_local [where P = P, OF inv P, of p' w'] in
  \<open>auto simp: local_steps_run text_steps_run step_act_def same_mode_def simp del: micro.simps split: sum.splits\<close>)

lemma acts_local:
  "thread_inv i Closing w \<Longrightarrow> P i = Closing \<Longrightarrow> micro i Closing w = (Ok p', w') \<Longrightarrow>
    acts i Abort P (srv w) p' (srv w')"
  "thread_inv i Reply w \<Longrightarrow> P i = Reply \<Longrightarrow> micro i Reply w = (Ok p', w') \<Longrightarrow>
    acts i Silent P (srv w) p' (srv w')"
proof -
  show "acts i Abort P (srv w) p' (srv w')" if inv: "thread_inv i Closing w" and P: "P i = Closing"
    and m: "micro i Closing w = (Ok p', w')"
    using m acts_end [where P = P, OF inv P, of p'] by (auto simp: local_steps_run simp del: micro.simps)
  show "acts i Silent P (srv w) p' (srv w')" if inv: "thread_inv i Reply w" and P: "P i = Reply"
    and m: "micro i Reply w = (Ok p', w')"
    using m silent_local [where P = P, OF inv P, of p' w']
    by (auto simp: local_steps_run same_mode_def simp del: micro.simps)
qed

lemma acts_map_lock:
  "thread_inv i (Map_enter op) w \<Longrightarrow> P i = Map_enter op \<Longrightarrow> micro i (Map_enter op) w = (Ok p', w') \<Longrightarrow>
    acts i Silent P (srv w) p' (srv w')"
  "thread_inv i (Map_leave op r) w \<Longrightarrow> P i = Map_leave op r \<Longrightarrow> micro i (Map_leave op r) w = (Ok p', w') \<Longrightarrow>
    acts i Silent P (srv w) p' (srv w')"
proof -
  have same: "machine_of (P(i := p')) ((srv w)\<lparr>table_lock := m\<rparr>) = machine_of P (srv w)"
    if "thread_inv i p w" "P i = p" "same_mode p p'" for m p
    using machine_same [where P = P, OF that(1,2)] that(3) by simp
  show "acts i Silent P (srv w) p' (srv w')" if inv: "thread_inv i (Map_enter op) w" and P: "P i = Map_enter op"
    and m: "micro i (Map_enter op) w = (Ok p', w')"
    using m same [OF inv P]
    by (auto simp: map_enter_run acts_def same_mode_def simp del: micro.simps split: option.splits)
  show "acts i Silent P (srv w) p' (srv w')" if inv: "thread_inv i (Map_leave op r) w" and P: "P i = Map_leave op r"
    and m: "micro i (Map_leave op r) w = (Ok p', w')"
  proof -
    have "same_mode (Map_leave op r) p'" "srv w' = (srv w)\<lparr>table_lock := None\<rparr>"
      using m thread_invD(7) [OF inv]
      by (auto simp: map_leave_run after_map_def same_mode_def simp del: micro.simps split: sum.splits map_op.splits if_splits)
    then show ?thesis
      using same [OF inv P] by (simp add: acts_def)
  qed
qed

text \<open>Every step of a thread.\<close>

lemma acts_micro:
  assumes "thread_inv i p w" "P i = p" "micro i p w = (Ok p', w')"
  shows "acts i (step_act p w p' w') P (srv w) p' (srv w')"
proof (cases p)
  case Ready
  then show ?thesis using assms by (simp add: local_steps_run del: micro.simps)
next
  case Ended
  then show ?thesis using assms by (simp add: local_steps_run del: micro.simps)
next
  case (Guard_use a acc)
  then show ?thesis using assms acts_guard_use by blast
next
  case (Txn_use a acc)
  then show ?thesis using assms acts_txn_use by blast
next
  case (Guard_commit a acc)
  then show ?thesis using assms acts_guard_commit by blast
next
  case (Map_look op)
  then show ?thesis using assms acts_map by blast
next
  case (Raised e)
  then show ?thesis using assms acts_raised by blast
qed (use assms in \<open>auto simp: step_act_def simp del: micro.simps
    intro: acts_txn_lock acts_guard_enter acts_guard_leave acts_commit acts_undo acts_unlocks acts_local acts_map_lock\<close>)

section \<open>The first step of a turn\<close>

definition start_place :: "pc \<Rightarrow> world \<Rightarrow> bool" where
  "start_place p w \<longleftrightarrow> p = Ready \<or> p = Closing \<or> (\<exists>op. p = Map_enter op) \<or> (\<exists>e. p = Raised e)
     \<or> p = Commit_table (locked_tables (conn w))"

lemma begin_place:
  assumes inv: "thread_inv i Ready w" and m: "begin_turn i buf w = (Ok p, w')"
  shows "start_place p w \<and> srv w' = srv w \<and> locked_tables (conn w') = locked_tables (conn w)"
proof (cases "admitted buf w")
  case None
  with m show ?thesis by (auto simp: begin_turn_run start_place_def)
next
  case (Some req)
  then have valid: "is_valid req" and run: "raising (start_request i req) w = (Ok p, w')"
    using admittedD m by (auto simp: begin_turn_run)
  note acc = valid_accessors [OF valid, folded get_message_type_def]
  show ?thesis
  proof (cases "map_request (get_message_type req)")
    case True
    then show ?thesis
      using run acc(1,2)
      by (auto simp: map_request_def start_map_request [OF valid inv] start_place_def split: list.splits if_splits)
  next
    case False
    obtain r u where d: "dispatch i req w = (r, u)"
      by (cases "dispatch i req w")
    show ?thesis
      using run dispatch_local [OF False valid, of w i]
      by (cases r) (auto simp: start_local_request [OF False] d local_step_def start_place_def split: if_splits)
  qed
qed

lemma acts_begin:
  assumes inv: "thread_inv i Ready w" and P: "P i = Ready" and m: "begin_turn i buf w = (Ok p', w')"
  shows "acts i (step_act Ready w p' w') P (srv w) p' (srv w')"
proof -
  note b = begin_place [OF inv m]
  show ?thesis
  proof (cases "p' = Commit_table (locked_tables (conn w))")
    case True
    then show ?thesis
      using acts_end [where P = P, OF inv P, of p'] b by (simp add: step_act_def)
  next
    case False
    then have "same_mode Ready p'" "step_act Ready w p' w' = Silent"
      using b by (auto simp: start_place_def same_mode_def step_act_def)
    then show ?thesis
      using silent_local [where P = P, OF inv P, of p' w'] b by simp
  qed
qed

section \<open>What a transaction has locked it keeps\<close>

definition kept :: "world \<Rightarrow> pc \<Rightarrow> world \<Rightarrow> bool" where
  "kept w p' w' \<longleftrightarrow> locked_tables (conn w) = [] \<or>
     buffering p' \<and> set (locked_tables (conn w)) \<subseteq> set (locked_tables (conn w'))"

lemma used_locked: "used a acc w = Some w' \<Longrightarrow> locked_tables (conn w') = locked_tables (conn w)"
  by (cases acc) auto

lemma kept_begin:
  assumes "thread_inv i Ready w" "begin_turn i buf w = (Ok p, w')" "\<not> ends_txn (step_act Ready w p w')"
  shows "kept w p w'"
  using begin_place [OF assms(1,2)] assms(3) by (auto simp: start_place_def kept_def step_act_def)

lemma kept_map:
  assumes inv: "thread_inv i p w" and m: "micro i p w = (Ok p', w')"
    and p: "p = Map_enter op \<or> p = Map_look op \<or> p = Map_leave op r"
  shows "kept w p' w'"
proof -
  have l: "p \<noteq> Map_enter op \<Longrightarrow> table_lock (srv w) = Some i"
    using p thread_invD(7) [OF inv] by auto
  from p show ?thesis
  proof (elim disjE)
    assume "p = Map_enter op"
    then show ?thesis
      using m by (auto simp: map_enter_run kept_def simp del: micro.simps split: option.splits)
  next
    assume "p = Map_look op"
    then show ?thesis
      using m l by (cases op) (auto simp: map_look_create_run map_look_find_run kept_def simp del: micro.simps split: if_splits)
  next
    assume "p = Map_leave op r"
    then show ?thesis
      using m l by (auto simp: map_leave_run after_map_def kept_def simp del: micro.simps split: sum.splits map_op.splits if_splits)
  qed
qed

lemma kept_txn:
  assumes inv: "thread_inv i p w" and m: "micro i p w = (Ok p', w')" and p: "p = Txn_lock n a acc \<or> p = Txn_use a acc"
  shows "kept w p' w'"
  using p
proof
  assume p: "p = Txn_lock n a acc"
  then show ?thesis
    using m txn_facts(1) [OF inv, of n a acc]
    by (auto simp: txn_lock_run kept_def set_insort_insert simp del: micro.simps split: if_splits)
next
  assume p: "p = Txn_use a acc"
  then show ?thesis
    using m txn_facts [OF inv, of n a acc] used_locked [of a acc w]
    by (auto simp: txn_use_run kept_def simp del: micro.simps split: option.splits)
qed

lemma kept_micro:
  assumes inv: "thread_inv i p w" and m: "micro i p w = (Ok p', w')" and "buffering p"
    and "\<not> ends_txn (step_act p w p' w')"
  shows "kept w p' w'"
proof (cases p)
  case (Raised e)
  then show ?thesis
    using m assms(4)
    by (cases e) (auto simp: local_steps_run text_steps_run step_act_def kept_def simp del: micro.simps split: sum.splits)
next
  case (Guard_enter a acc)
  then show ?thesis
    using thread_invD(6,8) [OF inv] by (auto simp: guards_def kept_def)
qed (use assms kept_map kept_txn in \<open>auto simp: local_steps_run step_act_def kept_def simp del: micro.simps\<close>)

section \<open>The running server\<close>

definition shown :: "threads \<Rightarrow> machine" where
  "shown T = machine_of (th_pc T) (sys_srv (th_sys T))"

definition held_by :: "threads \<Rightarrow> tid \<Rightarrow> string set" where
  "held_by T = held_of (th_pc T) (sys_srv (th_sys T))"

text \<open>Whose step an event is, and which act.\<close>

fun label :: "th_event \<Rightarrow> threads \<Rightarrow> threads \<Rightarrow> tid \<times> act" where
  "label (Th_accept fd created) T T' = (next_tid (th_sys T), Silent)"
| "label (Th_line i buf) T T' = (i, step_act (th_pc T i) (world_of i (th_sys T)) (th_pc T' i) (world_of i (th_sys T')))"
| "label (Th_eof i) T T' = (i, Silent)"
| "label (Th_run i) T T' = (i, step_act (th_pc T i) (world_of i (th_sys T)) (th_pc T' i) (world_of i (th_sys T')))"

definition labelled :: "threads \<Rightarrow> tid \<times> act \<Rightarrow> threads \<Rightarrow> bool" where
  "labelled T l T' \<longleftrightarrow> (\<exists>e. exec_th e T = Some T' \<and> l = label e T T')"

text \<open>A step after which the process no longer runs is no act.\<close>

lemma exn_silent:
  assumes "thread_inv i p w" "micro i p w = (Exn e, w')"
  shows "step_act p w p w'' = Silent"
proof (cases p)
  case (Raised x)
  then show ?thesis
    using assms(2) by (cases x) (auto simp: local_steps_run step_act_def simp del: micro.simps)
next
  case (Txn_use a acc)
  then show ?thesis
    using assms(2) txn_facts [OF assms(1), of _ a acc]
    by (auto simp: txn_use_run simp del: micro.simps split: option.splits)
next
  case (Guard_use a acc)
  then show ?thesis
    using assms(2) guard_facts [OF assms(1), of a acc None]
    by (auto simp: guard_use_run simp del: micro.simps split: option.splits)
next
  case (Guard_commit a acc)
  then show ?thesis
    using assms(2) guard_facts [OF assms(1), of a acc None]
    by (auto simp: held_steps_run simp del: micro.simps)
next
  case (Map_look op)
  then show ?thesis by (cases op) (simp_all add: step_act_def)
next
  case Closing
  then show ?thesis
    using assms(2) by (simp add: local_steps_run del: micro.simps)
qed (simp_all add: step_act_def)

lemma machine_unowned:
  assumes "srv_wf s" "unowned i s"
  shows "machine_of (P(i := p')) s = machine_of P s" "held_of (P(i := p')) s = held_of P s"
proof -
  have "table_mutex (table_at a s) \<noteq> Some i" if "smap_find n (set_of_table s) = Some a" for n a
    using assms(2) srv_wfD(1) [OF assms(1) that] by (simp add: unowned_def)
  then show "machine_of (P(i := p')) s = machine_of P s" "held_of (P(i := p')) s = held_of P s"
    by (auto simp: machine_of_def held_of_def entries_at_other fun_eq_iff split: option.split intro!: map_option_cong)
qed

lemma stopped_step:
  "put_thread i (r, w) T = Some T' \<Longrightarrow> srv w = sys_srv (th_sys T) \<Longrightarrow> \<forall>p. r \<noteq> Ok p \<Longrightarrow>
    shown T' = shown T \<and> held_by T' = held_by T \<and> th_pc T' i = th_pc T i"
  by (cases r) (auto simp: put_thread_def shown_def held_by_def)

lemma machine_put_thread:
  assumes "put_thread i (Ok p, w) T = Some T'"
  shows "shown T' = machine_of ((th_pc T)(i := p)) (srv w)" "held_by T' = held_of ((th_pc T)(i := p)) (srv w)"
    "th_pc T' i = p" "world_of i (th_sys T') = w"
  using assms by (auto simp: put_thread_def shown_def held_by_def)

text \<open>What a step of the system is, with everything known of it.\<close>

definition own_step :: "tid \<Rightarrow> act \<Rightarrow> threads \<Rightarrow> pc \<Rightarrow> world \<Rightarrow> bool" where
  "own_step i a T p w \<longleftrightarrow> runnable i T \<and> moved i (world_of i (th_sys T)) p w
     \<and> acts i a (th_pc T) (sys_srv (th_sys T)) p (srv w)
     \<and> a = step_act (th_pc T i) (world_of i (th_sys T)) p w
     \<and> (buffering (th_pc T i) \<longrightarrow> \<not> ends_txn a \<longrightarrow> kept (world_of i (th_sys T)) p w)"

lemma labelled_cases:
  assumes inv: "th_inv T" and l: "labelled T (i, a) T'"
  obtains (still) "shown T' = shown T" "held_by T' = held_by T" "a = Silent"
    | (own) p w where "own_step i a T p w" "shown T' = machine_of ((th_pc T)(i := p)) (srv w)"
      "held_by T' = held_of ((th_pc T)(i := p)) (srv w)"
proof -
  obtain e where e: "exec_th e T = Some T'" "(i, a) = label e T T'"
    using l by (auto simp: labelled_def)
  from e(1) have "th_step T e T'"
    by (simp only: exec_th_step)
  then show thesis
  proof (cases rule: th_step.cases)
    case (accept fd created)
    have "sessions (th_sys T) (next_tid (th_sys T)) = None"
      using th_invD(2) [OF inv, of "next_tid (th_sys T)"] by blast
    then have "unowned (next_tid (th_sys T)) (sys_srv (th_sys T))"
      using th_invD(4) [OF inv accept(3)] by (simp add: live_Some)
    moreover have "sys_srv (accept_connection fd created (th_sys T)) = sys_srv (th_sys T)"
      by (simp add: accept_eq world_new_def log_error_def)
    ultimately show ?thesis
      using still e accept machine_unowned [OF th_invD(1) [OF inv]] by (simp add: shown_def held_by_def)
  next
    case (eof j)
    have "thread_inv j Ready (world_of j (th_sys T))" "thread_inv j Closing (world_of j (th_sys T))"
      using th_invD(3) [OF inv eof(3)] eof(4) by (auto simp: thread_inv_def)
    then have "own_step j Silent T Closing (world_of j (th_sys T))"
      using silent_local [where P = "th_pc T" and i = j, of Ready "world_of j (th_sys T)" Closing "world_of j (th_sys T)"] eof
      by (simp add: own_step_def moved_def step_act_def same_mode_def kept_def)
    then show ?thesis
      using own e eof by (simp add: shown_def held_by_def)
  next
    case (line j buf)
    obtain r w where b: "begin_turn j buf (world_of j (th_sys T)) = (r, w)"
      by (cases "begin_turn j buf (world_of j (th_sys T))")
    have ti: "thread_inv j Ready (world_of j (th_sys T))"
      using th_invD(3) [OF inv line(2)] line(3) by simp
    note fine = begin_turn_fine [OF ti, of buf, unfolded b]
    note put = line(4) [unfolded b]
    show ?thesis
    proof (cases r)
      case (Ok p)
      note P = machine_put_thread [OF put [unfolded Ok]]
      have "own_step j (step_act Ready (world_of j (th_sys T)) p w) T p w"
        using fine Ok line acts_begin [where P = "th_pc T", OF ti line(3), of buf p w] kept_begin [OF ti, of buf p w] b by (simp add: own_step_def)
      then show ?thesis
        using own e line P by simp
    next
      case Undef
      then have "shown T' = shown T \<and> held_by T' = held_by T \<and> th_pc T' j = th_pc T j"
        using stopped_step [OF put] fine by simp
      then show ?thesis
        using still e line by (simp add: step_act_def)
    qed (use fine in simp_all)
  next
    case (run j)
    obtain r w where m: "micro j (th_pc T j) (world_of j (th_sys T)) = (r, w)"
      by (cases "micro j (th_pc T j) (world_of j (th_sys T))")
    note ti = th_invD(3) [OF inv run(2)]
    note fine = micro_fine [OF ti, unfolded m]
    note put = run(3) [unfolded m]
    show ?thesis
    proof (cases r)
      case (Ok p)
      note P = machine_put_thread [OF put [unfolded Ok]]
      have "own_step j (step_act (th_pc T j) (world_of j (th_sys T)) p w) T p w"
        using fine Ok run acts_micro [where P = "th_pc T", OF ti refl m [unfolded Ok]] kept_micro [OF ti m [unfolded Ok]]
        by (simp add: own_step_def)
      then show ?thesis
        using own e run P by simp
    next
      case (Exn x)
      then have "shown T' = shown T \<and> held_by T' = held_by T \<and> th_pc T' j = th_pc T j"
        using stopped_step [OF put] fine by simp
      then show ?thesis
        using still e run exn_silent [OF ti m [unfolded Exn]] by simp
    next
      case Blocked
      then show ?thesis
        using put by (simp add: put_thread_def)
    qed (use fine in simp_all)
  qed
qed

end
