(* ===== verification/ThreadSerial.thy ===== *)
theory ThreadSerial
  imports ThreadStore
begin

text \<open>
  The server as an instance of two-phase locking: its executions, interleaved as they may be, are
  serial executions of its transactions in the order they committed.
\<close>

section \<open>The laws\<close>

lemma held_step:
  assumes inv: "th_inv T" and own: "own_step i a T p w" and j: "j \<noteq> i \<or> \<not> ends_txn a"
  shows "held_of (th_pc T) (sys_srv (th_sys T)) j \<subseteq> held_of ((th_pc T)(i := p)) (srv w) j"
proof
  fix n
  assume "n \<in> held_of (th_pc T) (sys_srv (th_sys T)) j"
  then obtain b where b: "smap_find n (set_of_table (sys_srv (th_sys T))) = Some b"
    "table_mutex (table_at b (sys_srv (th_sys T))) = Some j" "buffering (th_pc T j)"
    by (auto simp: held_of_def)
  have run: "runnable i T" and inv': "thread_inv i p w"
    and fr: "frame i (sys_srv (th_sys T)) (srv w)"
    using own by (auto simp: own_step_def moved_def th_frame_def)
  note ti = th_invD(3) [OF inv run]
  have ptr: "valid_ptr b (sys_srv (th_sys T))"
    using srv_wfD(1) [OF th_invD(1) [OF inv] b(1)] .
  note find = frameD(3) [OF fr b(1)] and ptr' = frameD(1) [OF fr ptr]
  show "n \<in> held_of ((th_pc T)(i := p)) (srv w) j"
  proof (cases "j = i")
    case False
    then show ?thesis
      using b find frameD(4) [OF fr ptr b(2) False] by (auto simp: held_of_def)
  next
    case True
    have k: "kept (world_of i (th_sys T)) p w"
      using own j b(3) True by (simp add: own_step_def)
    have "owned q ls = set ls" if "buffering q" for q ls
      using that by (cases q) auto
    then have "b \<in> set (locked_tables (conn (world_of i (th_sys T))))"
      using thread_invD(2) [OF ti, of b] ptr b True by simp
    then have "buffering p" "b \<in> set (locked_tables (conn w))"
      using k by (auto simp: kept_def)
    moreover have "table_mutex (table_at b (srv w)) = Some i"
      using calculation thread_invD(2) [OF inv' ptr'] \<open>\<And>q ls. buffering q \<Longrightarrow> owned q ls = set ls\<close> by simp
    ultimately show ?thesis
      using find True by (auto simp: held_of_def)
  qed
qed

text \<open>Nobody changes what another thread holds, and a statement of its own only creates a table.\<close>

lemma store_other:
  assumes inv: "th_inv T" and own: "own_step i a T p w" and j: "j \<noteq> i"
    and n: "n \<in> held_of (th_pc T) (sys_srv (th_sys T)) j"
  shows "m_store (machine_of ((th_pc T)(i := p)) (srv w)) n = m_store (machine_of (th_pc T) (sys_srv (th_sys T))) n"
proof -
  obtain b where b: "smap_find n (set_of_table (sys_srv (th_sys T))) = Some b"
    "table_mutex (table_at b (sys_srv (th_sys T))) = Some j"
    using n by (auto simp: held_of_def)
  have fr: "frame i (sys_srv (th_sys T)) (srv w)"
    using own by (auto simp: own_step_def moved_def th_frame_def)
  have "table_at b (srv w) = table_at b (sys_srv (th_sys T))"
    using frameD(4) [OF fr srv_wfD(1) [OF th_invD(1) [OF inv] b(1)] b(2) j] .
  then show ?thesis
    using b frameD(3) [OF fr b(1)] j by (simp add: machine_of_def entries_at_def)
qed

lemma store_own:
  assumes own: "own_step i a T p w" and a: "\<not> ends_txn a"
    and n: "n \<in> held_of (th_pc T) (sys_srv (th_sys T)) i"
  shows "m_store (machine_of ((th_pc T)(i := p)) (srv w)) n = m_store (machine_of (th_pc T) (sys_srv (th_sys T))) n"
proof -
  let ?d = "machine_of (th_pc T) (sys_srv (th_sys T))" and ?d' = "machine_of ((th_pc T)(i := p)) (srv w)"
  have m: "machine_act i a ?d = Some ?d'" and act: "a = step_act (th_pc T i) (world_of i (th_sys T)) p w"
    using own by (auto simp: own_step_def acts_def)
  have n': "m_store ?d n \<noteq> None" and buf: "buffering (th_pc T i)"
    using n by (auto simp: held_of_def machine_of_def)
  show ?thesis
  proof (cases a)
    case (Auto x)
    then have "\<exists>k. x = Made k"
      using act buf by (cases "th_pc T i") (auto simp: step_act_def split: pc.splits sum.splits map_op.splits exn.splits)
    moreover have run: "run_op x (m_store ?d) = Some (m_store ?d')"
      using machine_actD(2) [OF m [unfolded Auto]] by blast
    ultimately have "n \<noteq> op_table x"
      using n' by (auto split: if_splits)
    with run show ?thesis
      by (rule run_op_frame)
  next
    case Silent
    then show ?thesis
      using machine_actD(1) [OF m [unfolded Silent]] by simp
  next
    case (Txn x)
    then show ?thesis
      using machine_actD(3) [OF m [unfolded Txn]] by simp
  qed (use a in simp_all)
qed

text \<open>A statement in a transaction is about a table the transaction has locked.\<close>

lemma txn_locked:
  assumes inv: "th_inv T" and own: "own_step i (Txn x) T p w"
  shows "op_table x \<in> held_of (th_pc T) (sys_srv (th_sys T)) i"
proof -
  let ?w = "world_of i (th_sys T)"
  have run: "runnable i T" and act: "Txn x = step_act (th_pc T i) ?w p w"
    using own by (auto simp: own_step_def)
  then obtain b acc where b: "th_pc T i = Txn_use b acc" "x = access_op (table_name b ?w) acc (got p w)"
    by (cases "th_pc T i") (auto simp: step_act_def split: pc.splits sum.splits map_op.splits exn.splits access.splits)
  note ti = th_invD(3) [OF inv run, unfolded b(1)]
  note F = txn_facts [OF ti, of _ b acc, simplified]
  have "op_table x = table_name b ?w"
    using b(2) by (cases acc) simp_all
  moreover have "smap_find (table_name b ?w) (set_of_table (sys_srv (th_sys T))) = Some b"
    using srv_wfD(5) [OF th_invD(1) [OF inv], of b] F(1) by (simp add: table_name_def)
  ultimately show ?thesis
    using F(3) b(1) by (auto simp: held_of_def)
qed

lemma shown_held: "shown T = machine_of (th_pc T) (sys_srv (th_sys T))" "held_by T = held_of (th_pc T) (sys_srv (th_sys T))"
  by (simp_all add: shown_def held_by_def)

lemma machine_step:
  assumes "th_inv T" "labelled T (i, a) T'"
  shows "machine_act i a (shown T) = Some (shown T')"
  using assms(2) by (cases rule: labelled_cases [OF assms]) (auto simp: own_step_def acts_def shown_held)

interpretation db: two_phase th_inv labelled shown held_by
proof (unfold_locales, goal_cases)
  case (1 T i a T')
  then show ?case by (rule machine_step)
next
  case (2 T i x T')
  show ?case
  proof (rule labelled_cases [OF 2])
    fix p w
    assume own: "own_step i (Txn x) T p w" "held_by T' = held_of ((th_pc T)(i := p)) (srv w)"
    then show "op_table x \<in> held_by T' i"
      using txn_locked [OF 2(1) own(1)] held_step [OF 2(1) own(1), of i] by (auto simp: shown_held)
  qed simp
next
  case (3 T i a T' j)
  show ?case
    using 3(1,2)
  proof (cases rule: labelled_cases)
    case (own p w)
    then show ?thesis
      using held_step [OF 3(1) own(1) 3(3)] by (simp add: shown_held)
  qed simp
next
  case (4 T i a T' j n)
  show ?case
    using 4(1,2)
  proof (cases rule: labelled_cases)
    case (own p w)
    then show ?thesis
      using store_other [OF 4(1) own(1), of j n] store_own [OF own(1), of n] 4(3,4)
      by (cases "j = i") (auto simp: shown_held)
  qed simp
qed

section \<open>Executions\<close>

text \<open>The acts of an execution, and what they come to as a history.\<close>

fun acts_of :: "th_event list \<Rightarrow> threads \<Rightarrow> (tid \<times> act) list" where
  "acts_of [] T = []"
| "acts_of (e # es) T = (case exec_th e T of None \<Rightarrow> [] | Some T' \<Rightarrow> label e T T' # acts_of es T')"

definition history :: "th_event list \<Rightarrow> threads \<Rightarrow> history" where
  "history es T = fold record_act (acts_of es T) no_history"

lemma serial_run:
  "th_inv T \<Longrightarrow> db.serial h T \<Longrightarrow> run_th es T = Some T' \<Longrightarrow> db.serial (fold record_act (acts_of es T) h) T'"
proof (induction es arbitrary: T h)
  case (Cons e es)
  then obtain T1 where T1: "exec_th e T = Some T1" "run_th es T1 = Some T'"
    by (auto simp: bind_eq_Some_conv simp del: exec_th.simps)
  have "labelled T (label e T T1) T1"
    using T1(1) by (auto simp: labelled_def)
  then have "db.serial (record_act (label e T T1) h) T1"
    using db.serial_step [OF Cons.prems(1)] Cons.prems(2) by (cases "label e T T1") auto
  moreover have "th_inv T1"
    using T1(1) th_inv_step [OF _ Cons.prems(1)] by (simp only: exec_th_step)
  ultimately show ?case
    using Cons.IH T1 by (simp del: exec_th.simps)
qed simp

lemma start_shown: "shown (th_start (server_main argc fd)) = machine_new"
  by (auto simp: shown_def machine_of_def machine_new_def no_buffer_def th_start_def server_main_def
      system_start_def server_listen_def server_new_def log_error_def seq_run basic_runs bind_case modify_def)

lemma serial_history:
  assumes "run_th es (th_start (server_main argc fd)) = Some T"
  shows "db.serial (history es (th_start (server_main argc fd))) T"
  using serial_run [OF th_inv_start db.serial_start [OF start_shown] assms] by (simp add: history_def)

lemma acts_of_append: "run_th es T = Some T' \<Longrightarrow> acts_of (es @ fs) T = acts_of es T @ acts_of fs T'"
  by (induction es arbitrary: T) (auto simp: bind_eq_Some_conv simp del: exec_th.simps)

text \<open>What has committed stays in the history.\<close>

lemma record_extends: "\<exists>more. snd (fold record_act as h) = snd h @ more"
proof (induction as arbitrary: h)
  case (Cons a as)
  obtain i b L H where "a = (i, b)" "h = (L, H)"
    by (cases a, cases h)
  then have "\<exists>more. snd (record_act a h) = snd h @ more"
    by (cases b) simp_all
  then show ?case
    using Cons.IH [of "record_act a h"] by (metis append.assoc fold_simps(2))
qed simp

lemma longer_history:
  assumes "run_th es (th_start (server_main argc fd)) = Some T" "run_th es' T = Some T'"
  shows "\<exists>more. snd (history (es @ es') (th_start (server_main argc fd))) = snd (history es (th_start (server_main argc fd))) @ more
    \<and> run_serially more (m_store (shown T)) = Some (m_store (shown T'))"
proof -
  let ?S = "th_start (server_main argc fd)"
  obtain more where more: "snd (history (es @ es') ?S) = snd (history es ?S) @ more"
    using record_extends [of "acts_of es' T" "history es ?S"] acts_of_append [OF assms(1), of es']
    by (auto simp: history_def)
  have "run_th (es @ es') ?S = Some T'"
    using assms by (simp add: run_th_append)
  from db.serial_store [OF serial_history [OF this]] db.serial_store [OF serial_history [OF assms(1)]]
  show ?thesis
    using more by (auto simp: run_serially_append)
qed

end
