(* ===== verification/ThreadTyped.thy ===== *)
theory ThreadTyped
  imports ThreadSerial
begin

text \<open>
  What can be where: names of tables and keys are identifiers, values are values that fit in a
  response, in the tables, on the stacks and in every place a thread can be at; and the texts of
  the exceptions fit in a response, but for the one that carries a table's name.
\<close>

section \<open>Well-typed states\<close>

definition table_typed :: "table \<Rightarrow> bool" where
  "table_typed t \<longleftrightarrow> is_identifier (m_name t) \<and> table_fits t
     \<and> dom (committed t) \<subseteq> Collect is_identifier \<and> dom (pending t) \<subseteq> Collect is_identifier"

definition srv_typed :: "server \<Rightarrow> bool" where
  "srv_typed s \<longleftrightarrow> (\<forall>a. valid_ptr a s \<longrightarrow> table_typed (table_at a s))"

fun access_typed :: "access \<Rightarrow> bool" where
  "access_typed (Get_key k) \<longleftrightarrow> is_identifier k"
| "access_typed (Set_key k v) \<longleftrightarrow> is_identifier k \<and> fits v"

fun op_typed :: "map_op \<Rightarrow> bool" where
  "op_typed (Op_create n) \<longleftrightarrow> is_identifier n"
| "op_typed (Op_find n acc) \<longleftrightarrow> is_identifier n \<and> access_typed acc"

definition failed_text :: "string \<Rightarrow> bool" where
  "failed_text t \<longleftrightarrow> t = nested_txn \<or> (\<exists>n. is_identifier n \<and> t = no_lock @ n)"

fun exn_typed :: "exn \<Rightarrow> bool" where
  "exn_typed (OperationException t) \<longleftrightarrow> length t \<le> 100"
| "exn_typed (InvalidMessage t) \<longleftrightarrow> length t \<le> 100"
| "exn_typed (FailedTransaction t) \<longleftrightarrow> failed_text t"
| "exn_typed e \<longleftrightarrow> True"

fun pc_typed :: "pc \<Rightarrow> bool" where
  "pc_typed (Map_enter op) \<longleftrightarrow> op_typed op"
| "pc_typed (Map_look op) \<longleftrightarrow> op_typed op"
| "pc_typed (Map_leave op r) \<longleftrightarrow> op_typed op \<and> (\<forall>e. r = Inl e \<longrightarrow> exn_typed e)"
| "pc_typed (Txn_lock n a acc) \<longleftrightarrow> is_identifier n \<and> access_typed acc"
| "pc_typed (Txn_use a acc) \<longleftrightarrow> access_typed acc"
| "pc_typed (Guard_enter a acc) \<longleftrightarrow> access_typed acc"
| "pc_typed (Guard_use a acc) \<longleftrightarrow> access_typed acc"
| "pc_typed (Guard_commit a acc) \<longleftrightarrow> access_typed acc"
| "pc_typed (Guard_leave a e) \<longleftrightarrow> (\<forall>x. e = Some x \<longrightarrow> exn_typed x)"
| "pc_typed (Raised e) \<longleftrightarrow> exn_typed e"
| "pc_typed (Undo_table as u) \<longleftrightarrow> (\<forall>t. u = Some t \<longrightarrow> failed_text t)"
| "pc_typed (Undo_unlock a as u) \<longleftrightarrow> (\<forall>t. u = Some t \<longrightarrow> failed_text t)"
| "pc_typed p \<longleftrightarrow> True"

definition world_typed :: "pc \<Rightarrow> world \<Rightarrow> bool" where
  "world_typed p w \<longleftrightarrow> srv_typed (srv w) \<and> list_all fits (operands w) \<and> pc_typed p"

definition typed :: "threads \<Rightarrow> bool" where
  "typed T \<longleftrightarrow> srv_typed (sys_srv (th_sys T))
     \<and> (\<forall>i. runnable i T \<longrightarrow> list_all fits (operands (world_of i (th_sys T))) \<and> pc_typed (th_pc T i))"

section \<open>Tables\<close>

lemma table_typed_simps [simp]:
  "table_typed (table_new n) \<longleftrightarrow> is_identifier n"
  "table_typed t \<Longrightarrow> is_identifier k \<Longrightarrow> fits v \<Longrightarrow> table_typed (table_set k v t)"
  "table_wf t \<Longrightarrow> table_typed t \<Longrightarrow> table_typed (commit_changes t)"
  "table_typed t \<Longrightarrow> table_typed (rollback_changes t)"
  "table_typed (t\<lparr>table_mutex := m\<rparr>) = table_typed t"
  by (auto simp: table_typed_def committed_commit view_def)

lemma srv_typed_put: "srv_typed s \<Longrightarrow> table_typed t \<Longrightarrow> valid_ptr a s \<Longrightarrow> srv_typed (put_table a t s)"
  by (auto simp: srv_typed_def)

lemma srv_typed_lock [simp]: "srv_typed (s\<lparr>table_lock := m\<rparr>) = srv_typed s"
  by (simp add: srv_typed_def valid_ptr_def table_at_def)

lemma srv_typed_add: "srv_typed s \<Longrightarrow> is_identifier n \<Longrightarrow> srv_typed (add_table n s)"
  by (auto simp: srv_typed_def valid_ptr_add)

lemma world_typed_table:
  assumes inv: "thread_inv i p w" and t: "world_typed p w" and ptr: "valid_ptr a (srv w)" and p': "pc_typed p'"
    and f: "table_wf (table_at a (srv w)) \<Longrightarrow> table_typed (table_at a (srv w)) \<Longrightarrow> table_typed (f (table_at a (srv w)))"
  shows "world_typed p' (upd_table a f w)"
  using t p' f ptr srv_wfD(3) [OF thread_invD(1) [OF inv] ptr]
  by (auto simp: world_typed_def srv_typed_put, auto simp: srv_typed_def intro!: srv_typed_put)

lemma world_typed_say [simp]: "world_typed p (say b w) = world_typed p w"
  and world_typed_finish [simp]: "world_typed p (finish w) = world_typed p w"
  by (simp_all add: world_typed_def)

lemma operands_open [simp]: "operands (w\<lparr>wire_open := b\<rparr>) = operands w"
  by (simp add: operands_def)

section \<open>Every step keeps them\<close>

lemma used_typed:
  assumes inv: "thread_inv i p w" and t: "world_typed p w" and ptr: "valid_ptr a (srv w)" and "access_typed acc"
    and u: "used a acc w = Some w'" and p': "pc_typed p'"
  shows "world_typed p' w'"
proof (cases acc)
  case (Get_key k)
  then obtain v where v: "view (table_at a (srv w)) k = Some v" "w' = push_value v w"
    using u by auto
  have "fits v"
    using t ptr v(1) table_fits_view [of "table_at a (srv w)" k v]
    by (auto simp: world_typed_def srv_typed_def table_typed_def)
  then show ?thesis
    using t v(2) p' by (simp add: world_typed_def)
next
  case (Set_key k v)
  then show ?thesis
    using u assms(4) world_typed_table [OF inv t ptr p', of "table_set k v"] by auto
qed

lemma no_key_typed [simp]: "exn_typed no_key"
  by (simp add: no_key_def)

lemma lock_text: "failed_text (''Could not acquire lock on table '' @ n) \<longleftrightarrow> is_identifier n"
proof -
  have "''Could not acquire lock on table '' @ n \<noteq> nested_txn"
    by (simp add: nested_txn_def)
  then show ?thesis
    by (auto simp: failed_text_def no_lock_def)
qed

lemma typed_map:
  assumes inv: "thread_inv i p w" and t: "world_typed p w" and m: "micro i p w = (Ok p', w')"
    and p: "p = Map_enter op \<or> p = Map_look op \<or> p = Map_leave op r"
  shows "world_typed p' w'"
proof -
  have l: "p \<noteq> Map_enter op \<Longrightarrow> table_lock (srv w) = Some i"
    using p thread_invD(7) [OF inv] by auto
  from p show ?thesis
  proof (elim disjE)
    assume "p = Map_enter op"
    then show ?thesis
      using m t by (auto simp: map_enter_run world_typed_def simp del: micro.simps split: option.splits)
  next
    assume "p = Map_look op"
    then show ?thesis
      using m l t srv_typed_add
      by (cases op)
         (auto simp: map_look_create_run map_look_find_run world_typed_def simp del: micro.simps
           split: if_splits option.splits)
  next
    assume "p = Map_leave op r"
    then show ?thesis
      using m l t
      by (auto simp: map_leave_run after_map_def world_typed_def simp del: micro.simps
          split: sum.splits map_op.splits if_splits)
  qed
qed

lemma typed_txn:
  assumes inv: "thread_inv i p w" and t: "world_typed p w" and m: "micro i p w = (Ok p', w')"
    and p: "p = Txn_lock n a acc \<or> p = Txn_use a acc"
  shows "world_typed p' w'"
  using p
proof
  assume p: "p = Txn_lock n a acc"
  have ptr: "valid_ptr a (srv w)"
    using txn_facts(1) [OF inv, of n a acc] p by simp
  have "world_typed (Txn_use a acc) (set_mutex a (Some i) w)"
    using t p by (intro world_typed_table [OF inv t ptr]) (auto simp: world_typed_def)
  then have "world_typed (Txn_use a acc) (acquire i a w)"
    by (simp add: world_typed_def)
  then show ?thesis
    using m p ptr t lock_text [of n]
    by (auto simp: txn_lock_run world_typed_def simp del: micro.simps split: if_splits)
next
  assume p: "p = Txn_use a acc"
  note F = txn_facts [OF inv, of n a acc]
  show ?thesis
    using m p F t used_typed [OF inv t _ _ , of a acc w' p']
    by (auto simp: txn_use_run world_typed_def simp del: micro.simps split: option.splits)
qed

lemma typed_guard:
  assumes inv: "thread_inv i p w" and t: "world_typed p w" and m: "micro i p w = (Ok p', w')"
    and p: "p = Guard_enter a acc \<or> p = Guard_use a acc \<or> p = Guard_commit a acc \<or> p = Guard_leave a e"
  shows "world_typed p' w'"
proof -
  have ptr: "valid_ptr a (srv w)"
    using p thread_invD(8) [OF inv] by (auto simp: guards_def)
  have own: "table_mutex (table_at a (srv w)) = Some i" if "p \<noteq> Guard_enter a acc"
    using p that guard_facts(2) [OF inv, of a acc e] by blast
  have mutex: "world_typed q (set_mutex a x w)" if "pc_typed q" for q x
    using that by (intro world_typed_table [OF inv t ptr]) auto
  from p show ?thesis
  proof (elim disjE)
    assume "p = Guard_enter a acc"
    then show ?thesis
      using m ptr t mutex [of "Guard_use a acc" "Some i"]
      by (auto simp: guard_enter_run world_typed_def simp del: micro.simps split: option.splits)
  next
    assume p: "p = Guard_use a acc"
    then have "access_typed acc"
      using t by (simp add: world_typed_def)
    moreover from this have "pc_typed (after_use a acc)"
      by (cases acc) auto
    ultimately show ?thesis
      using m p ptr own t used_typed [OF inv t ptr]
      by (auto simp: guard_use_run world_typed_def simp del: micro.simps split: option.splits)
  next
    assume "p = Guard_commit a acc"
    then show ?thesis
      using m ptr own world_typed_table [OF inv t ptr, of "Guard_leave a None" commit_changes]
      by (auto simp: held_steps_run simp del: micro.simps)
  next
    assume p: "p = Guard_leave a e"
    then have "pc_typed (case e of None \<Rightarrow> Reply | Some x \<Rightarrow> Raised x)"
      using t by (auto simp: world_typed_def split: option.split)
    then show ?thesis
      using m p ptr own mutex by (auto simp: held_steps_run simp del: micro.simps)
  qed
qed

lemma typed_end:
  assumes inv: "thread_inv i p w" and t: "world_typed p w" and m: "micro i p w = (Ok p', w')"
    and p: "p = Commit_table as \<or> p = Commit_unlock a as \<or> p = Undo_table as u \<or> p = Undo_unlock a as u"
  shows "world_typed p' w'"
proof -
  have change: "world_typed q (upd_table b f w)"
    if "b \<in> owned p (locked_tables (conn w))" "pc_typed q"
      "f = commit_changes \<or> f = rollback_changes \<or> f = (\<lambda>t. t\<lparr>table_mutex := None\<rparr>)" for b q f
    using that owned_valid(1) [OF inv that(1)] by (intro world_typed_table [OF inv t]) auto
  have own: "valid_ptr b (srv w)" "table_mutex (table_at b (srv w)) = Some i"
    if "b \<in> owned p (locked_tables (conn w))" for b
    using owned_valid [OF inv that] .
  from p show ?thesis
  proof (elim disjE)
    assume p: "p = Commit_table as"
    show ?thesis
    proof (cases as)
      case Nil
      then show ?thesis
        using m p t by (auto simp: local_steps_run world_typed_def simp del: micro.simps)
    next
      case (Cons b bs)
      then show ?thesis
        using m p change [of b "Commit_unlock b bs" commit_changes] own [of b]
        by (auto simp: held_steps_run simp del: micro.simps)
    qed
  next
    assume "p = Commit_unlock a as"
    then show ?thesis
      using m change own by (auto simp: held_steps_run simp del: micro.simps)
  next
    assume p: "p = Undo_table as u"
    show ?thesis
    proof (cases as)
      case Nil
      then show ?thesis
        using m p t
        by (cases u) (auto simp: local_steps_run text_steps_run world_typed_def simp del: micro.simps split: sum.splits)
    next
      case (Cons b bs)
      then show ?thesis
        using m p t change [of b "Undo_unlock b bs u" rollback_changes] own [of b]
        by (auto simp: held_steps_run world_typed_def simp del: micro.simps)
    qed
  next
    assume p: "p = Undo_unlock a as u"
    then show ?thesis
      using m t change [of a "Undo_table as u" "\<lambda>t. t\<lparr>table_mutex := None\<rparr>"] own [of a]
      by (auto simp: held_steps_run world_typed_def simp del: micro.simps)
  qed
qed

lemma typed_raised:
  assumes "world_typed (Raised e) w" "micro i (Raised e) w = (Ok p', w')"
  shows "world_typed p' w'"
  using assms
  by (cases e) (auto simp: local_steps_run text_steps_run world_typed_def simp del: micro.simps split: sum.splits)

lemma typed_micro:
  assumes "thread_inv i p w" "world_typed p w" "micro i p w = (Ok p', w')"
  shows "world_typed p' w'"
proof (cases p)
  case (Raised e)
  with assms typed_raised show ?thesis by blast
qed (use assms typed_map [OF assms] typed_txn [OF assms] typed_guard [OF assms] typed_end [OF assms] in
    \<open>auto simp: local_steps_run world_typed_def simp del: micro.simps\<close>)

section \<open>The first step of a turn\<close>

lemma dispatch_fits_local:
  assumes fit: "world_fits w" and dec: "decode s = Inr req" and loc: "\<not> map_request (get_message_type req)"
  shows "world_fits (snd (dispatch i req w))"
proof -
  have valid: "is_valid req"
    using dec by (rule decodeD)
  have "world_fits (snd (handle_push req w))" if "m_message_type req = PUSH"
    using valid_accessors(3) [OF valid] that decode_PUSH_fits [OF dec that] simple_handlers_fit(6) [OF fit] by auto
  then show ?thesis
    using loc simple_handlers_fit [OF fit] arith_fits [OF fit] fit
    by (cases "m_message_type req")
       (auto simp: dispatch_def get_message_type_def seq_ret_snd basic_runs map_request_def)
qed

lemma srv_typed_fits: "srv_typed s \<Longrightarrow> server_fits s"
  by (simp add: srv_typed_def server_fits_def table_typed_def)

lemma dispatch_raises:
  assumes loc: "\<not> map_request (get_message_type req)" and valid: "is_valid req" and fit: "world_fits w"
    and run: "dispatch i req w = (Exn e, w')"
  shows "exn_typed e"
proof -
  have top: "calm (fst (handle_top req w))"
  proof (cases "operands w")
    case (Cons v vs)
    then show ?thesis
      using fits_encode [of v] fit by (auto simp: handle_top_run send_message_run world_fits_def)
  qed (simp add: handle_top_run)
  have pop: "calm (fst (handle_pop req w))"
    by (cases "operands w") (simp_all add: handle_pop_run)
  have calm: "exn_typed e" if "calm (fst (dispatch i req w))"
    using that run by (cases e) simp_all
  consider (nests) "nests req w" | (response) "get_message_type req \<in> response_types"
    | (arith) "get_message_type req \<in> {ADD, SUB, MUL, DIV}"
    | (other) "\<not> nests req w" "get_message_type req \<in> {LOGIN, BYE, PUSH, POP, TOP, BEGIN}"
    using loc by (cases "get_message_type req") (auto simp: map_request_def response_type)
  then show ?thesis
  proof cases
    case nests
    then show ?thesis
      using run dispatch_nests [of req w i] by (auto simp: failed_text_def)
  next
    case response
    then show ?thesis
      using run dispatch_response [of req i w] by (auto simp: unknown_command_def)
  next
    case arith
    then have "\<not> overflows req w"
      using run dispatch_overflows [of req w i] by auto
    then show ?thesis
      using arith_outcome(2) [OF arith] arith by (intro calm) (simp add: dispatch_arith calm_seq_ret)
  next
    case other
    then show ?thesis
      using top pop valid_accessors(3) [OF valid, folded get_message_type_def]
      by (intro calm)
         (auto simp: dispatch_def nests_def handle_login_run handle_bye_run handle_push_run handle_begin_run
           intro!: calm_seq_ret)
  qed
qed

lemma typed_begin:
  assumes inv: "thread_inv i Ready w" and t: "world_typed Ready w" and m: "begin_turn i buf w = (Ok p, w')"
  shows "world_typed p w'"
proof (cases "admitted buf w")
  case None
  then have "w' = w" "exn_typed (case decode (c_str buf) of Inl e \<Rightarrow> e | Inr req \<Rightarrow> OperationException not_logged_in)"
    "p = Raised (case decode (c_str buf) of Inl e \<Rightarrow> e | Inr req \<Rightarrow> OperationException not_logged_in)"
    using m by (auto simp: begin_turn_run not_logged_in_def dest!: decode_texts split: sum.splits)
  with t show ?thesis
    by (simp add: world_typed_def)
next
  case (Some req)
  then have dec: "decode (c_str buf) = Inr req" and valid: "is_valid req"
    and run: "raising (start_request i req) w = (Ok p, w')"
    using admittedD m by (auto simp: begin_turn_run)
  note acc = valid_accessors [OF valid, folded get_message_type_def]
  show ?thesis
  proof (cases "map_request (get_message_type req)")
    case True
    then show ?thesis
      using run t acc(1,2)
      by (auto simp: map_request_def start_map_request [OF valid inv] world_typed_def split: list.splits if_splits)
  next
    case False
    have fit: "world_fits w"
      using t srv_typed_fits by (simp add: world_typed_def world_fits_def)
    obtain r u where d: "dispatch i req w = (r, u)"
      by (cases "dispatch i req w")
    have "srv u = srv w"
      using dispatch_local [OF False valid, of w i] d by (simp add: local_step_def)
    then have u: "srv_typed (srv u)" "list_all fits (operands u)"
      using dispatch_fits_local [OF fit dec False, of i] d t by (auto simp: world_typed_def world_fits_def)
    show ?thesis
      using run u dispatch_raises [OF False valid fit, of i] d
      by (cases r) (auto simp: start_local_request [OF False] world_typed_def split: if_splits)
  qed
qed

section \<open>The running server\<close>

lemma typed_put:
  assumes "typed T" "runnable i T" "put_thread i (r, w) T = Some T'"
    and "\<And>p. r = Ok p \<Longrightarrow> world_typed p w" "r = Undef \<or> (\<exists>e. r = Exn e) \<Longrightarrow> srv w = sys_srv (th_sys T)"
  shows "typed T'"
proof -
  have "list_all fits (operands (world_of j (put_world i w (th_sys T))))" if "live j (th_sys T)" "j \<noteq> i" for j
    using assms(1,2) that world_of_put_other [of j i "th_sys T" w] by (simp add: typed_def runnable_def)
  then show ?thesis
    using assms by (cases r) (auto simp: typed_def put_thread_def runnable_def world_typed_def split: if_splits)
qed

lemma typed_step:
  assumes inv: "th_inv T" and t: "typed T" and st: "th_step T e T'"
  shows "typed T'"
  using st
proof (cases rule: th_step.cases)
  case (accept fd created)
  let ?i = "next_tid (th_sys T)"
  have "list_all fits (operands (world_of j (put_world ?i w \<sigma>)))"
    if "live j \<sigma>" "j \<noteq> ?i" "sessions \<sigma> = sessions (th_sys T)" for j w \<sigma>
  proof -
    have "live j (th_sys T)" "operands (world_of j \<sigma>) = operands (world_of j (th_sys T))"
      using that by (auto simp: live_def world_of_def operands_def split: option.splits)
    then show ?thesis
      using t world_of_put_other [OF that(2,1)] accept(3) by (simp add: typed_def runnable_def)
  qed
  moreover have "operands (world_new s fd) = []" for s
    by (simp add: operands_def world_new_def connection_new_def vs_contents_def vs_new_def)
  ultimately show ?thesis
    using t accept
    by (auto simp: typed_def runnable_def accept_eq log_error_def live_def world_new_def operands_def split: if_splits)
next
  case (eof i)
  then show ?thesis
    using t by (auto simp: typed_def runnable_def)
next
  case (line i buf)
  have ti: "thread_inv i Ready (world_of i (th_sys T))" "world_typed Ready (world_of i (th_sys T))"
    using th_invD(3) [OF inv line(2)] line(2,3) t by (auto simp: world_typed_def typed_def)
  obtain r w where b: "begin_turn i buf (world_of i (th_sys T)) = (r, w)"
    by (cases "begin_turn i buf (world_of i (th_sys T))")
  then show ?thesis
    using typed_put [OF t line(2) line(4) [unfolded b]] typed_begin [OF ti, of buf] begin_turn_fine [OF ti(1), of buf]
    by (cases r) auto
next
  case (run i)
  note ti = th_invD(3) [OF inv run(2)]
  have t': "world_typed (th_pc T i) (world_of i (th_sys T))"
    using t run(2) by (simp add: world_typed_def typed_def)
  obtain r w where m: "micro i (th_pc T i) (world_of i (th_sys T)) = (r, w)"
    by (cases "micro i (th_pc T i) (world_of i (th_sys T))")
  then show ?thesis
    using typed_put [OF t run(2) run(3) [unfolded m]] typed_micro [OF ti t'] micro_fine [OF ti]
    by (cases r) auto
qed

lemma typed_start: "typed (th_start (server_main argc fd))"
  using th_inv_start [of argc fd]
  by (auto simp: typed_def th_start_def runnable_def server_main_def system_start_def server_listen_def
      srv_typed_def valid_ptr_def server_new_def log_error_def seq_run basic_runs bind_case modify_def live_Some)

lemma reachable_typed: "th_reachable T \<Longrightarrow> typed T"
  by (induction rule: th_reachable.induct) (auto intro: typed_start typed_step dest: th_reachable_inv)

section \<open>When the process ends\<close>

text \<open>An exception leaves a thread for one reason only: a response that does not fit.\<close>

lemma text_fits:
  "length t \<le> 100 \<Longrightarrow> encode (Message FAILED [t]) \<noteq> Inl x"
  "length t \<le> 100 \<Longrightarrow> encode (Message ERROR [t]) \<noteq> Inl x"
  "failed_text t \<Longrightarrow> encode (Message FAILED [t]) = Inl x \<Longrightarrow>
    \<exists>n. is_identifier n \<and> length n > 984 \<and> t = no_lock @ n"
  using encode_text [of FAILED "''FAILED ''" t] encode_text [of ERROR "''ERROR ''" t]
  by (auto simp: MAX_ENCODED_LEN_def failed_text_def nested_txn_def no_lock_def split: if_splits)

lemma micro_raises:
  assumes inv: "thread_inv i p w" and t: "pc_typed p" and m: "micro i p w = (Exn e, w')"
  shows "\<exists>n. is_identifier n \<and> length n > 984 \<and> p = Undo_table [] (Some (no_lock @ n))"
proof (cases p)
  case (Raised x)
  then show ?thesis
    using m t thread_invD(8) [OF inv] text_fits(1,2)
    by (cases x) (auto simp: local_steps_run text_steps_run simp del: micro.simps split: sum.splits)
next
  case (Undo_table as u)
  then show ?thesis
    using m t text_fits(3) owned_valid [OF inv]
    by (cases as; cases u) (auto simp: local_steps_run text_steps_run held_steps_run simp del: micro.simps split: sum.splits)
next
  case (Commit_table as)
  then show ?thesis
    using m owned_valid [OF inv] by (cases as) (auto simp: local_steps_run held_steps_run simp del: micro.simps)
next
  case (Map_look op)
  then show ?thesis
    using m thread_invD(7) [OF inv]
    by (cases op) (auto simp: map_look_create_run map_look_find_run simp del: micro.simps split: if_splits)
next
  case (Txn_lock n a acc)
  then show ?thesis
    using m txn_facts(1) [OF inv, of n a acc] by (auto simp: txn_lock_run simp del: micro.simps split: if_splits)
next
  case (Txn_use a acc)
  then show ?thesis
    using m txn_facts [OF inv, of _ a acc] by (auto simp: txn_use_run simp del: micro.simps split: option.splits)
next
  case (Guard_enter a acc)
  then show ?thesis
    using m thread_invD(8) [OF inv] by (auto simp: guard_enter_run guards_def simp del: micro.simps split: option.splits)
qed (use m thread_invD(7,8) [OF inv] owned_valid [OF inv] in
  \<open>auto simp: local_steps_run map_enter_run map_leave_run guard_use_run held_steps_run simp del: micro.simps
    split: option.splits\<close>)

lemma step_terminated:
  assumes inv: "th_inv T" and t: "typed T" and st: "th_step T e T'" and bad: "status (th_sys T') = Terminated"
  shows "\<exists>i n. e = Th_run i \<and> is_identifier n \<and> length n > 984 \<and> th_pc T i = Undo_table [] (Some (no_lock @ n))"
  using st
proof (cases rule: th_step.cases)
  case (accept fd created)
  then show ?thesis
    using bad by (auto simp: accept_eq log_error_def split: if_splits)
next
  case (eof i)
  then show ?thesis
    using bad by (simp add: runnable_def)
next
  case (line i buf)
  have "thread_inv i Ready (world_of i (th_sys T))"
    using th_invD(3) [OF inv line(2)] line(3) by simp
  then show ?thesis
    using begin_turn_fine [of i "world_of i (th_sys T)" buf] line bad
    by (cases "begin_turn i buf (world_of i (th_sys T))"; cases "fst (begin_turn i buf (world_of i (th_sys T)))")
       (auto simp: put_thread_def runnable_def)
next
  case (run i)
  note ti = th_invD(3) [OF inv run(2)]
  obtain r w where m: "micro i (th_pc T i) (world_of i (th_sys T)) = (r, w)"
    by (cases "micro i (th_pc T i) (world_of i (th_sys T))")
  have "pc_typed (th_pc T i)"
    using t run(2) by (simp add: typed_def)
  then show ?thesis
    using micro_raises [OF ti] m run bad by (cases r) (auto simp: put_thread_def runnable_def)
qed

lemma long_name_ends:
  assumes "runnable i T" "th_pc T i = Undo_table [] (Some (no_lock @ n))" "length n > 984"
  shows "\<exists>T'. th_step T (Th_run i) T' \<and> status (th_sys T') = Terminated"
proof -
  have "encode (Message FAILED [no_lock @ n]) = Inl (InvalidMessage too_long)"
    using assms(3) encode_text [of FAILED "''FAILED ''" "no_lock @ n"] by (simp add: MAX_ENCODED_LEN_def no_lock_def)
  then have "micro i (th_pc T i) (world_of i (th_sys T)) = (Exn (InvalidMessage too_long), finish (world_of i (th_sys T)))"
    using assms(2) by (simp add: text_steps_run del: micro.simps)
  then show ?thesis
    using assms(1) by (auto simp: th_run_iff put_thread_def simp del: micro.simps)
qed

lemma terminates_iff:
  assumes "th_inv T" "typed T"
  shows "(\<exists>e T'. th_step T e T' \<and> status (th_sys T') = Terminated) \<longleftrightarrow>
    (\<exists>i n. runnable i T \<and> length n > 984 \<and> th_pc T i = Undo_table [] (Some (no_lock @ n)))"
proof
  assume "\<exists>e T'. th_step T e T' \<and> status (th_sys T') = Terminated"
  then obtain e T' where st: "th_step T e T'" and bad: "status (th_sys T') = Terminated"
    by blast
  then obtain i n where "e = Th_run i" "length n > 984" "th_pc T i = Undo_table [] (Some (no_lock @ n))"
    using step_terminated [OF assms st bad] by blast
  with st show "\<exists>i n. runnable i T \<and> length n > 984 \<and> th_pc T i = Undo_table [] (Some (no_lock @ n))"
    by (auto simp: th_run_iff simp del: micro.simps)
qed (use long_name_ends in blast)

end
