(* ===== verification/ThreadAlone.thy ===== *)
theory ThreadAlone
  imports ThreadLive
begin

text \<open>
  A thread that is let alone from its line to the end of the turn does what the handlers of
  \<open>Connection\<close> say, so every execution that takes whole turns at once is one of the executions of
  the interleaved threads.
\<close>

section \<open>Letting a thread alone\<close>

text \<open>The steps of thread \<open>i\<close> from its place on, nobody else running, and what they come to.\<close>

inductive alone :: "tid \<Rightarrow> pc \<Rightarrow> world \<Rightarrow> bool res \<times> world \<Rightarrow> bool" where
  rest: "resting p \<Longrightarrow> alone i p w (Ok (p = Ready), w)"
| step: "\<not> resting p \<Longrightarrow> micro i p w = (Ok p', w') \<Longrightarrow> alone i p' w' rw \<Longrightarrow> alone i p w rw"
| exn: "micro i p w = (Exn e, w') \<Longrightarrow> alone i p w (Exn e, w')"
| blocked: "\<not> resting p \<Longrightarrow> micro i p w = (Blocked, w') \<Longrightarrow> alone i p w (Blocked, w')"

text \<open>What the thread of a connection does about one line: the turn, and the destructor after the last.\<close>

definition until_next :: "tid \<Rightarrow> (world, bool) prog \<Rightarrow> (world, bool) prog" where
  "until_next i m = bind m (\<lambda>active. if active then ret True else seq (connection_destroy i) (ret False))"

definition serve_line :: "tid \<Rightarrow> string \<Rightarrow> (world, bool) prog" where
  "serve_line i buf = until_next i (chat_iteration i buf)"

section \<open>The ends of a turn\<close>

lemma alone_Ready: "alone i Ready w (Ok True, w)" and alone_Ended: "alone i Ended w (Ok False, w)"
  using alone.rest [of Ready] alone.rest [of Ended] by (simp_all add: resting_def)

lemma alone_Ended_only: "alone i Ended w rw \<Longrightarrow> rw = (Ok False, w)"
  by (cases rule: alone.cases, assumption) (auto simp: resting_def local_steps_run simp del: micro.simps)

lemma alone_step: "micro i p w = (Ok p', w') \<Longrightarrow> alone i p' w' rw \<Longrightarrow> alone i p w rw"
  by (cases "resting p") (auto simp: resting_def local_steps_run simp del: micro.simps intro: alone.step)

lemma alone_Reply: "alone i Reply w (Ok True, say ok_line w)"
  by (rule alone_step [OF local_steps_run(1) alone_Ready])

text \<open>The tables of a transaction, one after the other.\<close>

lemma release_table:
  "valid_ptr a (srv w) \<Longrightarrow> set_mutex a None (upd_table a f w) = upd_table a (\<lambda>t. (f t)\<lparr>table_mutex := None\<rparr>) w"
  by simp

lemma alone_commit_tables:
  assumes "thread_inv i (Commit_table as) w"
  shows "alone i (Commit_table as) w (Ok True, say ok_line (finish (release commit_changes as w)))"
  using assms
proof (induction as arbitrary: w)
  case Nil
  then show ?case
    using alone_step [OF local_steps_run(2) alone_Reply] by simp
next
  case (Cons a as)
  let ?w = "upd_table a commit_changes w"
  note own = owned_valid [OF Cons.prems, of a, simplified]
  have inv: "thread_inv i (Commit_unlock a as) ?w"
    using moved_ending(1) [OF Cons.prems] by (simp add: moved_def)
  have own': "valid_ptr a (srv ?w)" "table_mutex (table_at a (srv ?w)) = Some i"
    by (rule owned_valid [OF inv], simp)+
  have next_inv: "thread_inv i (Commit_table as) (set_mutex a None ?w)"
    using moved_ending(2) [OF inv] by (simp add: moved_def)
  show ?case
    using Cons.IH [OF next_inv] own
    by (intro alone_step [OF held_steps_run(3) [OF own]] alone_step [OF held_steps_run(4) [OF own']])
       (simp add: release_table)
qed

lemma alone_undo_tables:
  assumes "thread_inv i (Undo_table as u) w" "alone i (Undo_table [] u) (release rollback_changes as w) rw"
  shows "alone i (Undo_table as u) w rw"
  using assms
proof (induction as arbitrary: w)
  case (Cons a as)
  let ?w = "upd_table a rollback_changes w"
  note own = owned_valid [OF Cons.prems(1), of a, simplified]
  have inv: "thread_inv i (Undo_unlock a as u) ?w"
    using moved_ending(3) [OF Cons.prems(1)] by (simp add: moved_def)
  have own': "valid_ptr a (srv ?w)" "table_mutex (table_at a (srv ?w)) = Some i"
    by (rule owned_valid [OF inv], simp)+
  have next_inv: "thread_inv i (Undo_table as u) (set_mutex a None ?w)"
    using moved_ending(4) [OF inv] by (simp add: moved_def)
  show ?case
    using Cons.IH [OF next_inv] Cons.prems(2) own
    by (intro alone_step [OF held_steps_run(5) [OF own]] alone_step [OF held_steps_run(6) [OF own']])
       (simp add: release_table)
qed simp

text \<open>The destructor.\<close>

lemma alone_Closing:
  assumes inv: "thread_inv i Closing w" and free: "table_lock (srv w) = None"
  shows "alone i Closing w (Ok False, closed w)"
proof -
  let ?as = "if m_in_transaction (conn w) then locked_tables (conn w) else []"
  have all: "?as = locked_tables (conn w)"
    using thread_invD(6) [OF inv] by auto
  have "moved i w (Undo_table ?as None) w"
    using micro_fine [OF inv] by (simp only: local_steps_run step_fine_simps)
  then have "thread_inv i (Undo_table ?as None) w"
    by (simp add: moved_def)
  moreover have "alone i (Undo_table [] None) (release rollback_changes ?as w) (Ok False, closed w)"
    using alone_step [OF local_steps_run(6) alone_Ended] by (simp add: closed_def all)
  ultimately show ?thesis
    by (rule alone_step [OF local_steps_run(7) alone_undo_tables])
qed

text \<open>The catch clauses.\<close>

lemma thread_inv_raised:
  "conn_inv i w \<Longrightarrow> thread_inv i (Raised (OperationException t)) w"
  "conn_inv i w \<Longrightarrow> thread_inv i (Raised (InvalidMessage t)) w"
  "conn_inv i w \<Longrightarrow> m_in_transaction (conn w) \<Longrightarrow> thread_inv i (Raised (FailedTransaction t)) w"
  "conn_inv i w \<Longrightarrow> thread_inv i Closing w"
  by (simp_all add: thread_inv_Ready thread_inv_def)

lemma until_next_simps:
  "m w = (Ok True, w') \<Longrightarrow> until_next i m w = (Ok True, w')"
  "m w = (Exn e, w') \<Longrightarrow> until_next i m w = (Exn e, w')"
  "m w = (Blocked, w') \<Longrightarrow> until_next i m w = (Blocked, w')"
  "m w = (Undef, w') \<Longrightarrow> until_next i m w = (Undef, w')"
  "m w = (Ok False, w') \<Longrightarrow> conn_inv i w' \<Longrightarrow> until_next i m w = (Ok False, closed w')"
  by (simp_all add: until_next_def runs connection_destroy_run closed_def)

definition expected :: "exn \<Rightarrow> world \<Rightarrow> bool" where
  "expected e w \<longleftrightarrow> (case e of OperationException t \<Rightarrow> True | InvalidMessage t \<Rightarrow> True
     | FailedTransaction t \<Rightarrow> m_in_transaction (conn w) | _ \<Rightarrow> False)"

lemma alone_Raised:
  assumes inv: "conn_inv i w" and "expected e w" and m: "m w0 = (Exn e, w)"
  shows "alone i (Raised e) w (until_next i (chat_catch i m) w0)"
proof (cases e)
  case (OperationException t)
  show ?thesis
  proof (cases "encode (Message FAILED [t])")
    case (Inl x)
    then show ?thesis
      using m alone.exn [of i "Raised e" w x w] OperationException
      by (simp add: until_next_simps chat_catch_def runs send_message_run)
  next
    case (Inr b)
    then show ?thesis
      using m alone_step [OF _ alone_Ready, of i "Raised e" w "say b w"] OperationException
      by (simp add: until_next_simps chat_catch_def runs send_message_run)
  qed
next
  case (InvalidMessage t)
  show ?thesis
  proof (cases "encode (Message ERROR [t])")
    case (Inl x)
    then show ?thesis
      using m alone.exn [of i "Raised e" w x w] InvalidMessage
      by (simp add: until_next_simps chat_catch_def runs send_message_run)
  next
    case (Inr b)
    have "conn_inv i (say b w)" using inv by simp
    note close = alone_Closing [OF thread_inv_raised(4) [OF this] conn_invD(2) [OF this]]
    show ?thesis
      using Inr m alone_step [OF _ close, of "Raised e" w] InvalidMessage inv
      by (simp add: until_next_simps chat_catch_def runs send_message_run)
  qed
next
  case (FailedTransaction t)
  let ?as = "locked_tables (conn w)" and ?w = "release rollback_changes (locked_tables (conn w)) w"
  have "thread_inv i (Raised e) w"
    using inv assms(2) FailedTransaction by (simp add: thread_inv_raised expected_def)
  from micro_fine [OF this] have undo: "thread_inv i (Undo_table ?as (Some t)) w"
    unfolding FailedTransaction local_steps_run by (simp add: moved_def)
  note start = alone_step [OF local_steps_run(3) alone_undo_tables [OF undo], folded FailedTransaction]
  have "chat_catch i m w0 = seq (send_message (Message FAILED [t])) (ret True) (finish ?w)"
    using m FailedTransaction by (simp add: chat_catch_def rollback_then [OF inv] abort_world_def)
  then have catch: "chat_catch i m w0 = (case encode (Message FAILED [t]) of
      Inl x \<Rightarrow> (Exn x, finish ?w) | Inr line \<Rightarrow> (Ok True, say line (finish ?w)))"
    by (simp add: runs send_message_run split: sum.split)
  show ?thesis
  proof (cases "encode (Message FAILED [t])")
    case (Inl x)
    then show ?thesis
      using catch alone.exn [of i "Undo_table [] (Some t)" ?w x "finish ?w"]
      by (intro start) (simp add: until_next_simps text_steps_run del: micro.simps)
  next
    case (Inr b)
    then show ?thesis
      using catch alone_step [OF _ alone_Ready, of i "Undo_table [] (Some t)" ?w]
      by (intro start) (simp add: until_next_simps text_steps_run del: micro.simps)
  qed
qed (use assms(2) in \<open>simp_all add: expected_def\<close>)

text \<open>The three ways a handler that shares something ends.\<close>

lemma alone_ends:
  assumes "\<And>w. b i w = seq (h i) (ret True) w"
  shows "h i w0 = (Ok (), say ok_line w) \<Longrightarrow> alone i Reply w (until_next i (chat_catch i (b i)) w0)"
    and "h i w0 = (Exn e, w) \<Longrightarrow> conn_inv i w \<Longrightarrow> expected e w \<Longrightarrow>
      alone i (Raised e) w (until_next i (chat_catch i (b i)) w0)"
    and "h i w0 = (Blocked, w) \<Longrightarrow> \<not> resting p \<Longrightarrow> micro i p w = (Blocked, w) \<Longrightarrow>
      alone i p w (until_next i (chat_catch i (b i)) w0)"
proof -
  show "alone i Reply w (until_next i (chat_catch i (b i)) w0)" if "h i w0 = (Ok (), say ok_line w)"
    using that assms alone_Reply by (simp add: until_next_simps chat_catch_def runs)
  show "alone i (Raised e) w (until_next i (chat_catch i (b i)) w0)"
    if "h i w0 = (Exn e, w)" "conn_inv i w" "expected e w"
    using that assms by (intro alone_Raised) (simp_all add: runs)
  show "alone i p w (until_next i (chat_catch i (b i)) w0)"
    if "h i w0 = (Blocked, w)" "\<not> resting p" "micro i p w = (Blocked, w)"
    using that assms alone.blocked [of p i w w] by (simp add: until_next_simps chat_catch_def runs)
qed

section \<open>The table map\<close>

lemma srv_lock_same: "table_lock (srv w) = None \<Longrightarrow>
    upd_srv ((srv w)\<lparr>table_lock := None\<rparr>) w = w"
  by (cases "srv w") (simp add: upd_srv_def)

lemma alone_create:
  assumes free: "table_lock (srv w) = None"
    and "smap_find n (set_of_table (srv w)) \<noteq> None \<Longrightarrow>
      alone i (Raised (OperationException ''Table with that name already exists'')) w rw"
    and "smap_find n (set_of_table (srv w)) = None \<Longrightarrow> alone i Reply (upd_srv (add_table n (srv w)) w) rw"
  shows "alone i (Map_enter (Op_create n)) w rw"
proof -
  let ?w = "upd_srv ((srv w)\<lparr>table_lock := Some i\<rparr>) w"
  have e: "micro i (Map_enter (Op_create n)) w = (Ok (Map_look (Op_create n)), ?w)"
    using free by (simp add: map_enter_run del: micro.simps)
  show ?thesis
  proof (cases "smap_find n (set_of_table (srv w)) = None")
    case True
    let ?u = "upd_srv (add_table n (srv ?w)) ?w"
    have m: "micro i (Map_look (Op_create n)) ?w = (Ok (Map_leave (Op_create n) (Inr (length (table_heap (srv w))))), ?u)"
      using True by (simp add: map_look_create_run del: micro.simps)
    have "micro i (Map_leave (Op_create n) (Inr (length (table_heap (srv w))))) ?u =
        (Ok Reply, upd_srv ((srv ?u)\<lparr>table_lock := None\<rparr>) ?u)"
      by (subst map_leave_run) (simp_all add: after_map_def)
    moreover have "upd_srv ((srv ?u)\<lparr>table_lock := None\<rparr>) ?u = upd_srv (add_table n (srv w)) w"
      using free by (cases "srv w") (simp add: upd_srv_def add_table_def)
    ultimately show ?thesis
      using assms(3) [OF True] by (auto intro: alone_step [OF e alone_step [OF m alone_step]])
  next
    case False
    let ?e = "OperationException ''Table with that name already exists''"
    have m: "micro i (Map_look (Op_create n)) ?w = (Ok (Map_leave (Op_create n) (Inl ?e)), ?w)"
      using False by (simp add: map_look_create_run del: micro.simps)
    have "micro i (Map_leave (Op_create n) (Inl ?e)) ?w = (Ok (Raised ?e), upd_srv ((srv ?w)\<lparr>table_lock := None\<rparr>) ?w)"
      by (subst map_leave_run) (simp_all add: after_map_def)
    moreover have "upd_srv ((srv ?w)\<lparr>table_lock := None\<rparr>) ?w = w"
      using free by (cases "srv w") (simp add: upd_srv_def)
    ultimately show ?thesis
      using assms(2) [OF False] by (auto intro: alone_step [OF e alone_step [OF m alone_step]])
  qed
qed

lemma alone_find:
  assumes free: "table_lock (srv w) = None"
    and "smap_find n (set_of_table (srv w)) = None \<Longrightarrow>
      alone i (Raised (OperationException ''The table that you want to find is not exist'')) w rw"
    and "\<And>a. smap_find n (set_of_table (srv w)) = Some a \<Longrightarrow>
      alone i (if m_in_transaction (conn w) then Txn_lock n a acc else Guard_enter a acc) w rw"
  shows "alone i (Map_enter (Op_find n acc)) w rw"
proof -
  let ?w = "upd_srv ((srv w)\<lparr>table_lock := Some i\<rparr>) w"
  let ?r = "case smap_find n (set_of_table (srv w)) of Some a \<Rightarrow> Inr a
     | None \<Rightarrow> Inl (OperationException ''The table that you want to find is not exist'')"
  have e: "micro i (Map_enter (Op_find n acc)) w = (Ok (Map_look (Op_find n acc)), ?w)"
    using free by (simp add: map_enter_run del: micro.simps)
  have m: "micro i (Map_look (Op_find n acc)) ?w = (Ok (Map_leave (Op_find n acc) ?r), ?w)"
    by (subst map_look_find_run) simp_all
  have "micro i (Map_leave (Op_find n acc) ?r) ?w =
      (Ok (after_map (Op_find n acc) ?r ?w), upd_srv ((srv ?w)\<lparr>table_lock := None\<rparr>) ?w)"
    by (subst map_leave_run) simp_all
  moreover have "upd_srv ((srv ?w)\<lparr>table_lock := None\<rparr>) ?w = w"
    using free by (cases "srv w") (simp add: upd_srv_def)
  ultimately have l: "micro i (Map_leave (Op_find n acc) ?r) ?w = (Ok (after_map (Op_find n acc) ?r w), w)"
    by (simp add: after_map_def del: micro.simps split: option.split)
  have "alone i (after_map (Op_find n acc) ?r w) w rw"
    using assms(2,3) by (auto simp: after_map_def split: option.split)
  then show ?thesis
    by (rule alone_step [OF e alone_step [OF m alone_step [OF l]]])
qed

section \<open>Using a table\<close>

lemma alone_txn:
  assumes inv: "conn_inv i w" and ptr: "valid_ptr a (srv w)"
    and lost: "lock_step i a w = None \<Longrightarrow>
      alone i (Raised (FailedTransaction (''Could not acquire lock on table '' @ n))) w rw"
    and use: "\<And>w' u. lock_step i a w = Some w' \<Longrightarrow> used a acc w' = Some u \<Longrightarrow> alone i Reply u rw"
    and fail: "\<And>w'. lock_step i a w = Some w' \<Longrightarrow> used a acc w' = None \<Longrightarrow> alone i (Raised no_key) w' rw"
  shows "alone i (Txn_lock n a acc) w rw"
proof (cases "lock_step i a w")
  case None
  then have "micro i (Txn_lock n a acc) w =
      (Ok (Raised (FailedTransaction (''Could not acquire lock on table '' @ n))), w)"
    using ptr by (auto simp: txn_lock_run lock_step_def simp del: micro.simps split: if_splits)
  then show ?thesis
    using lost [OF None] by (rule alone_step)
next
  case (Some w')
  then have l: "micro i (Txn_lock n a acc) w = (Ok (Txn_use a acc), w')"
    using ptr by (auto simp: txn_lock_run lock_step_def simp del: micro.simps split: if_splits)
  note owns = lock_step_owns [OF inv ptr Some]
  have "alone i (Txn_use a acc) w' rw"
    using use [OF Some] fail [OF Some] txn_use_run [OF owns(2,1), of acc]
    by (cases "used a acc w'") (auto simp del: micro.simps intro: alone_step)
  with l show ?thesis
    by (rule alone_step)
qed

lemma alone_guard_get:
  assumes ptr: "valid_ptr a (srv w)" and free: "table_mutex (table_at a (srv w)) = None"
    and use: "\<And>v. view (table_at a (srv w)) k = Some v \<Longrightarrow> alone i Reply (push_value v w) rw"
    and fail: "view (table_at a (srv w)) k = None \<Longrightarrow> alone i (Raised no_key) w rw"
  shows "alone i (Guard_enter a (Get_key k)) w rw"
proof -
  let ?w = "set_mutex a (Some i) w"
  have restored: "set_mutex a None w = w"
    using free by (intro upd_table_same table_mutex_same)
  have own: "valid_ptr a (srv ?w)" "table_mutex (table_at a (srv ?w)) = Some i"
    using ptr by simp_all
  have own': "valid_ptr a (srv (push_value v ?w))" "table_mutex (table_at a (srv (push_value v ?w))) = Some i" for v
    using ptr by simp_all
  have e: "micro i (Guard_enter a (Get_key k)) w = (Ok (Guard_use a (Get_key k)), ?w)"
    using ptr free by (simp add: guard_enter_run del: micro.simps)
  have "alone i (Guard_use a (Get_key k)) ?w rw"
  proof (cases "view (table_at a (srv w)) k")
    case None
    have "alone i (Guard_leave a (Some no_key)) ?w rw"
      by (rule alone_step [OF held_steps_run(2) [OF own]]) (simp add: ptr restored fail None)
    then show ?thesis
      using guard_use_run [OF own, of "Get_key k"] None ptr by (auto simp del: micro.simps intro: alone_step)
  next
    case (Some v)
    have "alone i (Guard_leave a None) (push_value v ?w) rw"
      by (rule alone_step [OF held_steps_run(2) [OF own']]) (simp add: ptr restored use Some upd_table_push)
    then show ?thesis
      using guard_use_run [OF own, of "Get_key k"] Some ptr by (auto simp del: micro.simps intro: alone_step)
  qed
  with e show ?thesis
    by (rule alone_step)
qed

lemma alone_guard_set:
  assumes ptr: "valid_ptr a (srv w)" and free: "table_mutex (table_at a (srv w)) = None"
    and use: "alone i Reply (upd_table a (\<lambda>t. commit_changes (table_set k v t)) w) rw"
  shows "alone i (Guard_enter a (Set_key k v)) w rw"
proof -
  let ?w = "set_mutex a (Some i) w" and ?u = "upd_table a (table_set k v) (set_mutex a (Some i) w)"
  let ?c = "upd_table a commit_changes ?u"
  have own: "valid_ptr a (srv ?w)" "table_mutex (table_at a (srv ?w)) = Some i"
    and own': "valid_ptr a (srv ?u)" "table_mutex (table_at a (srv ?u)) = Some i"
    and own'': "valid_ptr a (srv ?c)" "table_mutex (table_at a (srv ?c)) = Some i"
    using ptr by simp_all
  have eq: "set_mutex a None ?c = upd_table a (\<lambda>t. commit_changes (table_set k v t)) w"
    using ptr free by (simp add: table_ops_mutex) (rule upd_table_cong, simp add: table_mutex_same)
  have e: "micro i (Guard_enter a (Set_key k v)) w = (Ok (Guard_use a (Set_key k v)), ?w)"
    using ptr free by (simp add: guard_enter_run del: micro.simps)
  have us: "micro i (Guard_use a (Set_key k v)) ?w = (Ok (Guard_commit a (Set_key k v)), ?u)"
    using guard_use_run [OF own, of "Set_key k v"] by simp
  have "alone i (Guard_leave a None) ?c rw"
    by (rule alone_step [OF held_steps_run(2) [OF own'']]) (simp only: eq use option.case)
  then show ?thesis
    by (rule alone_step [OF e alone_step [OF us alone_step [OF held_steps_run(1) [OF own']]]])
qed

section \<open>The requests\<close>

lemma no_key_expected: "expected no_key w" "expected (OperationException t) w"
  by (simp_all add: expected_def no_key_def)

lemma alone_GET:
  assumes inv: "conn_inv i w" and args: "get_table req = Some n" "get_key req = Some k"
    and b: "\<And>u. dispatch i req u = seq (handle_get i req) (ret True) u"
  shows "alone i (Map_enter (Op_find n (Get_key k))) w (until_next i (chat_catch i (dispatch i req)) w)"
proof -
  note run = handle_get_run [OF inv args]
  note ends = alone_ends [where b = "\<lambda>i. dispatch i req" and h = "\<lambda>i. handle_get i req", OF b]
  show ?thesis
  proof (rule alone_find [OF conn_invD(2) [OF inv]])
    assume "smap_find n (set_of_table (srv w)) = None"
    then show "alone i (Raised (OperationException ''The table that you want to find is not exist'')) w
        (until_next i (chat_catch i (dispatch i req)) w)"
      using run by (intro ends(2) inv no_key_expected) simp
  next
    fix a assume find: "smap_find n (set_of_table (srv w)) = Some a"
    then have ptr: "valid_ptr a (srv w)"
      using server_wfD(3) [OF conn_invD(1) [OF inv]] by blast
    let ?rw = "until_next i (chat_catch i (dispatch i req)) w"
    show "alone i (if m_in_transaction (conn w) then Txn_lock n a (Get_key k) else Guard_enter a (Get_key k)) w ?rw"
    proof (cases "m_in_transaction (conn w)")
      case True
      have inv': "conn_inv i w'" if "lock_step i a w = Some w'" for w'
        using step_ok_lock_step [OF inv ptr True that] by (simp add: step_ok_def)
      have view: "view (table_at a (srv w')) k = view (table_at a (srv w)) k" if "lock_step i a w = Some w'" for w'
        using lock_step_view [OF ptr that ptr] by simp
      have "alone i (Txn_lock n a (Get_key k)) w ?rw"
        using run find True inv' view
        by (intro alone_txn [OF inv ptr]) (auto intro!: ends(1,2) simp: inv expected_def no_key_def)
      with True show ?thesis by simp
    next
      case False
      have "alone i (Guard_enter a (Get_key k)) w ?rw"
      proof (cases "table_mutex (table_at a (srv w))")
        case None
        then show ?thesis
          using run find False inv
          by (intro alone_guard_get [OF ptr]) (auto intro!: ends(1,2) simp: expected_def no_key_def)
      next
        case (Some j)
        then show ?thesis
          using run find False ptr
          by (intro ends(3)) (auto simp: resting_def guard_enter_run simp del: micro.simps)
      qed
      with False show ?thesis by simp
    qed
  qed
qed

lemma alone_SET:
  assumes inv: "conn_inv i w" and args: "get_table req = Some n" "get_key req = Some k"
    and top: "operands w = v # vs"
    and b: "\<And>u. dispatch i req u = seq (handle_set i req) (ret True) u"
  shows "alone i (Map_enter (Op_find n (Set_key k v))) (drop_value w) (until_next i (chat_catch i (dispatch i req)) w)"
proof -
  let ?w = "drop_value w"
  note run = handle_set_run [OF inv args top]
  note ends = alone_ends [where b = "\<lambda>i. dispatch i req" and h = "\<lambda>i. handle_set i req", OF b]
  have inv0: "conn_inv i ?w" using inv by simp
  show ?thesis
  proof (rule alone_find [OF conn_invD(2) [OF inv0]])
    assume "smap_find n (set_of_table (srv ?w)) = None"
    then show "alone i (Raised (OperationException ''The table that you want to find is not exist'')) ?w
        (until_next i (chat_catch i (dispatch i req)) w)"
      using run by (intro ends(2) inv0 no_key_expected) simp
  next
    fix a assume find: "smap_find n (set_of_table (srv ?w)) = Some a"
    then have ptr: "valid_ptr a (srv ?w)"
      using server_wfD(3) [OF conn_invD(1) [OF inv]] by simp
    let ?rw = "until_next i (chat_catch i (dispatch i req)) w"
    show "alone i (if m_in_transaction (conn ?w) then Txn_lock n a (Set_key k v) else Guard_enter a (Set_key k v)) ?w ?rw"
    proof (cases "m_in_transaction (conn w)")
      case True
      have "alone i (Txn_lock n a (Set_key k v)) ?w ?rw"
        using run find True inv0
        by (intro alone_txn [OF inv0 ptr]) (auto intro!: ends(1,2) simp: expected_def)
      with True show ?thesis by simp
    next
      case False
      have "alone i (Guard_enter a (Set_key k v)) ?w ?rw"
      proof (cases "table_mutex (table_at a (srv ?w))")
        case None
        then show ?thesis
          using run find False by (intro alone_guard_set [OF ptr]) (auto intro!: ends(1))
      next
        case (Some j)
        then show ?thesis
          using run find False ptr
          by (intro ends(3)) (auto simp: resting_def guard_enter_run simp del: micro.simps)
      qed
      with False show ?thesis by simp
    qed
  qed
qed

lemma alone_CREATE:
  assumes inv: "conn_inv i w" and args: "get_table req = Some n"
    and b: "\<And>u. dispatch i req u = seq (handle_create i req) (ret True) u"
  shows "alone i (Map_enter (Op_create n)) w (until_next i (chat_catch i (dispatch i req)) w)"
proof -
  note ends = alone_ends [where b = "\<lambda>i. dispatch i req" and h = "\<lambda>i. handle_create i req", OF b]
  show ?thesis
    using handle_create_run [OF inv args] inv
    by (intro alone_create conn_invD(2)) (auto intro!: ends(1,2) simp: expected_def)
qed

lemma alone_COMMIT:
  assumes inv: "conn_inv i w" and txn: "m_in_transaction (conn w)"
    and b: "\<And>u. dispatch i req u = seq (handle_commit i) (ret True) u"
  shows "alone i (Commit_table (locked_tables (conn w))) w (until_next i (chat_catch i (dispatch i req)) w)"
proof -
  have "thread_inv i (Commit_table (locked_tables (conn w))) w"
    using inv txn by (simp add: thread_inv_Ready thread_inv_def left_of_def)
  note commit = alone_commit_tables [OF this]
  have "dispatch i req w = (Ok True, say ok_line (commit_world w))"
    using b handle_commit_run [OF inv] txn by (simp add: runs)
  then show ?thesis
    using commit by (simp add: until_next_simps chat_catch_def commit_world_def)
qed

section \<open>A turn\<close>

lemma alone_local:
  assumes inv: "conn_inv i w" and valid: "is_valid req" and loc: "\<not> map_request (get_message_type req)"
    and m: "raising (start_request i req) w = (Ok p, w')"
  shows "alone i p w' (until_next i (chat_catch i (dispatch i req)) w)"
proof -
  note eq = start_local_request [OF loc]
  have same: "conn_inv i w'" if "dispatch i req w = (r, w')" for r
    using dispatch_ok [OF inv valid] that by (simp add: step_ok_def)
  obtain r u where d: "dispatch i req w = (r, u)"
    by (cases "dispatch i req w")
  show ?thesis
  proof (cases r)
    case (Ok active)
    then have p: "p = (if active then Ready else Closing)" "u = w'"
      using m d unfolding eq by auto
    show ?thesis
    proof (cases active)
      case True
      then show ?thesis
        using d Ok p alone_Ready by (simp add: until_next_simps chat_catch_def)
    next
      case False
      have "conn_inv i w'"
        using same d Ok p by simp
      note close = alone_Closing [OF thread_inv_raised(4) [OF this] conn_invD(2) [OF this]]
      show ?thesis
        using d Ok p False close \<open>conn_inv i w'\<close> by (simp add: until_next_simps chat_catch_def)
    qed
  next
    case (Exn e)
    then have p: "p = Raised e" "u = w'"
      using m d unfolding eq by auto
    have "expected e w'"
      using dispatch_local [OF loc valid, of w i] d Exn p by (cases e) (auto simp: local_step_def expected_def)
    then show ?thesis
      using alone_Raised [OF same] d Exn p by simp
  qed (use m d in \<open>auto simp: eq\<close>)
qed

lemma alone_request:
  assumes inv: "conn_inv i w" and valid: "is_valid req" and m: "raising (start_request i req) w = (Ok p, w')"
  shows "alone i p w' (until_next i (chat_catch i (dispatch i req)) w)"
proof (cases "map_request (get_message_type req)")
  case False
  then show ?thesis
    using alone_local [OF inv valid _ m] by blast
next
  case True
  note acc = valid_accessors [OF valid, folded get_message_type_def]
  have inv': "thread_inv i Ready w"
    using inv by (simp add: thread_inv_Ready)
  note start = start_map_request [OF valid inv']
  note ends = alone_ends [where b = "\<lambda>i. dispatch i req"]
  consider (get) "get_message_type req = GET" | (set) "get_message_type req = SET"
    | (create) "get_message_type req = CREATE" | (commit) "get_message_type req = COMMIT"
    using True by (auto simp: map_request_def)
  then show ?thesis
  proof cases
    case get
    then obtain n k where a: "get_table req = Some n" "get_key req = Some k"
      using acc(2) by auto
    have b: "dispatch i req u = seq (handle_get i req) (ret True) u" for u
      using get by (simp add: dispatch_def)
    show ?thesis
      using start(2) [OF get a] alone_GET [OF inv a b] m by simp
  next
    case set
    then obtain n k where a: "get_table req = Some n" "get_key req = Some k"
      using acc(2) by auto
    have b: "dispatch i req u = seq (handle_set i req) (ret True) u" for u
      using set by (simp add: dispatch_def)
    show ?thesis
    proof (cases "operands w")
      case Nil
      then show ?thesis
        using start(3) [OF set a] m ends(2) [where h = "\<lambda>i. handle_set i req", OF b] inv
        by (auto simp: handle_set_empty expected_def)
    next
      case (Cons v vs)
      then show ?thesis
        using start(3) [OF set a] m alone_SET [OF inv a Cons b] by auto
    qed
  next
    case create
    then obtain n where a: "get_table req = Some n"
      using acc(1) by auto
    have b: "dispatch i req u = seq (handle_create i req) (ret True) u" for u
      using create by (simp add: dispatch_def)
    show ?thesis
      using start(1) [OF create a] alone_CREATE [OF inv a b] m by simp
  next
    case commit
    have b: "dispatch i req u = seq (handle_commit i) (ret True) u" for u
      using commit by (simp add: dispatch_def)
    show ?thesis
      using start(4) [OF commit] m alone_COMMIT [OF inv _ b] inv handle_commit_run [OF inv]
        ends(2) [where h = "\<lambda>i. handle_commit i", OF b]
      by (auto simp: expected_def split: if_splits)
  qed
qed

lemma alone_turn:
  assumes inv: "conn_inv i w" and m: "begin_turn i buf w = (Ok p, w')"
  shows "alone i p w' (serve_line i buf w)"
proof (cases "admitted buf w")
  case (Some req)
  have "is_valid req"
    using admittedD [OF Some] by blast
  moreover have "chat_catch i (chat_body i buf) w = chat_catch i (dispatch i req) w"
    using admitted_body [OF Some] by (simp add: chat_catch_def)
  ultimately show ?thesis
    using alone_request [OF inv, of req] m Some
    by (simp add: serve_line_def begin_turn_run until_next_def bind_case chat_iteration_def)
next
  case None
  let ?e = "case decode (c_str buf) of Inl e \<Rightarrow> e | Inr req \<Rightarrow> OperationException not_logged_in"
  have "chat_body i buf w = (Exn ?e, w) \<and> expected ?e w"
    by (rule not_admitted_body [OF None, of i]) (auto simp: expected_def)
  moreover have "p = Raised ?e" "w' = w"
    using m None by (simp_all add: begin_turn_run)
  ultimately show ?thesis
    using alone_Raised [OF inv, of ?e "chat_body i buf" w] by (simp add: serve_line_def chat_iteration_def)
qed

lemma undefined_turn_begins:
  assumes "conn_inv i w" "begin_turn i buf w = (Undef, w')"
  shows "serve_line i buf w = (Undef, w')"
proof -
  obtain req where req: "admitted buf w = Some req" "raising (start_request i req) w = (Undef, w')"
    using assms(2) by (auto simp: begin_turn_run split: option.splits)
  have valid: "is_valid req" and inv': "thread_inv i Ready w"
    using admittedD [OF req(1)] assms(1) by (auto simp: thread_inv_Ready)
  have "fst (raising (start_request i req) w) \<noteq> Undef" if "map_request (get_message_type req)"
    using that valid_accessors [OF valid, folded get_message_type_def]
    by (auto simp: map_request_def start_map_request [OF valid inv'] split: list.splits if_splits)
  then have "\<not> map_request (get_message_type req)"
    using req(2) by auto
  then have "dispatch i req w = (Undef, w')"
    using req(2) by (cases "dispatch i req w"; cases "fst (dispatch i req w)") (auto simp: start_local_request)
  then show ?thesis
    using admitted_body [OF req(1), of i] by (simp add: serve_line_def until_next_simps chat_iteration_def chat_catch_def)
qed

section \<open>Whole turns among the steps\<close>

text \<open>What the steps of a thread come to in the running server.\<close>

definition ended :: "tid \<Rightarrow> bool res \<times> world \<Rightarrow> threads \<Rightarrow> threads \<Rightarrow> bool" where
  "ended i rw T T' \<longleftrightarrow> (\<forall>j. j \<noteq> i \<longrightarrow> th_pc T' j = th_pc T j) \<and> (case rw of
       (Ok active, w) \<Rightarrow> th_sys T' = put_world i w (th_sys T) \<and> th_pc T' i = (if active then Ready else Ended)
     | (Exn e, w) \<Rightarrow> th_sys T' = (put_world i w (th_sys T))\<lparr>status := Terminated\<rparr>
     | _ \<Rightarrow> False)"

lemma put_world_put [simp]: "put_world i w (put_world i u \<sigma>) = put_world i w \<sigma>"
  by (simp add: put_world_def)

lemma put_world_same: "live i \<sigma> \<Longrightarrow> put_world i (world_of i \<sigma>) \<sigma> = \<sigma>"
  by (cases \<sigma>) (auto simp: put_world_def live_Some world_of_def fun_upd_idem)

lemma runs_alone:
  assumes "alone i p w rw" "fst rw \<noteq> Blocked" "th_inv T" "runnable i T" "th_pc T i = p" "world_of i (th_sys T) = w"
  shows "\<exists>n T'. run_th (replicate n (Th_run i)) T = Some T' \<and> ended i rw T T'"
  using assms
proof (induction arbitrary: T rule: alone.induct)
  case (rest p i w)
  have "p \<noteq> Ended"
    using thread_invD(8) [OF th_invD(3) [OF rest(3,4)]] rest(4,5) world_of_open by (auto simp: runnable_def)
  then have "ended i (Ok (p = Ready), w) T T"
    using rest put_world_same [of i "th_sys T"] by (auto simp: ended_def resting_def runnable_def)
  then show ?case
    by (intro exI [of _ 0]) auto
next
  case (step p i w p' w' rw)
  let ?T = "T\<lparr>th_sys := put_world i w' (th_sys T), th_pc := (th_pc T)(i := p')\<rparr>"
  have e: "exec_th (Th_run i) T = Some ?T"
    using step by (simp add: put_thread_def del: micro.simps)
  then have inv: "th_inv ?T"
    using th_inv_step step(6) by (simp only: exec_th_step)
  show ?case
  proof (cases "p' = Ended")
    case True
    then have "rw = (Ok False, w')"
      using alone_Ended_only step(3) by blast
    then have "ended i rw T ?T"
      using True by (simp add: ended_def)
    with e show ?thesis
      by (intro exI [of _ "Suc 0"] exI [of _ ?T]) simp
  next
    case False
    have "moved i w p' w'"
      using micro_fine [OF th_invD(3) [OF step(6,7)]] step by (simp del: micro.simps)
    then have "runnable i ?T"
      using step(7,9) world_of_open False by (auto simp: runnable_def moved_def)
    then obtain n T' where n: "run_th (replicate n (Th_run i)) ?T = Some T'" "ended i rw ?T T'"
      using step.IH [OF step(5) inv] by auto
    have "ended i rw T T'"
      using n(2) by (auto simp: ended_def split: res.splits)
    with n(1) e show ?thesis
      by (intro exI [of _ "Suc n"] exI [of _ T']) simp
  qed
next
  case (exn i p w e w')
  let ?T = "T\<lparr>th_sys := (put_world i w' (th_sys T))\<lparr>status := Terminated\<rparr>\<rparr>"
  have "exec_th (Th_run i) T = Some ?T"
    using exn by (simp add: put_thread_def del: micro.simps)
  then show ?case
    by (intro exI [of _ "Suc 0"] exI [of _ ?T]) (simp add: ended_def)
qed simp

text \<open>A state between two turns, as \<open>Sessions\<close> has them.\<close>

definition at_rest :: "threads \<Rightarrow> bool" where
  "at_rest T \<longleftrightarrow> (\<forall>i. live i (th_sys T) \<longrightarrow> th_pc T i = Ready)"

lemma at_rest_inv:
  assumes inv: "th_inv T" and rest: "at_rest T" and run: "runnable i T"
  shows "conn_inv i (world_of i (th_sys T))"
proof -
  have "table_lock (sys_srv (th_sys T)) = None"
  proof (cases "table_lock (sys_srv (th_sys T))")
    case (Some j)
    have r: "runnable j T"
      using map_owner_runs(1) [OF inv _ Some] run by (simp add: runnable_def)
    then have "in_map (th_pc T j)"
      using thread_invD(7) [OF th_invD(3) [OF inv r]] Some by simp
    then show ?thesis
      using rest r by (simp add: at_rest_def runnable_def)
  qed
  then show ?thesis
    using th_invD(3) [OF inv run] rest run by (simp add: thread_inv_Ready at_rest_def runnable_def)
qed

lemma client_turn_serve: "conn_inv i (world_of i \<sigma>) \<Longrightarrow> client_turn i buf \<sigma> = (case serve_line i buf (world_of i \<sigma>) of
    (Ok active, w) \<Rightarrow> Some (put_world i w \<sigma>)
  | (Exn e, w) \<Rightarrow> Some ((put_world i w \<sigma>)\<lparr>status := Terminated\<rparr>)
  | (Undef, w) \<Rightarrow> Some ((put_world i w \<sigma>)\<lparr>status := Undefined_behaviour\<rparr>)
  | (Blocked, w) \<Rightarrow> None)"
  using step_ok_def chat_iteration_ok [of i "world_of i \<sigma>" buf]
  by (cases "chat_iteration i buf (world_of i \<sigma>)"; cases "fst (chat_iteration i buf (world_of i \<sigma>))")
     (auto simp: client_turn_def serve_line_def until_next_simps close_run)

lemma serve_closes:
  assumes inv: "conn_inv i w" and run: "serve_line i buf w = (Ok False, w')"
  shows "\<not> wire_open w'"
proof -
  obtain r u where c: "chat_iteration i buf w = (r, u)"
    by (cases "chat_iteration i buf w")
  have "conn_inv i u"
    using chat_iteration_ok [OF inv, of buf] c by (simp add: step_ok_def)
  then show ?thesis
    using run c by (cases r) (auto simp: serve_line_def until_next_def runs connection_destroy_run split: if_splits)
qed

lemma line_is_run:
  assumes inv: "th_inv T" and rest: "at_rest T" and st: "exec_event (Line i buf) (th_sys T) = Some \<sigma>'"
  shows "\<exists>n T'. run_th (Th_line i buf # replicate n (Th_run i)) T = Some T' \<and> th_sys T' = \<sigma>'
    \<and> (status \<sigma>' = Running \<longrightarrow> at_rest T')"
proof -
  let ?w = "world_of i (th_sys T)"
  have r: "runnable i T" and turn: "client_turn i buf (th_sys T) = Some \<sigma>'"
    using st by (auto simp: runnable_def split: if_splits)
  have pc: "th_pc T i = Ready"
    using rest r by (simp add: at_rest_def runnable_def)
  note ci = at_rest_inv [OF inv rest r]
  note serve = client_turn_serve [OF ci, of buf, unfolded turn]
  have ti: "thread_inv i Ready ?w"
    using ci by (simp add: thread_inv_Ready)
  obtain x u where b: "begin_turn i buf ?w = (x, u)"
    by (cases "begin_turn i buf ?w")
  note fine = begin_turn_fine [OF ti, of buf, unfolded b]
  show ?thesis
  proof (cases x)
    case Undef
    then have "\<sigma>' = (put_world i u (th_sys T))\<lparr>status := Undefined_behaviour\<rparr>"
      using serve undefined_turn_begins [OF ci] b by simp
    then show ?thesis
      using r pc b Undef by (intro exI [of _ 0]) (simp add: put_thread_def)
  next
    case (Ok p)
    let ?T = "T\<lparr>th_sys := put_world i u (th_sys T), th_pc := (th_pc T)(i := p)\<rparr>"
    have e: "exec_th (Th_line i buf) T = Some ?T"
      using r pc b Ok by (simp add: put_thread_def)
    have inv': "th_inv ?T"
      using e th_inv_step inv by (simp only: exec_th_step)
    have al: "alone i p u (serve_line i buf ?w)"
      using alone_turn [OF ci] b Ok by simp
    have nb: "fst (serve_line i buf ?w) \<noteq> Blocked"
      using serve by (auto split: prod.splits res.splits)
    obtain n T' where n: "run_th (replicate n (Th_run i)) ?T = Some T'" "ended i (serve_line i buf ?w) ?T T'"
    proof (cases "p = Ended")
      case True
      then have "serve_line i buf ?w = (Ok False, u)"
        using alone_Ended_only al by blast
      then have "ended i (serve_line i buf ?w) ?T ?T"
        using True by (simp add: ended_def)
      then show thesis
        using that [of 0 ?T] by simp
    next
      case False
      then have "runnable i ?T"
        using fine Ok r world_of_open by (auto simp: runnable_def moved_def)
      then show thesis
        using runs_alone [OF al nb inv'] that by auto
    qed
    have "th_sys T' = \<sigma>' \<and> (status \<sigma>' = Running \<longrightarrow> at_rest T')"
      using n(2) serve rest r serve_closes [OF ci, of buf]
      by (auto simp: ended_def at_rest_def runnable_def split: prod.splits res.splits)
    with n(1) e show ?thesis
      by (intro exI [of _ n] exI [of _ T']) simp
  qed (use fine in simp_all)
qed

lemma hangup_is_run:
  assumes inv: "th_inv T" and rest: "at_rest T" and st: "exec_event (Hangup i) (th_sys T) = Some \<sigma>'"
  shows "\<exists>n T'. run_th (Th_eof i # replicate n (Th_run i)) T = Some T' \<and> th_sys T' = \<sigma>' \<and> at_rest T'"
proof -
  let ?w = "world_of i (th_sys T)" and ?T = "T\<lparr>th_pc := (th_pc T)(i := Closing)\<rparr>"
  have r: "runnable i T"
    using st by (auto simp: runnable_def split: if_splits)
  have pc: "th_pc T i = Ready"
    using rest r by (simp add: at_rest_def runnable_def)
  note ci = at_rest_inv [OF inv rest r]
  have \<sigma>': "\<sigma>' = put_world i (closed ?w) (th_sys T)"
    using st close_run [OF ci] by (auto split: if_splits)
  have e: "exec_th (Th_eof i) T = Some ?T"
    using r pc by simp
  have inv': "th_inv ?T"
    using th_inv_eof [OF inv r pc] .
  have al: "alone i Closing ?w (Ok False, closed ?w)"
    using alone_Closing [OF thread_inv_raised(4) [OF ci] conn_invD(2) [OF ci]] .
  then obtain n T' where n: "run_th (replicate n (Th_run i)) ?T = Some T'"
    "ended i (Ok False, closed ?w) ?T T'"
    using runs_alone [OF al _ inv'] r by (auto simp: runnable_def)
  have "th_sys T' = \<sigma>' \<and> at_rest T'"
    using n(2) rest r \<sigma>' by (auto simp: ended_def at_rest_def)
  with n(1) e show ?thesis
    by (intro exI [of _ n] exI [of _ T']) simp
qed

lemma accept_is_run:
  assumes rest: "at_rest T" and st: "exec_event (Accepted fd created) (th_sys T) = Some \<sigma>'"
  shows "\<exists>T'. exec_th (Th_accept fd created) T = Some T' \<and> th_sys T' = \<sigma>' \<and> at_rest T'"
  using assms by (auto simp: at_rest_def accept_eq log_error_def live_def split: if_splits)

lemma event_is_run:
  assumes "th_inv T" "at_rest T" "exec_event e (th_sys T) = Some \<sigma>'"
  shows "\<exists>es T'. run_th es T = Some T' \<and> th_sys T' = \<sigma>' \<and> (status \<sigma>' = Running \<longrightarrow> at_rest T')"
proof (cases e)
  case (Accepted fd created)
  then show ?thesis
    using accept_is_run [OF assms(2)] assms(3)
    by (metis Option.bind.bind_lunit run_th.simps)
next
  case (Line i buf)
  then show ?thesis
    using line_is_run [OF assms(1,2)] assms(3) by blast
next
  case (Hangup i)
  then show ?thesis
    using hangup_is_run [OF assms(1,2)] assms(3) by blast
qed

text \<open>Every execution in whole turns is an execution of the interleaved threads.\<close>

lemma run_th_inv: "th_inv T \<Longrightarrow> run_th es T = Some T' \<Longrightarrow> th_inv T'"
  by (induction es arbitrary: T) (auto simp: bind_eq_Some_conv exec_th_step intro: th_inv_step)

lemma run_events_stopped: "status \<sigma> \<noteq> Running \<Longrightarrow> run_events es \<sigma> = Some \<sigma>' \<Longrightarrow> \<sigma>' = \<sigma>"
  by (cases es; cases "hd es") auto

lemma events_are_run:
  "th_inv T \<Longrightarrow> at_rest T \<Longrightarrow> run_events es (th_sys T) = Some \<sigma>' \<Longrightarrow>
    \<exists>fs T'. run_th fs T = Some T' \<and> th_sys T' = \<sigma>' \<and> (status \<sigma>' = Running \<longrightarrow> at_rest T')"
proof (induction es arbitrary: T)
  case Nil
  then show ?case
    by (intro exI [of _ "[]"]) auto
next
  case (Cons e es)
  then obtain \<sigma>1 where 1: "exec_event e (th_sys T) = Some \<sigma>1" "run_events es \<sigma>1 = Some \<sigma>'"
    by (auto simp: bind_eq_Some_conv)
  obtain fs T1 where T1: "run_th fs T = Some T1" "th_sys T1 = \<sigma>1" "status \<sigma>1 = Running \<longrightarrow> at_rest T1"
    using event_is_run [OF Cons.prems(1,2) 1(1)] by blast
  show ?case
  proof (cases "status \<sigma>1 = Running")
    case True
    then obtain gs T' where "run_th gs T1 = Some T'" "th_sys T' = \<sigma>'" "status \<sigma>' = Running \<longrightarrow> at_rest T'"
      using Cons.IH [of T1] T1 1(2) run_th_inv [OF Cons.prems(1) T1(1)] by blast
    then show ?thesis
      using T1(1) by (intro exI [of _ "fs @ gs"]) (simp add: run_th_append)
  next
    case False
    then show ?thesis
      using run_events_stopped [OF False 1(2)] T1 by blast
  qed
qed

lemma start_at_rest: "at_rest (th_start (server_main argc fd))"
  by (auto simp: at_rest_def th_start_def server_main_def system_start_def server_listen_def log_error_def
      seq_run basic_runs bind_case modify_def live_Some)

end
