(* ===== verification/Store.thy ===== *)
theory Store
  imports Outcomes ChatFacts
begin

text \<open>
  What the server promises its clients, without tables, mutexes or staging maps: a database of
  committed entries and, for each client, a buffer of entries only that client sees until it
  commits.  A turn of the conversation refines one abstract effect.
\<close>

section \<open>The abstract database\<close>

record db =
  db_store :: "string \<rightharpoonup> (string \<rightharpoonup> string)"
  db_buffer :: "string \<Rightarrow> (string \<rightharpoonup> string)"

datatype effect =
    Nothing
  | Creates string
  | Stores string string string
  | Buffers string string string
  | Commits
  | Aborts

fun apply_effect :: "effect \<Rightarrow> db \<Rightarrow> db" where
  "apply_effect Nothing d = d"
| "apply_effect (Creates n) d = d\<lparr>db_store := (db_store d)(n \<mapsto> Map.empty)\<rparr>"
| "apply_effect (Stores n k v) d =
     d\<lparr>db_store := (db_store d)(n := map_option (\<lambda>m. m(k \<mapsto> v)) (db_store d n))\<rparr>"
| "apply_effect (Buffers n k v) d = d\<lparr>db_buffer := (db_buffer d)(n := (db_buffer d n)(k \<mapsto> v))\<rparr>"
| "apply_effect Commits d =
     \<lparr>db_store = (\<lambda>n. map_option (\<lambda>m. m ++ db_buffer d n) (db_store d n)), db_buffer = (\<lambda>n. Map.empty)\<rparr>"
| "apply_effect Aborts d = d\<lparr>db_buffer := (\<lambda>n. Map.empty)\<rparr>"

text \<open>What a client reads: its own buffer over the committed entries.\<close>

definition db_read :: "db \<Rightarrow> string \<Rightarrow> string \<Rightarrow> string option" where
  "db_read d n k = Option.bind (db_store d n) (\<lambda>m. (m ++ db_buffer d n) k)"

section \<open>The abstraction\<close>

definition abs_store :: "server \<Rightarrow> string \<rightharpoonup> (string \<rightharpoonup> string)" where
  "abs_store s n = map_option (\<lambda>a. committed (table_at a s)) (smap_find n (set_of_table s))"

definition abs_buffer :: "tid \<Rightarrow> server \<Rightarrow> string \<Rightarrow> (string \<rightharpoonup> string)" where
  "abs_buffer i s n = (case smap_find n (set_of_table s) of None \<Rightarrow> Map.empty
     | Some a \<Rightarrow> if table_mutex (table_at a s) = Some i then pending (table_at a s) else Map.empty)"

definition db_of :: "tid \<Rightarrow> server \<Rightarrow> db" where
  "db_of i s = \<lparr>db_store = abs_store s, db_buffer = abs_buffer i s\<rparr>"

lemma find_name:
  "server_wf s \<Longrightarrow> valid_ptr a s \<Longrightarrow> smap_find n (set_of_table s) = Some a \<longleftrightarrow> n = m_name (table_at a s)"
  using server_wfD(4,7) by blast

lemma pending_free:
  "server_wf s \<Longrightarrow> valid_ptr a s \<Longrightarrow> table_mutex (table_at a s) = None \<Longrightarrow> pending (table_at a s) = Map.empty"
  using server_wfD(6) [of s a] by (simp add: pending_def)

lemma abs_store_put:
  assumes "server_wf s" "valid_ptr a s"
  shows "abs_store (put_table a t s) = (abs_store s)(m_name (table_at a s) \<mapsto> committed t)"
proof
  fix n
  show "abs_store (put_table a t s) n = ((abs_store s)(m_name (table_at a s) \<mapsto> committed t)) n"
    using assms find_name [OF assms, of n] server_wfD(3) [OF assms(1), of n]
    by (cases "smap_find n (set_of_table s)") (auto simp: abs_store_def)
qed

lemma abs_buffer_put:
  assumes "server_wf s" "valid_ptr a s"
  shows "abs_buffer i (put_table a t s) = (abs_buffer i s)
    (m_name (table_at a s) := (if table_mutex t = Some i then pending t else Map.empty))"
proof
  fix n
  show "abs_buffer i (put_table a t s) n = ((abs_buffer i s)
    (m_name (table_at a s) := (if table_mutex t = Some i then pending t else Map.empty))) n"
    using assms find_name [OF assms, of n] server_wfD(3) [OF assms(1), of n]
    by (cases "smap_find n (set_of_table s)") (auto simp: abs_buffer_def)
qed

lemma abs_at:
  assumes "server_wf s" "valid_ptr a s"
  shows "abs_store s (m_name (table_at a s)) = Some (committed (table_at a s))"
    and "abs_buffer i s (m_name (table_at a s)) =
      (if table_mutex (table_at a s) = Some i then pending (table_at a s) else Map.empty)"
  using server_wfD(7) [OF assms] by (simp_all add: abs_store_def abs_buffer_def)

section \<open>The effects of the concrete steps\<close>

lemma db_acquire:
  assumes "server_wf (srv w)" "valid_ptr a (srv w)" "table_mutex (table_at a (srv w)) = None"
  shows "db_of i (srv (acquire i a w)) = db_of i (srv w)"
  using assms abs_at [OF assms(1,2)] pending_free [OF assms]
  by (simp add: db_of_def abs_store_put abs_buffer_put fun_upd_idem)

lemma db_lock_step:
  assumes "server_wf (srv w)" "valid_ptr a (srv w)" "lock_step i a w = Some w'"
  shows "db_of i (srv w') = db_of i (srv w)"
  using assms db_acquire [OF assms(1,2)] by (auto simp: lock_step_def split: if_splits)

lemma db_set:
  assumes "server_wf (srv w)" "valid_ptr a (srv w)" "table_mutex (table_at a (srv w)) = Some i"
  shows "db_of i (srv (upd_table a (table_set k v) w)) =
    apply_effect (Buffers (m_name (table_at a (srv w))) k v) (db_of i (srv w))"
  using assms abs_at [OF assms(1,2)]
  by (simp add: db_of_def abs_store_put abs_buffer_put fun_upd_idem)

lemma db_set_commit:
  assumes "server_wf (srv w)" "valid_ptr a (srv w)" "table_mutex (table_at a (srv w)) = None"
  shows "db_of i (srv (upd_table a (\<lambda>t. commit_changes (table_set k v t)) w)) =
    apply_effect (Stores (m_name (table_at a (srv w))) k v) (db_of i (srv w))"
  using assms abs_at [OF assms(1,2)] pending_free [OF assms] server_wfD(5) [OF assms(1,2)]
  by (simp add: db_of_def abs_store_put abs_buffer_put fun_upd_idem committed_commit view_def)

lemma db_create:
  assumes "server_wf s" "smap_find n (set_of_table s) = None"
  shows "db_of i (add_table n s) = apply_effect (Creates n) (db_of i s)"
proof -
  have at: "table_at a (add_table n s) = table_at a s" if "smap_find m (set_of_table s) = Some a" for m a
    using server_wfD(3) [OF assms(1) that] by simp
  have "abs_store (add_table n s) m = ((abs_store s)(n \<mapsto> Map.empty)) m" for m
    using at [of m] by (cases "smap_find m (set_of_table s)") (auto simp: abs_store_def)
  moreover have "abs_buffer i (add_table n s) m = abs_buffer i s m" for m
    using at [of m] assms(2) by (cases "smap_find m (set_of_table s)") (auto simp: abs_buffer_def)
  ultimately show ?thesis
    by (simp add: db_of_def fun_eq_iff)
qed

lemma find_after_release:
  "srv (finish w) = srv w" "set_of_table (srv (release f as w)) = set_of_table (srv w)"
  by simp_all

lemma db_commit:
  assumes inv: "conn_inv i w"
  shows "db_of i (srv (commit_world w)) = apply_effect Commits (db_of i (srv w))"
proof -
  have own: "a \<in> set (locked_tables (conn w)) \<longleftrightarrow> table_mutex (table_at a (srv w)) = Some i"
    if "valid_ptr a (srv w)" for a
    using conn_invD(4,5) [OF inv] that by blast
  note ptr = server_wfD(3) [OF conn_invD(1) [OF inv]] and wf = server_wfD(5) [OF conn_invD(1) [OF inv]]
  note at = release_at [OF conn_invD(8) [OF inv], of _ w commit_changes]
  have "abs_store (srv (commit_world w)) n =
      map_option (\<lambda>m. m ++ abs_buffer i (srv w) n) (abs_store (srv w) n)" for n
    using ptr [of n] wf at own
    by (cases "smap_find n (set_of_table (srv w))")
       (auto simp: abs_store_def abs_buffer_def commit_world_def committed_commit view_def)
  moreover have "abs_buffer i (srv (commit_world w)) n = Map.empty" for n
    using ptr [of n] at own
    by (cases "smap_find n (set_of_table (srv w))") (auto simp: abs_buffer_def commit_world_def)
  ultimately show ?thesis
    by (simp add: db_of_def fun_eq_iff)
qed

lemma db_abort:
  assumes inv: "conn_inv i w"
  shows "db_of i (srv (abort_world w)) = apply_effect Aborts (db_of i (srv w))"
proof -
  have own: "a \<in> set (locked_tables (conn w)) \<longleftrightarrow> table_mutex (table_at a (srv w)) = Some i"
    if "valid_ptr a (srv w)" for a
    using conn_invD(4,5) [OF inv] that by blast
  note ptr = server_wfD(3) [OF conn_invD(1) [OF inv]]
  note at = release_at [OF conn_invD(8) [OF inv], of _ w rollback_changes]
  have "abs_store (srv (abort_world w)) n = abs_store (srv w) n" for n
    using ptr [of n] at
    by (cases "smap_find n (set_of_table (srv w))") (auto simp: abs_store_def abort_world_def)
  moreover have "abs_buffer i (srv (abort_world w)) n = Map.empty" for n
    using ptr [of n] at own
    by (cases "smap_find n (set_of_table (srv w))") (auto simp: abs_buffer_def abort_world_def)
  ultimately show ?thesis
    by (simp add: db_of_def fun_eq_iff)
qed

section \<open>The effect of a request\<close>

definition effect_of :: "tid \<Rightarrow> message \<Rightarrow> world \<Rightarrow> effect" where
  "effect_of i req w =
    (if waits i req w then Nothing
     else if loses i req w \<or> nests req w then Aborts
     else (case get_message_type req of
         CREATE \<Rightarrow> (case get_table req of
             Some n \<Rightarrow> if db_store (db_of i (srv w)) n = None then Creates n else Nothing
           | None \<Rightarrow> Nothing)
       | SET \<Rightarrow> (case (get_table req, get_key req, operands w) of
             (Some n, Some k, v # _) \<Rightarrow>
               if db_store (db_of i (srv w)) n = None then Nothing
               else if m_in_transaction (conn w) then Buffers n k v
               else Stores n k v
           | _ \<Rightarrow> Nothing)
       | COMMIT \<Rightarrow> if m_in_transaction (conn w) then Commits else Nothing
       | _ \<Rightarrow> Nothing))"

lemma db_store_None: "db_store (db_of i s) n = None \<longleftrightarrow> smap_find n (set_of_table s) = None"
  by (simp add: db_of_def abs_store_def)

text \<open>A transaction that failed is rolled back by the catch clause, not by the handler.\<close>

definition handled :: "tid \<Rightarrow> 'a res \<times> world \<Rightarrow> db" where
  "handled i p = (case fst p of
       Exn (FailedTransaction e) \<Rightarrow> apply_effect Aborts (db_of i (srv (snd p)))
     | _ \<Rightarrow> db_of i (srv (snd p)))"

lemma handled_simps [simp]:
  "handled i (Ok a, w) = db_of i (srv w)" "handled i (Blocked, w) = db_of i (srv w)"
  "handled i (Undef, w) = db_of i (srv w)"
  "handled i (Exn (FailedTransaction e), w) = apply_effect Aborts (db_of i (srv w))"
  "handled i (Exn (OperationException e), w) = db_of i (srv w)"
  "handled i (Exn (InvalidMessage e), w) = db_of i (srv w)"
  by (simp_all add: handled_def)

lemma handled_seq_ret: "handled i (seq m (ret b) w) = handled i (m w)" for m :: "(world, unit) prog"
  by (cases "m w"; cases "fst (m w)") (simp_all add: handled_def seq_ret_fst seq_ret_snd split: exn.split)

lemma handled_get:
  assumes inv: "conn_inv i w" and get: "get_message_type req = GET"
    and args: "get_table req = Some n" "get_key req = Some k"
  shows "handled i (handle_get i req w) = apply_effect (effect_of i req w) (db_of i (srv w))"
proof -
  have tgt: "target req w = smap_find n (set_of_table (srv w))"
    using get args by (simp add: target_def)
  have nn: "\<not> nests req w"
    using get by (simp add: nests_def)
  show ?thesis
  proof (cases "target req w")
    case None
    then show ?thesis
      using get nn tgt handle_get_run [OF inv args]
      by (simp add: effect_of_def waits_def loses_def rival_None)
  next
    case (Some a)
    note ptr = target_ptr [OF inv Some]
    note lock = lock_step_rival [OF inv Some ptr] and free = rival_free [OF inv _ Some ptr]
    show ?thesis
      unfolding handle_get_run [OF inv args]
      using get nn tgt Some lock free db_lock_step [OF conn_invD(1) [OF inv] ptr, of i]
      by (auto simp: effect_of_def waits_def loses_def split: option.split)
  qed
qed

lemma handled_set:
  assumes inv: "conn_inv i w" and set: "get_message_type req = SET"
    and args: "get_table req = Some n" "get_key req = Some k"
  shows "handled i (handle_set i req w) = apply_effect (effect_of i req w) (db_of i (srv w))"
proof (cases "operands w")
  case Nil
  then show ?thesis
    using set by (simp add: handle_set_empty effect_of_def waits_def loses_def nests_def rival_None
        target_def split: option.split)
next
  case (Cons v vs)
  have tgt: "target req w = smap_find n (set_of_table (srv w))"
    using set args Cons by (simp add: target_def)
  have nn: "\<not> nests req w"
    using set by (simp add: nests_def)
  note run = handle_set_run [OF inv args Cons]
  show ?thesis
  proof (cases "target req w")
    case None
    then show ?thesis
      using set nn tgt run args Cons
      by (simp add: effect_of_def waits_def loses_def rival_None db_store_None)
  next
    case (Some a)
    note ptr = target_ptr [OF inv Some] and wf = conn_invD(1) [OF inv]
    have name: "m_name (table_at a (srv w)) = n"
      using server_wfD(4) [OF wf] Some tgt by simp
    have inv': "conn_inv i (drop_value w)" using inv by simp
    have buffers: "db_of i (srv (upd_table a (table_set k v) w')) =
        apply_effect (Buffers n k v) (db_of i (srv w))"
      if txn: "m_in_transaction (conn w)" and l: "lock_step i a (drop_value w) = Some w'" for w'
    proof -
      have ptr': "valid_ptr a (srv (drop_value w))" using ptr by simp
      have "server_wf (srv w')"
        using step_ok_lock_step [OF inv' ptr' _ l] txn conn_invD(1) by (auto simp: step_ok_def)
      moreover have "m_name (table_at a (srv w')) = n"
        using l ptr name by (auto simp: lock_step_def split: if_splits)
      ultimately show ?thesis
        using db_set [of w' a i k v] lock_step_owns [OF inv' ptr' l] db_lock_step [OF _ ptr' l] wf
        by simp
    qed
    have stores: "db_of i (srv (upd_table a (\<lambda>t. commit_changes (table_set k v t)) (drop_value w))) =
        apply_effect (Stores n k v) (db_of i (srv w))"
      if "table_mutex (table_at a (srv w)) = None"
      using db_set_commit [of "drop_value w" a i k v] that wf ptr name by simp
    have eff: "effect_of i req w = (if rival i req w \<noteq> None
        then (if m_in_transaction (conn w) then Aborts else Nothing)
        else if m_in_transaction (conn w) then Buffers n k v else Stores n k v)"
      using set nn args Cons Some tgt by (simp add: effect_of_def waits_def loses_def db_store_None)
    have lock: "lock_step i a (drop_value w) = None \<longleftrightarrow> rival i req w \<noteq> None"
      using lock_step_rival [OF inv Some ptr] by (auto simp: lock_step_def split: if_splits)
    show ?thesis
    proof (cases "m_in_transaction (conn w)")
      case True
      then have "handle_set i req w = (case lock_step i a (drop_value w) of
            None \<Rightarrow> (Exn (FailedTransaction (''Could not acquire lock on table '' @ n)), drop_value w)
          | Some w' \<Rightarrow> (Ok (), say ok_line (upd_table a (table_set k v) w')))"
        using run Some tgt by simp
      then show ?thesis
        using buffers lock True unfolding eff
        by (cases "lock_step i a (drop_value w)") (auto simp del: apply_effect.simps(4))
    next
      case False
      then have "handle_set i req w = (if table_mutex (table_at a (srv w)) = None
          then (Ok (), say ok_line (upd_table a (\<lambda>t. commit_changes (table_set k v t)) (drop_value w)))
          else (Blocked, drop_value w))"
        using run Some tgt by simp
      then show ?thesis
        using stores rival_free [OF inv False Some ptr] False unfolding eff
        by (auto simp del: apply_effect.simps(3))
    qed
  qed
qed

lemma effect_other:
  "get_message_type req \<notin> {CREATE, SET, GET, BEGIN, COMMIT} \<Longrightarrow> effect_of i req w = Nothing"
  using rival_other [of req i w]
  by (cases "get_message_type req") (simp_all add: effect_of_def waits_def loses_def nests_def)

lemma handled_top: "handled i (handle_top req w) = db_of i (srv w)"
  using encode_Inl [of "Message DATA [v]" for v]
  by (auto simp: handle_top_run send_message_run split: list.split sum.split dest!: encode_Inl)

lemma handled_arith:
  assumes "\<And>a b u. snd (f a b u) = u" "\<And>a b u t. fst (f a b u) \<noteq> Exn (FailedTransaction t)"
  shows "handled i (binary_operation msg f w) = db_of i (srv w)"
proof (cases "operands w" rule: list_two_cases)
  case (two r l vs)
  have "handled i (case f a b (drop_value (drop_value w)) of
           (Ok n, w'') \<Rightarrow> (Ok (), say ok_line (push_value (int_to_string n) w''))
         | (Exn e, w'') \<Rightarrow> (Exn e, w'')
         | (Blocked, w'') \<Rightarrow> (Blocked, w'')
         | (Undef, w'') \<Rightarrow> (Undef, w'')) = db_of i (srv w)" for a b
  proof -
    obtain x u where x: "f a b (drop_value (drop_value w)) = (x, u)"
      by (cases "f a b (drop_value (drop_value w))")
    have "u = drop_value (drop_value w)" "\<And>t. x \<noteq> Exn (FailedTransaction t)"
      using assms(1) [of a b "drop_value (drop_value w)"] assms(2) [of a b "drop_value (drop_value w)"] x
      by auto
    then show ?thesis
      unfolding x by (cases x) (auto simp: handled_def split: exn.split)
  qed
  then show ?thesis
    by (simp add: binary_operation_run [OF two] Let_def split: sum.split stoi_error.split)
qed (simp add: binary_operation_few)

lemma of_option_no_txn: "fst (of_option x w) \<noteq> Exn e"
  by (cases x) (simp_all add: basic_runs)

lemma handled_ariths:
  "handled i (handle_add w) = db_of i (srv w)" "handled i (handle_sub w) = db_of i (srv w)"
  "handled i (handle_mul w) = db_of i (srv w)" "handled i (handle_div w) = db_of i (srv w)"
  unfolding handle_add_def handle_sub_def handle_mul_def handle_div_def
  by (rule handled_arith; simp add: basic_runs of_option_no_txn)+

lemma handled_simple:
  "handled i (handle_login req w) = db_of i (srv w)" "handled i (handle_bye req w) = db_of i (srv w)"
  "handled i (handle_pop req w) = db_of i (srv w)"
  "get_value req = Some v \<Longrightarrow> handled i (handle_push req w) = db_of i (srv w)"
  by (auto simp: handle_login_run handle_bye_run handle_push_run handle_pop_run split: list.split)

lemma handled_dispatch:
  assumes inv: "conn_inv i w" and valid: "is_valid req"
  shows "handled i (dispatch i req w) = apply_effect (effect_of i req w) (db_of i (srv w))"
proof -
  note acc = valid_accessors [OF valid, folded get_message_type_def]
  consider (get) "get_message_type req = GET" | (set) "get_message_type req = SET"
    | (create) "get_message_type req = CREATE" | (nest) "get_message_type req = BEGIN"
    | (commit) "get_message_type req = COMMIT"
    | (other) "get_message_type req \<notin> {CREATE, SET, GET, BEGIN, COMMIT}" by blast
  then show ?thesis
  proof cases
    case get
    then show ?thesis
      using acc(2) handled_get [OF inv get] by (auto simp: dispatch_def handled_seq_ret)
  next
    case set
    then show ?thesis
      using acc(2) handled_set [OF inv set] by (auto simp: dispatch_def handled_seq_ret)
  next
    case create
    then obtain n where n: "get_table req = Some n"
      using acc(1) by auto
    have "effect_of i req w = (if smap_find n (set_of_table (srv w)) = None then Creates n else Nothing)"
      using create n rival_other [of req i w]
      by (simp add: effect_of_def waits_def loses_def nests_def db_store_None)
    then show ?thesis
      using create handle_create_run [OF inv n] db_create [OF conn_invD(1) [OF inv]]
      by (auto simp: dispatch_def handled_seq_ret simp del: apply_effect.simps(2))
  next
    case nest
    then show ?thesis
      using rival_other [of req i w]
      by (simp add: dispatch_def handled_seq_ret handle_begin_run effect_of_def waits_def loses_def nests_def)
  next
    case commit
    have "effect_of i req w = (if m_in_transaction (conn w) then Commits else Nothing)"
      using commit rival_other [of req i w]
      by (simp add: effect_of_def waits_def loses_def nests_def)
    then show ?thesis
      using commit db_commit [OF inv]
      by (simp add: dispatch_def handled_seq_ret handle_commit_run [OF inv] del: apply_effect.simps(5))
  next
    case other
    then show ?thesis
      using acc(3) effect_other [OF other, of i w] handled_top handled_ariths handled_simple
      by (cases "get_message_type req") (auto simp: dispatch_def handled_seq_ret basic_runs)
  qed
qed

section \<open>The effect of a turn\<close>

lemma send_srv: "srv (snd (send_message msg w)) = srv w"
  by (simp add: send_message_snd split: sum.split)

lemma iteration_db:
  assumes inv: "conn_inv i w"
  shows "db_of i (srv (snd (chat_iteration i buf w))) = handled i (chat_body i buf w)"
proof -
  obtain r w' where body: "chat_body i buf w = (r, w')" by (cases "chat_body i buf w")
  have "conn_inv i w'"
    using chat_body_ok [OF inv, of buf] body by (simp add: step_ok_def)
  then show ?thesis
    using body db_abort [of i w']
    by (auto simp: chat_iteration_def chat_catch_def seq_ret_snd send_srv rollback_then handled_def
        split: res.split exn.split)
qed

lemma turn_effect:
  assumes inv: "conn_inv i w"
  shows "db_of i (srv (snd (chat_iteration i buf w))) =
    apply_effect (case admitted buf w of None \<Rightarrow> Nothing | Some req \<Rightarrow> effect_of i req w) (db_of i (srv w))"
proof (cases "admitted buf w")
  case None
  then have "handled i (chat_body i buf w) = db_of i (srv w)"
    by (rule not_admitted_body [of _ _ i]) simp_all
  with None show ?thesis by (simp add: iteration_db [OF inv])
next
  case (Some req)
  then have "is_valid req"
    using admittedD by blast
  with Some show ?thesis
    using handled_dispatch [OF inv] by (simp add: iteration_db [OF inv] admitted_body)
qed

section \<open>Reading\<close>

text \<open>What GET pushes is what the abstract database shows this client.\<close>

lemma view_read:
  assumes "server_wf s" "smap_find n (set_of_table s) = Some a" "table_mutex (table_at a s) \<in> {None, Some i}"
  shows "view (table_at a s) k = db_read (db_of i s) n k"
proof -
  have ptr: "valid_ptr a s" and name: "m_name (table_at a s) = n"
    using server_wfD(3,4) [OF assms(1,2)] by auto
  have "pending (table_at a s) = abs_buffer i s n"
    using abs_at(2) [OF assms(1) ptr, of i] pending_free [OF assms(1) ptr] assms(3) name by auto
  then show ?thesis
    using abs_at(1) [OF assms(1) ptr] name by (simp add: db_read_def db_of_def view_def)
qed

lemma get_reads:
  assumes inv: "conn_inv i w" and get: "get_message_type req = GET"
    and args: "get_table req = Some n" "get_key req = Some k" and "rival i req w = None"
  shows "operands (snd (handle_get i req w)) =
      (case db_read (db_of i (srv w)) n k of Some v \<Rightarrow> v # operands w | None \<Rightarrow> operands w)"
    and "fst (handle_get i req w) = Ok () \<longleftrightarrow> db_read (db_of i (srv w)) n k \<noteq> None"
proof -
  have tgt: "target req w = smap_find n (set_of_table (srv w))"
    using get args by (simp add: target_def)
  have both: "operands (snd (handle_get i req w)) =
      (case db_read (db_of i (srv w)) n k of Some v \<Rightarrow> v # operands w | None \<Rightarrow> operands w)
    \<and> (fst (handle_get i req w) = Ok () \<longleftrightarrow> db_read (db_of i (srv w)) n k \<noteq> None)"
  proof (cases "smap_find n (set_of_table (srv w))")
    case None
    then have "db_read (db_of i (srv w)) n k = None"
      by (simp add: db_read_def db_of_def abs_store_def)
    with None show ?thesis
      by (simp add: handle_get_run [OF inv args])
  next
    case (Some a)
    have tgt: "target req w = Some a" using tgt Some by simp
    note ptr = target_ptr [OF inv tgt]
    have own: "table_mutex (table_at a (srv w)) \<in> {None, Some i}"
      using assms(5) tgt by (cases "table_mutex (table_at a (srv w))") (auto simp: rival_def split: if_splits)
    note read = view_read [OF conn_invD(1) [OF inv] Some own, of k]
    have lock: "\<exists>w'. lock_step i a w = Some w'"
      using lock_step_rival [OF inv tgt ptr] assms(5) by auto
    have free: "\<not> m_in_transaction (conn w) \<Longrightarrow> table_mutex (table_at a (srv w)) = None"
      using rival_free [OF inv _ tgt ptr] assms(5) by blast
    show ?thesis
      using Some read lock free lock_step_view [OF ptr _ ptr, of i] unfolding handle_get_run [OF inv args]
      by (auto split: option.splits)
  qed
  then show "operands (snd (handle_get i req w)) =
      (case db_read (db_of i (srv w)) n k of Some v \<Rightarrow> v # operands w | None \<Rightarrow> operands w)"
    and "fst (handle_get i req w) = Ok () \<longleftrightarrow> db_read (db_of i (srv w)) n k \<noteq> None"
    by auto
qed

end
