(* ===== verification/ThreadFacts.thy ===== *)
theory ThreadFacts
  imports ThreadTyped ThreadAlone Store
begin

text \<open>
  What one thread can see of the others over any number of steps: the tables it holds stay as they
  are, nobody else is in its places, and a table once created stays.
\<close>

section \<open>The frame of a run\<close>

definition th_event_tid :: "th_event \<Rightarrow> tid option" where
  "th_event_tid e = (case e of Th_accept fd created \<Rightarrow> None | Th_line i buf \<Rightarrow> Some i
     | Th_eof i \<Rightarrow> Some i | Th_run i \<Rightarrow> Some i)"

lemma put_frame:
  assumes "put_thread i (r, w) T = Some T'" "th_frame i (sys_srv (th_sys T)) (srv w)"
  shows "th_frame i (sys_srv (th_sys T)) (sys_srv (th_sys T'))"
    "\<And>j. j \<noteq> i \<Longrightarrow> sessions (th_sys T') j = sessions (th_sys T) j \<and> th_pc T' j = th_pc T j"
  using assms by (cases r; auto simp: put_thread_def put_world_def)+

lemma th_step_frame:
  assumes inv: "th_inv T" and st: "th_step T e T'" and e: "th_event_tid e = Some i"
  shows "th_frame i (sys_srv (th_sys T)) (sys_srv (th_sys T'))
    \<and> (\<forall>j. j \<noteq> i \<longrightarrow> sessions (th_sys T') j = sessions (th_sys T) j \<and> th_pc T' j = th_pc T j)"
  using st
proof (cases rule: th_step.cases)
  case (accept fd created)
  then show ?thesis using e by (simp add: th_event_tid_def)
next
  case (eof j)
  then show ?thesis using e by (simp add: th_event_tid_def)
next
  case (line j buf)
  obtain r w where b: "begin_turn j buf (world_of j (th_sys T)) = (r, w)"
    by (cases "begin_turn j buf (world_of j (th_sys T))")
  have "thread_inv j Ready (world_of j (th_sys T))"
    using th_invD(3) [OF inv line(2)] line(3) by simp
  from begin_turn_fine [OF this, of buf] have "th_frame j (sys_srv (th_sys T)) (srv w)"
    by (cases r) (auto simp: b moved_def)
  then show ?thesis
    using put_frame [OF line(4) [unfolded b]] e line(1) by (auto simp: th_event_tid_def)
next
  case (run j)
  obtain r w where m: "micro j (th_pc T j) (world_of j (th_sys T)) = (r, w)"
    by (cases "micro j (th_pc T j) (world_of j (th_sys T))")
  from micro_fine [OF th_invD(3) [OF inv run(2)]] have "th_frame j (sys_srv (th_sys T)) (srv w)"
    by (cases r) (auto simp: m moved_def)
  then show ?thesis
    using put_frame [OF run(3) [unfolded m]] e run(1) by (auto simp: th_event_tid_def)
qed

lemma th_accept_frame:
  assumes inv: "th_inv T" and st: "th_step T e T'" and e: "th_event_tid e = None"
  shows "sys_srv (th_sys T') = sys_srv (th_sys T)
    \<and> (\<forall>j. live j (th_sys T) \<longrightarrow> sessions (th_sys T') j = sessions (th_sys T) j \<and> th_pc T' j = th_pc T j)"
proof -
  obtain fd created where T': "status (th_sys T) = Running" "T' = T\<lparr>th_sys := accept_connection fd created (th_sys T),
      th_pc := (th_pc T)(next_tid (th_sys T) := Ready)\<rparr>"
    using st e by (cases rule: th_step.cases) (auto simp: th_event_tid_def)
  have "j \<noteq> next_tid (th_sys T)" if "live j (th_sys T)" for j
    using th_invD(2) [OF inv, of j] that by (auto simp: live_Some)
  then show ?thesis
    using T'(2) by (auto simp: accept_eq log_error_def put_world_def world_new_def)
qed

section \<open>Isolation\<close>

text \<open>\<open>owns i a\<close>: thread \<open>i\<close> has the mutex of the table, for a statement or for its transaction.\<close>

definition owns :: "tid \<Rightarrow> addr \<Rightarrow> threads \<Rightarrow> bool" where
  "owns i a T \<longleftrightarrow> runnable i T \<and> a \<in> owned (th_pc T i) (locked_tables (conn (world_of i (th_sys T))))"

lemma owns_mutex:
  assumes "th_inv T" "owns i a T"
  shows "valid_ptr a (sys_srv (th_sys T))" "table_mutex (table_at a (sys_srv (th_sys T))) = Some i"
  using owned_valid [OF th_invD(3) [OF assms(1)], of i a] assms(2) by (auto simp: owns_def)

lemma conn_of_session: "sessions \<sigma> j = sessions \<sigma>' j \<Longrightarrow> conn (world_of j \<sigma>) = conn (world_of j \<sigma>')"
  by (simp add: world_of_def world_new_def split: option.split)

lemma step_isolates:
  assumes inv: "th_inv T" and st: "th_step T e T'" and e: "th_event_tid e \<noteq> Some j" and own: "owns j a T"
  shows "table_at a (sys_srv (th_sys T')) = table_at a (sys_srv (th_sys T))
    \<and> sessions (th_sys T') j = sessions (th_sys T) j \<and> th_pc T' j = th_pc T j"
proof (cases "th_event_tid e")
  case None
  then show ?thesis
    using th_accept_frame [OF inv st None] own by (simp add: owns_def runnable_def)
next
  case (Some i)
  with e have "j \<noteq> i" by simp
  have fr: "frame i (sys_srv (th_sys T)) (sys_srv (th_sys T'))"
    using th_step_frame [OF inv st Some] by (simp add: th_frame_def)
  show ?thesis
    using frameD(4) [OF fr owns_mutex [OF inv own] \<open>j \<noteq> i\<close>] th_step_frame [OF inv st Some] \<open>j \<noteq> i\<close> by blast
qed

lemma run_isolates:
  "th_inv T \<Longrightarrow> run_th es T = Some T' \<Longrightarrow> owns j a T \<Longrightarrow> \<forall>e \<in> set es. th_event_tid e \<noteq> Some j \<Longrightarrow>
    table_at a (sys_srv (th_sys T')) = table_at a (sys_srv (th_sys T))
    \<and> sessions (th_sys T') j = sessions (th_sys T) j \<and> th_pc T' j = th_pc T j"
proof (induction es arbitrary: T)
  case (Cons e es)
  then obtain T1 where T1: "exec_th e T = Some T1" "run_th es T1 = Some T'"
    by (auto simp: bind_eq_Some_conv simp del: exec_th.simps)
  then have st: "th_step T e T1"
    by (simp only: exec_th_step)
  have iso: "table_at a (sys_srv (th_sys T1)) = table_at a (sys_srv (th_sys T))
      \<and> sessions (th_sys T1) j = sessions (th_sys T) j \<and> th_pc T1 j = th_pc T j"
    using step_isolates [OF Cons.prems(1) st _ Cons.prems(3)] Cons.prems(4) by simp
  show ?case
  proof (cases "status (th_sys T1) = Running")
    case True
    then have "owns j a T1"
      using iso Cons.prems(3) conn_of_session [of "th_sys T1" j "th_sys T"]
      by (auto simp: owns_def runnable_def live_def)
    then show ?thesis
      using Cons.IH [OF th_inv_step [OF st Cons.prems(1)] T1(2)] iso Cons.prems(4) by simp
  next
    case False
    then have "es = []"
      using T1(2) by (cases es; cases "hd es") (auto simp: runnable_def)
    then show ?thesis
      using T1(2) iso by simp
  qed
qed simp

section \<open>Tables stay\<close>

lemma step_keeps_tables:
  assumes inv: "th_inv T" and st: "th_step T e T'" and "smap_find n (set_of_table (sys_srv (th_sys T))) = Some a"
  shows "smap_find n (set_of_table (sys_srv (th_sys T'))) = Some a"
proof (cases "th_event_tid e")
  case None
  then show ?thesis
    using th_accept_frame [OF inv st] assms(3) by simp
next
  case (Some i)
  then show ?thesis
    using th_step_frame [OF inv st Some] assms(3) frameD(3) by (auto simp: th_frame_def)
qed

lemma run_keeps_tables:
  "th_inv T \<Longrightarrow> run_th es T = Some T' \<Longrightarrow> smap_find n (set_of_table (sys_srv (th_sys T))) = Some a \<Longrightarrow>
    smap_find n (set_of_table (sys_srv (th_sys T'))) = Some a"
proof (induction es arbitrary: T)
  case (Cons e es)
  then obtain T1 where T1: "exec_th e T = Some T1" "run_th es T1 = Some T'"
    by (auto simp: bind_eq_Some_conv simp del: exec_th.simps)
  then have st: "th_step T e T1"
    by (simp only: exec_th_step)
  then show ?case
    using Cons.IH [OF th_inv_step [OF st Cons.prems(1)] T1(2)] step_keeps_tables [OF Cons.prems(1) st Cons.prems(3)]
    by blast
qed simp

section \<open>The machine and the tables\<close>

text \<open>With no COMMIT in progress the machine's store is the committed entries of the tables.\<close>

lemma shown_store:
  assumes inv: "th_inv T" and run: "status (th_sys T) = Running"
    and calm: "\<forall>i. live i (th_sys T) \<longrightarrow> \<not> committing (th_pc T i)"
  shows "m_store (shown T) = abs_store (sys_srv (th_sys T))"
proof
  fix n
  show "m_store (shown T) n = abs_store (sys_srv (th_sys T)) n"
  proof (cases "smap_find n (set_of_table (sys_srv (th_sys T)))")
    case (Some a)
    note ptr = srv_wfD(1) [OF th_invD(1) [OF inv] Some]
    have "live j (th_sys T)" if "table_mutex (table_at a (sys_srv (th_sys T))) = Some j" for j
      using table_owner(1) [OF inv run ptr that] by (simp add: runnable_def)
    then show ?thesis
      using Some calm by (auto simp: shown_def machine_of_def abs_store_def entries_at_def split: option.split)
  qed (simp add: shown_def machine_of_def abs_store_def)
qed

end
