(* ===== verification/Responses.thy ===== *)
theory Responses
  imports ThreadFacts
begin

text \<open>
  Every request gets one response, in the order of the requests, also when the turns of the threads
  interleave: the steps of a turn write nothing but its one response, with the step that ends it.
\<close>

section \<open>What a step writes\<close>

text \<open>The responses a place still has to send.\<close>

fun owed :: "pc \<Rightarrow> nat" where
  "owed Ready = 0"
| "owed Closing = 0"
| "owed Ended = 0"
| "owed (Undo_table as None) = 0"
| "owed (Undo_unlock a as None) = 0"
| "owed p = 1"

definition reply :: "string \<Rightarrow> bool" where
  "reply line \<longleftrightarrow> (\<exists>resp. response_line resp line)"

definition pays :: "pc \<Rightarrow> world \<Rightarrow> pc \<Rightarrow> world \<Rightarrow> bool" where
  "pays p w p' w' \<longleftrightarrow> (if owed p' = owed p then wire w' = wire w
     else owed p = 1 \<and> owed p' = 0 \<and> (\<exists>line. reply line \<and> wire w' = wire w @ line))"

lemma reply_ok: "reply ok_line"
  using response_ok by (auto simp: reply_def)

lemma reply_text: "encode (Message FAILED [t]) = Inr b \<Longrightarrow> reply b" "encode (Message ERROR [t]) = Inr b \<Longrightarrow> reply b"
  by (auto simp: reply_def response_line_def is_valid.simps intro: exI [of _ "Message FAILED [t]"] exI [of _ "Message ERROR [t]"])

lemma used_wire [simp]: "used a acc w = Some w' \<Longrightarrow> wire w' = wire w"
  by (cases acc) auto

lemma owed_after [simp]: "owed (after_use a acc) = 1" "owed (after_map op r w) = 1"
  by (cases acc; simp) (cases op; cases r; simp add: after_map_def)

lemma pays_map:
  assumes inv: "thread_inv i p w" and m: "micro i p w = (Ok p', w')"
    and p: "p = Map_enter op \<or> p = Map_look op \<or> p = Map_leave op r"
  shows "pays p w p' w'"
proof -
  have "p \<noteq> Map_enter op \<Longrightarrow> table_lock (srv w) = Some i"
    using p thread_invD(7) [OF inv] by auto
  with p m show ?thesis
    by (cases op; elim disjE)
       (auto simp: pays_def map_enter_run map_look_create_run map_look_find_run map_leave_run
         simp del: micro.simps split: option.splits if_splits)
qed

lemma pays_table:
  assumes inv: "thread_inv i p w" and m: "micro i p w = (Ok p', w')"
    and p: "p \<in> {Txn_lock n a acc, Txn_use a acc, Guard_enter a acc, Guard_use a acc, Guard_commit a acc, Guard_leave a e}"
  shows "pays p w p' w'"
proof -
  have T: "p = Txn_lock n a acc \<or> p = Txn_use a acc \<Longrightarrow> valid_ptr a (srv w)"
    "p = Txn_use a acc \<Longrightarrow> table_mutex (table_at a (srv w)) = Some i"
    using txn_facts [OF inv, of n a acc] by auto
  have G: "p \<in> {Guard_use a acc, Guard_commit a acc, Guard_leave a e} \<Longrightarrow>
      valid_ptr a (srv w) \<and> table_mutex (table_at a (srv w)) = Some i"
    using guard_facts(1,2) [OF inv, of a acc e] by blast
  have E: "p = Guard_enter a acc \<Longrightarrow> valid_ptr a (srv w)"
    using thread_invD(8) [OF inv] by (auto simp: guards_def)
  from p m T G E show ?thesis
    by (auto simp: pays_def txn_lock_run txn_use_run guard_enter_run guard_use_run held_steps_run
        simp del: micro.simps split: option.splits if_splits)
qed

lemma pays_end:
  assumes inv: "thread_inv i p w" and m: "micro i p w = (Ok p', w')"
    and p: "p \<in> {Commit_table as, Commit_unlock a as, Undo_table as u, Undo_unlock a as u}"
  shows "pays p w p' w'"
proof -
  have own: "valid_ptr b (srv w)" "table_mutex (table_at b (srv w)) = Some i"
    if "b \<in> owned p (locked_tables (conn w))" for b
    using owned_valid [OF inv that] .
  show ?thesis
    using p m own reply_text(1)
    by (cases as; cases u)
       (auto simp: pays_def held_steps_run local_steps_run text_steps_run simp del: micro.simps split: sum.splits)
qed

lemma pays_raised:
  assumes "micro i (Raised e) w = (Ok p', w')"
  shows "pays (Raised e) w p' w'"
  using assms reply_text
  by (cases e) (auto simp: pays_def local_steps_run text_steps_run simp del: micro.simps split: sum.splits)

lemma micro_pays:
  assumes "thread_inv i p w" "micro i p w = (Ok p', w')"
  shows "pays p w p' w'"
proof (cases p)
  case (Raised e)
  with assms pays_raised show ?thesis by blast
qed (use assms pays_map [OF assms] pays_table [OF assms] pays_end [OF assms] reply_ok in
    \<open>auto simp: local_steps_run pays_def simp del: micro.simps\<close>)

lemma micro_unpaid:
  assumes "thread_inv i p w" "micro i p w = (Exn e, w')"
  shows "wire w' = wire w"
  using micro_fine [OF assms(1)] assms(2) by simp

section \<open>What the first step of a turn writes\<close>

lemma dispatch_local_answered:
  assumes fit: "world_fits w" and valid: "is_valid req" and loc: "\<not> map_request (get_message_type req)"
  shows "answered w (dispatch i req w)"
proof (cases "get_message_type req \<in> response_types")
  case True
  then show ?thesis by (simp add: dispatch_response)
next
  case False
  then show ?thesis
    using loc valid_accessors(3) [OF valid, folded get_message_type_def] arith_answered [of w] handle_top_answered [OF fit]
    by (cases "get_message_type req")
       (auto simp: dispatch_def response_type map_request_def handle_login_run handle_bye_run handle_push_run
         handle_begin_run handle_pop_run split: list.split intro!: answered_seq_ret)
qed

text \<open>The turn is over with its response, or nothing is written yet.\<close>

definition opens :: "world \<Rightarrow> pc \<Rightarrow> world \<Rightarrow> bool" where
  "opens w p w' \<longleftrightarrow> owed p = 1 \<and> wire w' = wire w
     \<or> owed p = 0 \<and> (\<exists>line. reply line \<and> wire w' = wire w @ line)"

lemma begin_opens:
  assumes inv: "thread_inv i Ready w" and t: "world_typed Ready w" and m: "begin_turn i buf w = (Ok p, w')"
  shows "opens w p w'"
proof (cases "admitted buf w")
  case None
  then show ?thesis
    using m by (auto simp: begin_turn_run opens_def)
next
  case (Some req)
  then have valid: "is_valid req" and run: "raising (start_request i req) w = (Ok p, w')"
    using admittedD m by (auto simp: begin_turn_run)
  note acc = valid_accessors [OF valid, folded get_message_type_def]
  show ?thesis
  proof (cases "map_request (get_message_type req)")
    case True
    then show ?thesis
      using run acc(1,2)
      by (auto simp: opens_def map_request_def start_map_request [OF valid inv] split: list.splits if_splits)
  next
    case False
    have "world_fits w"
      using t srv_typed_fits by (simp add: world_typed_def world_fits_def)
    from dispatch_local_answered [OF this valid False, of i] show ?thesis
      using run
      by (cases "dispatch i req w"; cases "fst (dispatch i req w)")
         (auto simp: start_local_request [OF False] opens_def answered_def wrote_def reply_def split: if_splits)
  qed
qed

section \<open>The ledger\<close>

definition ledger :: "tid \<Rightarrow> nat \<Rightarrow> threads \<Rightarrow> bool" where
  "ledger i k T \<longleftrightarrow> (\<exists>rs. wire (world_of i (th_sys T)) = concat rs \<and> length rs + owed (th_pc T i) = k
     \<and> (\<forall>r \<in> set rs. reply r))"

definition line_of :: "tid \<Rightarrow> th_event \<Rightarrow> bool" where
  "line_of i e \<longleftrightarrow> (case e of Th_line j buf \<Rightarrow> j = i | _ \<Rightarrow> False)"

definition requests :: "tid \<Rightarrow> th_event list \<Rightarrow> nat" where
  "requests i es = length (filter (line_of i) es)"

text \<open>A session that does not exist yet owes nothing.\<close>

definition quiet :: "threads \<Rightarrow> bool" where
  "quiet T \<longleftrightarrow> (\<forall>i. sessions (th_sys T) i = None \<longrightarrow> owed (th_pc T i) = 0)"

lemma wire_of_session: "sessions \<sigma> i = sessions \<sigma>' i \<Longrightarrow> wire (world_of i \<sigma>) = wire (world_of i \<sigma>')"
  by (simp add: world_of_def world_new_def split: option.split)

lemma ledger_other:
  "sessions (th_sys T') i = sessions (th_sys T) i \<Longrightarrow> th_pc T' i = th_pc T i \<Longrightarrow> ledger i k T' = ledger i k T"
  using wire_of_session [of "th_sys T'" i "th_sys T"] by (simp add: ledger_def)

lemma ledger_new:
  assumes "ledger i k T" "wire (world_of i (th_sys T)) = []" "owed (th_pc T i) = 0"
    and "wire (world_of i (th_sys T')) = []" "owed (th_pc T' i) = 0"
  shows "ledger i k T'"
proof -
  have "r \<noteq> []" if "reply r" for r
    using that by (auto simp: reply_def response_line_def encode_def split: if_splits option.splits)
  then have "k = 0"
    using assms(1-3) by (auto simp: ledger_def)
  then show ?thesis
    using assms(4,5) unfolding ledger_def by (intro exI [of _ "[]"]) simp
qed

lemma ledger_moved:
  assumes "ledger i k T" "put_thread i (Ok p, w) T = Some T'"
    and "pays (th_pc T i) (world_of i (th_sys T)) p w \<and> k' = k
      \<or> th_pc T i = Ready \<and> opens (world_of i (th_sys T)) p w \<and> k' = Suc k"
  shows "ledger i k' T'"
proof -
  obtain rs where rs: "wire (world_of i (th_sys T)) = concat rs" "length rs + owed (th_pc T i) = k" "\<forall>r \<in> set rs. reply r"
    using assms(1) by (auto simp: ledger_def)
  have T': "wire (world_of i (th_sys T')) = wire w" "th_pc T' i = p"
    using assms(2) by (auto simp: put_thread_def)
  have "\<exists>rs'. wire w = concat rs' \<and> length rs' + owed p = k' \<and> (\<forall>r \<in> set rs'. reply r)"
  proof (cases "\<exists>line. reply line \<and> wire w = wire (world_of i (th_sys T)) @ line \<and> owed p = 0 \<and> k' = Suc (length rs)")
    case True
    then obtain line where "reply line" "wire w = concat (rs @ [line])" "owed p = 0" "k' = Suc (length rs)"
      using rs(1) by auto
    then show ?thesis
      using rs(3) by (intro exI [of _ "rs @ [line]"]) auto
  next
    case False
    then show ?thesis
      using assms(3) rs by (intro exI [of _ rs]) (auto simp: pays_def opens_def split: if_splits)
  qed
  then show ?thesis
    using T' by (simp add: ledger_def)
qed

lemma ledger_stopped:
  assumes "ledger i k T" "put_thread i (Exn e, w) T = Some T'" "wire w = wire (world_of i (th_sys T))"
  shows "ledger i k T'"
  using assms by (auto simp: ledger_def put_thread_def)

lemma quiet_step: "th_step T e T' \<Longrightarrow> quiet T \<Longrightarrow> quiet T'"
  by (cases rule: th_step.cases, assumption)
     (auto simp: quiet_def put_thread_def accept_eq log_error_def runnable_def live_Some
       split: prod.splits res.splits if_splits)

lemma ledger_step:
  assumes inv: "th_inv T" and t: "typed T" and q: "quiet T" and st: "th_step T e T'"
    and ok: "status (th_sys T') \<noteq> Undefined_behaviour" and l: "ledger i k T"
  shows "ledger i (if line_of i e then Suc k else k) T'"
proof (cases "th_event_tid e")
  case None
  then obtain fd created where e: "e = Th_accept fd created"
    by (cases e) (auto simp: th_event_tid_def)
  with st have T': "T' = T\<lparr>th_sys := accept_connection fd created (th_sys T),
      th_pc := (th_pc T)(next_tid (th_sys T) := Ready)\<rparr>"
    by (simp add: th_accept_iff)
  show ?thesis
  proof (cases "i = next_tid (th_sys T)")
    case True
    then have none: "sessions (th_sys T) i = None"
      using th_invD(2) [OF inv, of i] by blast
    have "wire (world_of i (th_sys T')) = []" "wire (world_of i (th_sys T)) = []"
      using none True T' by (auto simp: accept_eq world_of_def world_new_def log_error_def)
    moreover have "owed (th_pc T i) = 0" "owed (th_pc T' i) = 0"
      using q none T' True by (simp_all add: quiet_def)
    ultimately show ?thesis
      using ledger_new [OF l] e by (simp add: line_of_def)
  next
    case False
    then have "sessions (th_sys T') i = sessions (th_sys T) i" "th_pc T' i = th_pc T i"
      using T' by (auto simp: accept_eq log_error_def)
    then have "ledger i k T'"
      using ledger_other [of T' i T k] l by blast
    then show ?thesis
      using e by (simp add: line_of_def)
  qed
next
  case (Some j)
  show ?thesis
  proof (cases "j = i")
    case False
    then have "ledger i k T'"
      using th_step_frame [OF inv st Some] ledger_other [of T' i T k] l by metis
    then show ?thesis
      using Some False by (cases e) (auto simp: line_of_def th_event_tid_def)
  next
    case True
    from st show ?thesis
    proof (cases rule: th_step.cases)
      case (line h buf)
      then have h: "h = i"
        using Some True by (simp add: th_event_tid_def)
      have w: "thread_inv i Ready (world_of i (th_sys T))" "world_typed Ready (world_of i (th_sys T))"
        using th_invD(3) [OF inv, of i] line(2,3) h t by (auto simp: world_typed_def typed_def)
      obtain r w where b: "begin_turn i buf (world_of i (th_sys T)) = (r, w)"
        by (cases "begin_turn i buf (world_of i (th_sys T))")
      obtain p where r: "r = Ok p"
        using begin_turn_fine [OF w(1), of buf] b line(4) h ok by (cases r) (auto simp: put_thread_def)
      have "ledger i (Suc k) T'"
        using ledger_moved [OF l line(4) [unfolded h b r]] begin_opens [OF w b [unfolded r]] line(3) h by simp
      then show ?thesis
        using line(1) h by (simp add: line_of_def)
    next
      case (eof h)
      then show ?thesis
        using l Some True by (auto simp: ledger_def line_of_def th_event_tid_def)
    next
      case (run h)
      then have h: "h = i"
        using Some True by (simp add: th_event_tid_def)
      have ti: "thread_inv i (th_pc T i) (world_of i (th_sys T))"
        using th_invD(3) [OF inv run(2)] h by simp
      obtain r w where m: "micro i (th_pc T i) (world_of i (th_sys T)) = (r, w)"
        by (cases "micro i (th_pc T i) (world_of i (th_sys T))")
      have "ledger i k T'"
      proof (cases r)
        case (Ok p)
        then show ?thesis
          using ledger_moved [OF l run(3) [unfolded h m Ok], of k] micro_pays [OF ti m [unfolded Ok]] by simp
      next
        case (Exn e)
        then show ?thesis
          using ledger_stopped [OF l run(3) [unfolded h m Exn] micro_unpaid [OF ti m [unfolded Exn]]] by simp
      next
        case Blocked
        then show ?thesis using run(3) h m by (simp add: put_thread_def)
      next
        case Undef
        then show ?thesis using run(3) h m ok by (auto simp: put_thread_def)
      qed
      then show ?thesis
        using run(1) by (simp add: line_of_def)
    qed (use Some True in \<open>simp add: th_event_tid_def\<close>)
  qed
qed

lemma ledger_run:
  "th_inv T \<Longrightarrow> typed T \<Longrightarrow> quiet T \<Longrightarrow> run_th es T = Some T' \<Longrightarrow> status (th_sys T') \<noteq> Undefined_behaviour \<Longrightarrow>
    ledger i k T \<Longrightarrow> ledger i (k + requests i es) T'"
proof (induction es arbitrary: T k)
  case (Cons e es)
  then obtain T1 where T1: "exec_th e T = Some T1" "run_th es T1 = Some T'"
    by (auto simp: bind_eq_Some_conv simp del: exec_th.simps)
  then have st: "th_step T e T1"
    by (simp only: exec_th_step)
  have ok: "status (th_sys T1) \<noteq> Undefined_behaviour"
  proof
    assume bad: "status (th_sys T1) = Undefined_behaviour"
    then have "es = []"
      using T1(2) by (cases es; cases "hd es") (auto simp: runnable_def)
    then show False
      using bad T1(2) Cons.prems(5) by simp
  qed
  show ?case
    using Cons.IH [OF th_inv_step [OF st Cons.prems(1)] typed_step [OF Cons.prems(1,2) st]
        quiet_step [OF st Cons.prems(3)] T1(2) Cons.prems(5) ledger_step [OF Cons.prems(1-3) st ok Cons.prems(6)]]
    by (simp add: requests_def split: if_splits)
qed (simp add: requests_def)

lemma start_quiet: "quiet (th_start \<sigma>)"
  by (simp add: quiet_def th_start_def)

lemma start_ledger: "ledger i 0 (th_start (server_main argc fd))"
proof -
  have "sessions (server_main argc fd) i = None"
    by (auto simp: server_main_def system_start_def log_error_def split: prod.splits res.splits)
  then show ?thesis
    by (auto simp: ledger_def th_start_def world_of_def world_new_def)
qed

lemma responses_counted:
  assumes "run_th es (th_start (server_main argc fd)) = Some T" "status (th_sys T) \<noteq> Undefined_behaviour"
  shows "ledger i (requests i es) T"
  using ledger_run [OF th_inv_start typed_start start_quiet assms start_ledger] by simp

end
