(* ===== verification/Wire.thy ===== *)
theory Wire
  imports Rio Serialization
begin

text \<open>
  Messages over a socket: the bytes \<^verbatim>\<open>encode\<close> produced, cut into pieces by the network, come out of
  \<^verbatim>\<open>rio_readlineb\<close> as the lines \<^verbatim>\<open>decode\<close> is given.  Both ends call it with a buffer of
  \<^verbatim>\<open>Message::MAX_ENCODED_LEN\<close> bytes, one of which is the terminator.
\<close>

section \<open>One line\<close>

lemma c_str_terminate: "nul \<notin> set l \<Longrightarrow> c_str (terminate_line l buf) = l"
  by (simp add: terminate_line_def overwrite_def c_str_append_nul)

lemma next_line_whole:
  "newline \<notin> set body \<Longrightarrow> length body < k \<Longrightarrow> next_line k (body @ newline # rest) = body @ [newline]"
proof (induction body arbitrary: k)
  case Nil
  then show ?case by (cases k) auto
next
  case (Cons c body)
  then show ?case by (cases k) auto
qed

lemma next_line_Nil [simp]: "next_line k [] = []"
  by (cases k) simp_all

lemma next_line_cut: "newline \<notin> set s \<Longrightarrow> next_line k s = take k s"
  by (induction k s rule: next_line.induct) auto

text \<open>A message is one line when its only newline is the one \<open>encode\<close> ends it with.\<close>

definition one_line :: "string \<Rightarrow> bool" where
  "one_line s \<longleftrightarrow> s \<noteq> [] \<and> last s = newline \<and> newline \<notin> set (butlast s) \<and> nul \<notin> set s"

lemma one_lineE:
  assumes "one_line s"
  obtains body where "s = body @ [newline]" "newline \<notin> set body" "nul \<notin> set s"
  using assms that [of "butlast s"] by (auto simp: one_line_def append_butlast_last_id [symmetric]) (metis append_butlast_last_id)

lemma readlineb_line:
  assumes wf: "rio_wf rp" and line: "one_line s" "length s < maxlen" and st: "stream rp inp = s @ rest"
  shows "\<exists>buf' rp' inp'. rio_readlineb rp buf maxlen inp = (int (length s), buf', rp', inp')
    \<and> c_str buf' = s \<and> rio_wf rp' \<and> stream rp' inp' = rest \<and> ends_failed inp' = ends_failed inp"
proof -
  obtain body where s: "s = body @ [newline]" "newline \<notin> set body" "nul \<notin> set s"
    using line(1) by (rule one_lineE)
  have nl: "next_line (maxlen - 1) (stream rp inp) = s"
    using s st line(2) next_line_whole [of body "maxlen - 1" rest] by simp
  moreover have "line_complete (maxlen - 1) s"
    using s(1) by (simp add: line_complete_def)
  ultimately obtain rp' inp' where "readlineb_loop (maxlen - 1) [] buf rp inp =
      (int (length s), terminate_line s buf, rp', inp')" "rio_wf rp'" "stream rp inp = s @ stream rp' inp'"
      "ends_failed inp' = ends_failed inp"
    using readlineb_loop_spec(1) [OF wf, of "maxlen - 1" inp "[]" buf] by auto
  then show ?thesis
    using st c_str_terminate [OF s(3)] by (auto simp: rio_readlineb_def)
qed

text \<open>A line that does not fit loses its end: the last byte it can hold is not the newline.\<close>

lemma readlineb_cut:
  assumes wf: "rio_wf rp" and line: "one_line s" and len: "1 < maxlen" "maxlen \<le> length s"
    and st: "stream rp inp = s @ rest"
  shows "\<exists>buf' rp' inp'. rio_readlineb rp buf maxlen inp = (int (maxlen - 1), buf', rp', inp')
    \<and> c_str buf' = take (maxlen - 1) s"
proof -
  obtain body where s: "s = body @ [newline]" "newline \<notin> set body" "nul \<notin> set s"
    using line by (rule one_lineE)
  have fits: "maxlen - 1 \<le> length body"
    using len s(1) by simp
  have "next_line (maxlen - 1) (stream rp inp) = take (maxlen - 1) body"
  proof -
    have "next_line k (b @ newline # r) = take k b" if "newline \<notin> set b" "k \<le> length b" for k b r
      using that by (induction k b rule: next_line.induct) auto
    with s st fits show ?thesis by simp
  qed
  moreover have "line_complete (maxlen - 1) (take (maxlen - 1) body)"
    using fits by (simp add: line_complete_def)
  ultimately obtain rp' inp' where "readlineb_loop (maxlen - 1) [] buf rp inp =
      (int (maxlen - 1), terminate_line (take (maxlen - 1) body) buf, rp', inp')"
    using readlineb_loop_spec(1) [OF wf, of "maxlen - 1" inp "[]" buf] fits by auto
  moreover have "nul \<notin> set (take (maxlen - 1) body)"
    using s(1,3) by (auto dest: in_set_takeD)
  ultimately show ?thesis
    using c_str_terminate [of "take (maxlen - 1) body" buf] s(1) fits by (auto simp: rio_readlineb_def)
qed

section \<open>A conversation\<close>

text \<open>
  The lines a side of the connection reads, one call after the other, until a call returns no
  line; \<open>fuel\<close> bounds how many.  The buffer of a call is not cleared before it.
\<close>

fun read_lines :: "nat \<Rightarrow> string \<Rightarrow> rio_t \<Rightarrow> input \<Rightarrow> string list" where
  "read_lines 0 buf rp inp = []"
| "read_lines (Suc fuel) buf rp inp = (case rio_readlineb rp buf MAX_ENCODED_LEN inp of
     (n, buf', rp', inp') \<Rightarrow> if n \<le> 0 then [] else buf' # read_lines fuel buf' rp' inp')"

lemma read_lines_all:
  assumes "rio_wf rp" "stream rp inp = concat ss" "\<forall>s \<in> set ss. one_line s \<and> length s < MAX_ENCODED_LEN"
    and "length ss < fuel"
  shows "map c_str (read_lines fuel buf rp inp) = ss"
  using assms
proof (induction ss arbitrary: fuel buf rp inp)
  case Nil
  then obtain f where f: "fuel = Suc f" by (cases fuel) auto
  have "\<not> line_complete (MAX_ENCODED_LEN - 1) (next_line (MAX_ENCODED_LEN - 1) (stream rp inp))"
    using Nil.prems(2) by (simp add: line_complete_def MAX_ENCODED_LEN_def)
  with readlineb_loop_spec(2) [OF Nil.prems(1), of "MAX_ENCODED_LEN - 1" inp "[]" buf] Nil.prems(2)
  have "\<exists>n buf' rp' inp'. rio_readlineb rp buf MAX_ENCODED_LEN inp = (n, buf', rp', inp') \<and> n \<le> 0"
    by (fastforce simp: rio_readlineb_def)
  with f show ?case by auto
next
  case (Cons s ss)
  then obtain f where f: "fuel = Suc f" by (cases fuel) auto
  have "s \<noteq> []"
    using Cons.prems(3) by (auto simp: one_line_def)
  moreover obtain buf' rp' inp' where "rio_readlineb rp buf MAX_ENCODED_LEN inp = (int (length s), buf', rp', inp')"
    "c_str buf' = s" "rio_wf rp'" "stream rp' inp' = concat ss"
    using readlineb_line [OF Cons.prems(1), of s MAX_ENCODED_LEN inp "concat ss" buf] Cons.prems(2,3) by auto
  ultimately show ?case
    using Cons.IH [of rp' inp' f buf'] Cons.prems(3,4) f by simp
qed

section \<open>Messages\<close>

text \<open>An argument with no control bytes in it keeps a message on one line.\<close>

definition clean_arg :: "string \<Rightarrow> bool" where
  "clean_arg a \<longleftrightarrow> newline \<notin> set a \<and> nul \<notin> set a"

lemma args_str_set: "set (args_str as) \<subseteq> insert blank (\<Union> (set ` set as))"
  by (induction as) auto

lemma encode_one_line:
  assumes "encode msg = Inr s" "\<forall>a \<in> set (m_args msg). clean_arg a"
  shows "one_line s"
proof -
  obtain cmd where cmd: "command_str (m_message_type msg) = Some cmd"
    and s: "s = message_line cmd msg @ [newline]"
    using assms(1) unfolding encode_Inr by blast
  have "newline \<notin> set cmd" "nul \<notin> set cmd"
    using cmd by (cases "m_message_type msg"; auto)+
  then have "newline \<notin> set (message_line cmd msg)" "nul \<notin> set (message_line cmd msg)"
    using assms(2) args_str_set [of "m_args msg"] by (auto simp: message_line_def clean_arg_def)
  then show ?thesis
    by (simp add: s one_line_def)
qed

lemma read_messages:
  assumes "rio_wf rp" "list_all2 (\<lambda>msg s. is_valid msg \<and> encode msg = Inr s) msgs ss"
    and "\<forall>msg \<in> set msgs. \<forall>a \<in> set (m_args msg). clean_arg a"
    and "\<forall>s \<in> set ss. length s < MAX_ENCODED_LEN" "stream rp inp = concat ss" "length ss < fuel"
  shows "map (decode \<circ> c_str) (read_lines fuel buf rp inp) = map Inr msgs"
proof -
  have "\<forall>s \<in> set ss. one_line s"
    using assms(2,3) by (induction rule: list_all2_induct) (auto intro: encode_one_line)
  then have "map c_str (read_lines fuel buf rp inp) = ss"
    using assms by (intro read_lines_all) auto
  then have "map (decode \<circ> c_str) (read_lines fuel buf rp inp) = map decode ss"
    by (metis map_map)
  also have "\<dots> = map Inr msgs"
    using assms(2) by (induction rule: list_all2_induct) (auto intro: decode_encode)
  finally show ?thesis .
qed

lemma lost_message:
  assumes wf: "rio_wf rp" and enc: "encode msg = Inr s" and len: "length s = MAX_ENCODED_LEN"
    and clean: "\<forall>a \<in> set (m_args msg). clean_arg a" and st: "stream rp inp = s @ rest"
  shows "\<exists>buf' rp' inp'. rio_readlineb rp buf MAX_ENCODED_LEN inp = (1023, buf', rp', inp')
    \<and> decode (c_str buf') = Inl (InvalidMessage ''Message is not terminated by newline'')"
proof -
  note line = encode_one_line [OF enc clean]
  have MAX: "1 < MAX_ENCODED_LEN" "MAX_ENCODED_LEN - 1 = 1023"
    by (simp_all add: MAX_ENCODED_LEN_def)
  obtain buf' rp' inp' where rd: "rio_readlineb rp buf MAX_ENCODED_LEN inp = (int (MAX_ENCODED_LEN - 1), buf', rp', inp')"
    "c_str buf' = take (MAX_ENCODED_LEN - 1) s"
    using readlineb_cut [OF wf line MAX(1) _ st] len by (metis order_refl)
  have cut: "take (MAX_ENCODED_LEN - 1) s = butlast s"
    using len by (simp add: butlast_conv_take)
  have "newline \<notin> set (butlast s)" "butlast s \<noteq> []"
    using line len MAX(1) by (auto simp: one_line_def dest: arg_cong [where f = length])
  then have "last (butlast s) \<noteq> newline"
    using last_in_set [of "butlast s"] by metis
  moreover have "\<not> MAX_ENCODED_LEN < length (butlast s)"
    using len by simp
  ultimately have "decode (butlast s) = Inl (InvalidMessage ''Message is not terminated by newline'')"
    by (simp add: decode_def)
  with rd cut MAX(2) show ?thesis by simp
qed

section \<open>Properties\<close>

text \<open>C30: A sequence of valid messages, encoded one after the other and cut into pieces by the network in
  any way, with reads interrupted in any way, comes out of the reader as exactly those messages,
  one per line, provided each line is shorter than the 1024-byte buffer and no argument holds a
  newline or a NUL.\<close>

theorem messages_survive_the_wire:
  assumes "rio_wf rp" "list_all2 (\<lambda>msg s. is_valid msg \<and> encode msg = Inr s) msgs ss"
    and "\<forall>msg \<in> set msgs. \<forall>a \<in> set (m_args msg). clean_arg a"
    and "\<forall>s \<in> set ss. length s < MAX_ENCODED_LEN" "stream rp inp = concat ss" "length ss < fuel"
  shows "map (decode \<circ> c_str) (read_lines fuel buf rp inp) = map Inr msgs"
  by (rule read_messages [OF assms])

theorem messages_survive_the_wire_witness:
  "map (decode \<circ> c_str) (read_lines 5 []
     (rio_readinitb \<lparr>rio_fd = 0, rio_cnt = 3, rio_bufptr = 1, rio_buf = ''junk''\<rparr> 4)
     [Data ''LOG'', Interrupted, Data (''IN ann'' @ [newline] @ ''TO''), Data (''P'' @ [newline])])
   = map Inr [Message LOGIN [''ann''], Message TOP []]"
proof (rule messages_survive_the_wire [where ss = "[''LOGIN ann'' @ [newline], ''TOP'' @ [newline]]"])
  show "list_all2 (\<lambda>msg s. is_valid msg \<and> encode msg = Inr s) [Message LOGIN [''ann''], Message TOP []]
      [''LOGIN ann'' @ [newline], ''TOP'' @ [newline]]"
    by code_simp
qed (simp_all add: clean_arg_def MAX_ENCODED_LEN_def stream_def)

text \<open>C38: encode and decode allow messages of 1024 bytes, but a message of exactly that length does not
  survive rio_readlineb with a 1024-byte buffer: the line it delivers is one byte short, and
  decode rejects it as not terminated.\<close>

theorem longest_message_is_lost:
  assumes "rio_wf rp" "encode msg = Inr s" "length s = MAX_ENCODED_LEN" "\<forall>a \<in> set (m_args msg). clean_arg a"
    and "stream rp inp = s @ rest"
  shows "\<exists>buf' rp' inp'. rio_readlineb rp buf MAX_ENCODED_LEN inp = (1023, buf', rp', inp')
    \<and> decode (c_str buf') = Inl (InvalidMessage ''Message is not terminated by newline'')"
  by (rule lost_message [OF assms])

theorem longest_message_is_lost_witness:
  "\<exists>buf' rp' inp'. rio_readlineb (rio_readinitb \<lparr>rio_fd = 0, rio_cnt = 0, rio_bufptr = 0, rio_buf = []\<rparr> 4) []
      MAX_ENCODED_LEN [Data (''PUSH '' @ replicate 1018 CHR ''7'' @ [newline])] = (1023, buf', rp', inp')
    \<and> decode (c_str buf') = Inl (InvalidMessage ''Message is not terminated by newline'')"
proof (rule longest_message_is_lost [where msg = "Message PUSH [replicate 1018 CHR ''7'']" and rest = "[]"])
  show "encode (Message PUSH [replicate 1018 CHR ''7'']) = Inr (''PUSH '' @ replicate 1018 CHR ''7'' @ [newline])"
    unfolding encode_Inr
    by (intro exI [of _ "''PUSH''"] conjI) (simp_all add: message_line_def MAX_ENCODED_LEN_def)
  show "length (''PUSH '' @ replicate 1018 CHR ''7'' @ [newline]) = MAX_ENCODED_LEN"
    by (simp add: MAX_ENCODED_LEN_def)
qed (simp_all add: clean_arg_def stream_def)

end
