(* ===== verification/NetFacts.thy ===== *)
theory NetFacts
  imports Network Responses Wire "HOL-Library.Sublist"
begin

text \<open>
  What the server does with the bytes on its sockets: the network refines the threads, the lines a
  client sends are the requests of its session, the responses arrive whole when no write fails, and
  one peer that is gone ends the process.
\<close>

section \<open>The threads below\<close>

fun thread_event :: "net_event \<Rightarrow> network \<Rightarrow> th_event" where
  "thread_event (Net_accept client_fd created junk inp evs) N = Th_accept client_fd created"
| "thread_event (Net_turn i junk) N =
     (case rio_readlineb (m_fdbuf (n_peers N i)) junk MAX_ENCODED_LEN (p_in (n_peers N i)) of
        (n, buf, rio, inp) \<Rightarrow> if n \<le> 0 then Th_eof i else Th_line i buf)"
| "thread_event (Net_run i) N = Th_run i"

fun thread_events :: "net_event list \<Rightarrow> network \<Rightarrow> th_event list" where
  "thread_events [] N = []"
| "thread_events (e # es) N = thread_event e N #
     (case exec_net e N of None \<Rightarrow> [] | Some N' \<Rightarrow> thread_events es N')"

lemma deliver_threads [simp]: "n_threads (deliver i bytes N) = n_threads N"
  by (simp add: deliver_def Let_def split: prod.split)

lemma after_step_threads [simp]: "n_threads (after_step i N T') = T'"
  by (simp add: after_step_def)

lemma net_step_threads: "net_step N e N' \<Longrightarrow> th_step (n_threads N) (thread_event e N) (n_threads N')"
  by (cases rule: net_step.cases, assumption) auto

lemma run_net_Cons:
  "run_net (e # es) N = Some N' \<longleftrightarrow> (\<exists>N1. net_step N e N1 \<and> run_net es N1 = Some N')"
  by (auto simp: bind_eq_Some_conv exec_net_step simp del: exec_net.simps)

lemma thread_events_Cons:
  "net_step N e N1 \<Longrightarrow> thread_events (e # es) N = thread_event e N # thread_events es N1"
  by (simp add: exec_net_step [symmetric] del: exec_net.simps)

lemma run_th_Cons: "th_step T e T1 \<Longrightarrow> run_th (e # es) T = run_th es T1"
  by (simp add: exec_th_step [symmetric] del: exec_th.simps)

lemma run_net_threads:
  "run_net es N = Some N' \<Longrightarrow> run_th (thread_events es N) (n_threads N) = Some (n_threads N')"
proof (induction es arbitrary: N)
  case (Cons e es)
  then obtain N1 where "net_step N e N1" "run_net es N1 = Some N'"
    by (auto simp only: run_net_Cons)
  then show ?case
    using Cons.IH run_th_Cons [OF net_step_threads] thread_events_Cons by metis
qed simp

lemma net_reachable_threads: "net_reachable N \<Longrightarrow> th_reachable (n_threads N)"
  by (induction rule: net_reachable.induct)
     (auto simp: net_start_def intro: th_reachable.intros dest: net_step_threads)

lemma run_net_reachable: "net_reachable N \<Longrightarrow> run_net es N = Some N' \<Longrightarrow> net_reachable N'"
proof (induction es arbitrary: N)
  case (Cons e es)
  then show ?case
    unfolding run_net_Cons by (blast intro: net_reachable.step)
qed simp

section \<open>Which session a step is about\<close>

definition net_tid :: "net_event \<Rightarrow> tid option" where
  "net_tid e = (case e of Net_accept client_fd created junk inp evs \<Rightarrow> None | Net_turn i junk \<Rightarrow> Some i | Net_run i \<Rightarrow> Some i)"

lemma thread_event_tid: "th_event_tid (thread_event e N) = net_tid e"
  by (cases e) (auto simp: th_event_tid_def net_tid_def split: prod.split)

lemma net_step_peers:
  assumes "net_step N e N'" "net_tid e = Some i"
  obtains P where "N' = after_step i (N\<lparr>n_peers := (n_peers N)(i := P)\<rparr>) (n_threads N')"
    "p_out P = p_out (n_peers N i)" "p_got P = p_got (n_peers N i)"
  using assms(1)
proof (cases rule: net_step.cases)
  case (run j T')
  then show ?thesis
    using that [of "n_peers N i"] assms(2) by (simp add: net_tid_def)
qed (use that assms(2) in \<open>auto simp: net_tid_def\<close>)

lemma net_step_other:
  assumes "net_step N e N'" "net_tid e \<noteq> Some i" "i \<noteq> next_tid (th_sys (n_threads N)) \<or> net_tid e \<noteq> None"
  shows "n_peers N' i = n_peers N i"
  using assms(1)
proof (cases rule: net_step.cases)
qed (use assms(2,3) in \<open>auto simp: net_tid_def after_step_def deliver_def Let_def split: prod.splits\<close>)

section \<open>What the peers get\<close>

text \<open>A session's wire only grows, and only by what its own thread writes.\<close>

lemma begin_undef_wire:
  assumes inv: "thread_inv i Ready w" and t: "world_typed Ready w" and m: "begin_turn i buf w = (Undef, w')"
  shows "wire w' = wire w"
proof (cases "admitted buf w")
  case (Some req)
  then have valid: "is_valid req" and run: "raising (start_request i req) w = (Undef, w')"
    using admittedD m by (auto simp: begin_turn_run)
  show ?thesis
  proof (cases "map_request (get_message_type req)")
    case True
    then show ?thesis
      using run valid_accessors(1,2) [OF valid, folded get_message_type_def]
      by (auto simp: map_request_def start_map_request [OF valid inv] split: list.splits if_splits)
  next
    case False
    have "world_fits w"
      using t srv_typed_fits by (simp add: world_typed_def world_fits_def)
    from dispatch_local_answered [OF this valid False, of i] show ?thesis
      using run by (cases "dispatch i req w"; cases "fst (dispatch i req w)")
        (auto simp: start_local_request [OF False] answered_def)
  qed
qed (use m in \<open>auto simp: begin_turn_run\<close>)

lemma step_wire:
  assumes inv: "th_inv T" and t: "typed T" and st: "th_step T e T'" and e: "th_event_tid e = Some i"
  shows "\<exists>x. wire (world_of i (th_sys T')) = wire (world_of i (th_sys T)) @ x"
  using st
proof (cases rule: th_step.cases)
  case (line h buf)
  then have h: "h = i"
    using e by (simp add: th_event_tid_def)
  have w: "thread_inv i Ready (world_of i (th_sys T))" "world_typed Ready (world_of i (th_sys T))"
    using th_invD(3) [OF inv, of i] line(2,3) h t by (auto simp: world_typed_def typed_def)
  obtain r w where b: "begin_turn i buf (world_of i (th_sys T)) = (r, w)"
    by (cases "begin_turn i buf (world_of i (th_sys T))")
  have "\<exists>x. wire w = wire (world_of i (th_sys T)) @ x"
  proof (cases r)
    case (Ok p)
    then show ?thesis
      using begin_opens [OF w b [unfolded Ok]] by (auto simp: opens_def)
  next
    case Undef
    then show ?thesis
      using begin_undef_wire [OF w b [unfolded Undef]] by simp
  qed (use begin_turn_fine [OF w(1), of buf] b in simp_all)
  then show ?thesis
    using line(4) b h by (cases r) (auto simp: put_thread_def)
next
  case (run h)
  then have h: "h = i"
    using e by (simp add: th_event_tid_def)
  have ti: "thread_inv i (th_pc T i) (world_of i (th_sys T))"
    using th_invD(3) [OF inv run(2)] h by simp
  obtain r w where m: "micro i (th_pc T i) (world_of i (th_sys T)) = (r, w)"
    by (cases "micro i (th_pc T i) (world_of i (th_sys T))")
  have "\<exists>x. wire w = wire (world_of i (th_sys T)) @ x"
  proof (cases r)
    case (Ok p)
    then show ?thesis
      using micro_pays [OF ti m [unfolded Ok]] by (auto simp: pays_def split: if_splits)
  qed (use micro_fine [OF ti] m in simp_all)
  then show ?thesis
    using run(3) m h by (cases r) (auto simp: put_thread_def)
qed (use e in \<open>auto simp: th_event_tid_def\<close>)

lemma step_written:
  assumes "th_inv T" "typed T" "th_step T e T'" "th_event_tid e = Some i"
  shows "wire (world_of i (th_sys T')) = wire (world_of i (th_sys T)) @ outgoing i T T'"
  using step_wire [OF assms] by (auto simp: outgoing_def)

lemma net_reachable_inv: "net_reachable N \<Longrightarrow> th_inv (n_threads N)" "net_reachable N \<Longrightarrow> typed (n_threads N)"
  using net_reachable_threads th_reachable_inv reachable_typed by blast+

text \<open>No \<^verbatim>\<open>write\<close> of the script fails, or takes nothing; being interrupted is no failure.\<close>

definition good_out :: "write_event list \<Rightarrow> bool" where
  "good_out evs \<longleftrightarrow> (\<forall>e \<in> set evs. e \<notin> {Write_fails False, Takes 0, Broken_pipe})"

lemma writen_loop_rest: "writen_loop bufp evs = (ok, sent, evs') \<Longrightarrow> set evs' \<subseteq> set evs"
proof (induction bufp evs arbitrary: ok sent evs' rule: writen_loop.induct)
  case (1 bufp evs)
  show ?case
  proof (cases "bufp = []")
    case False
    obtain nw eintr evs1 where wr: "sys_write (length bufp) evs = (nw, eintr, evs1)"
      by (cases "sys_write (length bufp) evs")
    then have "set evs1 \<subseteq> set evs"
      by (cases "(length bufp, evs)" rule: sys_write.cases) auto
    moreover obtain ok1 sent1 evs2 where "writen_loop (drop (nat nw) bufp) evs1 = (ok1, sent1, evs2)"
      by (cases "writen_loop (drop (nat nw) bufp) evs1")
    ultimately show ?thesis
      using 1 False wr by (fastforce simp: writen_loop.simps [of bufp evs] split: if_splits)
  qed (use 1 in \<open>simp add: writen_loop.simps\<close>)
qed

lemma rio_writen_good:
  assumes "good_out evs" "rio_writen s evs = (rc, sent, evs')"
  shows "sent = s" "good_out evs'"
proof -
  obtain ok where lp: "writen_loop s evs = (ok, sent, evs')"
    using assms(2) by (cases "writen_loop s evs") (simp add: rio_writen_def)
  moreover have ok
    using writen_loop_ok [of evs s] assms(1) lp by (simp add: good_out_def)
  ultimately show "sent = s"
    using writen_loop_prefix by blast
  show "good_out evs'"
    using writen_loop_rest [OF lp] assms(1) by (auto simp: good_out_def)
qed

lemma hits_pipe_iff: "hits_pipe s evs \<Longrightarrow> Broken_pipe \<in> set evs"
  by (auto simp: hits_pipe_def split: prod.splits dest: in_set_takeD)

text \<open>The bytes a peer has got are the session's wire with the rests of failed writes left out.\<close>

definition received :: "tid \<Rightarrow> network \<Rightarrow> bool" where
  "received i N \<longleftrightarrow> subseq (p_got (n_peers N i)) (wire (world_of i (th_sys (n_threads N))))"

definition all_received :: "tid \<Rightarrow> network \<Rightarrow> bool" where
  "all_received i N \<longleftrightarrow> good_out (p_out (n_peers N i))
     \<and> p_got (n_peers N i) = wire (world_of i (th_sys (n_threads N)))"

lemma deliver_peer:
  assumes "rio_writen bytes (p_out (n_peers N i)) = (rc, sent, evs')"
  shows "p_out (n_peers (deliver i bytes N) i) = evs'"
    "p_got (n_peers (deliver i bytes N) i) = p_got (n_peers N i) @ sent"
  using assms by (simp_all add: deliver_def Let_def)

lemma own_net_step:
  assumes "net_reachable N" "net_step N e N'" "net_tid e = Some i"
  obtains rc sent where "rio_writen (outgoing i (n_threads N) (n_threads N')) (p_out (n_peers N i)) =
      (rc, sent, p_out (n_peers N' i))" "p_got (n_peers N' i) = p_got (n_peers N i) @ sent"
    "wire (world_of i (th_sys (n_threads N'))) = wire (world_of i (th_sys (n_threads N)))
      @ outgoing i (n_threads N) (n_threads N')"
proof -
  let ?out = "outgoing i (n_threads N) (n_threads N')"
  obtain P where P: "N' = after_step i (N\<lparr>n_peers := (n_peers N)(i := P)\<rparr>) (n_threads N')"
    "p_out P = p_out (n_peers N i)" "p_got P = p_got (n_peers N i)"
    using net_step_peers [OF assms(2,3)] by blast
  let ?N = "N\<lparr>n_peers := (n_peers N)(i := P), n_threads := n_threads N'\<rparr>"
  have N': "N' = deliver i ?out ?N"
    by (subst P(1)) (simp add: after_step_def)
  obtain rc sent evs' where w: "rio_writen ?out (p_out (n_peers N i)) = (rc, sent, evs')"
    by (cases "rio_writen ?out (p_out (n_peers N i))")
  have "p_out (n_peers N' i) = evs'" "p_got (n_peers N' i) = p_got (n_peers N i) @ sent"
    using deliver_peer [of ?out ?N i rc sent evs'] w P(2,3) by (simp_all add: N' [symmetric])
  moreover have "wire (world_of i (th_sys (n_threads N'))) = wire (world_of i (th_sys (n_threads N))) @ ?out"
    using step_written net_reachable_inv [OF assms(1)] net_step_threads [OF assms(2)] thread_event_tid assms(3) by metis
  ultimately show ?thesis
    using that w by blast
qed

text \<open>A step of another thread, or an accepted connection, changes neither side of a session.\<close>

lemma other_step:
  assumes "net_reachable N" "net_step N e N'" "net_tid e \<noteq> Some i"
    and "net_tid e = None \<Longrightarrow> i \<noteq> next_tid (th_sys (n_threads N))"
  shows "n_peers N' i = n_peers N i" "wire (world_of i (th_sys (n_threads N'))) = wire (world_of i (th_sys (n_threads N)))"
proof -
  show "n_peers N' i = n_peers N i"
    using net_step_other [OF assms(2,3)] assms(4) by blast
  have "sessions (th_sys (n_threads N')) i = sessions (th_sys (n_threads N)) i"
  proof (cases "net_tid e")
    case None
    then obtain fd created junk inp evs where "e = Net_accept fd created junk inp evs"
      by (cases e) (auto simp: net_tid_def)
    then show ?thesis
      using net_step_threads [OF assms(2)] assms(4) None by (auto simp: th_accept_iff accept_eq log_error_def)
  next
    case (Some j)
    then show ?thesis
      using th_step_frame [OF net_reachable_inv(1) [OF assms(1)] net_step_threads [OF assms(2)]]
        thread_event_tid [of e N] assms(3) by auto
  qed
  then show "wire (world_of i (th_sys (n_threads N'))) = wire (world_of i (th_sys (n_threads N)))"
    by (rule wire_of_session)
qed

lemma accept_step:
  assumes "net_reachable N" "net_step N (Net_accept fd created junk inp evs) N'" "i = next_tid (th_sys (n_threads N))"
  shows "n_peers N' i = peer_new fd junk inp evs" "wire (world_of i (th_sys (n_threads N'))) = []"
    "th_pc (n_threads N') i = Ready"
proof -
  have "sessions (th_sys (n_threads N)) i = None"
    using th_invD(2) [OF net_reachable_inv(1) [OF assms(1)], of i] assms(3) by blast
  then show "n_peers N' i = peer_new fd junk inp evs" "wire (world_of i (th_sys (n_threads N'))) = []"
      "th_pc (n_threads N') i = Ready"
    using assms(2,3) by (auto simp: net_accept_iff th_accept_iff accept_eq world_of_def world_new_def log_error_def)
qed

lemma received_step:
  assumes "net_reachable N" "net_step N e N'" "received i N"
  shows "received i N'"
proof (cases "net_tid e = Some i")
  case True
  obtain rc sent where w: "rio_writen (outgoing i (n_threads N) (n_threads N')) (p_out (n_peers N i)) =
      (rc, sent, p_out (n_peers N' i))" "p_got (n_peers N' i) = p_got (n_peers N i) @ sent"
    "wire (world_of i (th_sys (n_threads N'))) = wire (world_of i (th_sys (n_threads N)))
      @ outgoing i (n_threads N) (n_threads N')"
    using own_net_step [OF assms(1,2) True] .
  obtain ok where "writen_loop (outgoing i (n_threads N) (n_threads N')) (p_out (n_peers N i)) =
      (ok, sent, p_out (n_peers N' i))"
    using w(1) by (cases "writen_loop (outgoing i (n_threads N) (n_threads N')) (p_out (n_peers N i))")
      (simp add: rio_writen_def)
  then obtain rest where rest: "outgoing i (n_threads N) (n_threads N') = sent @ rest"
    using writen_loop_prefix by blast
  have "subseq (p_got (n_peers N i) @ sent @ []) (wire (world_of i (th_sys (n_threads N))) @ sent @ rest)"
    using assms(3) unfolding received_def by (intro list_emb_append_mono) auto
  then show ?thesis
    by (simp add: received_def w(2,3) rest)
next
  case False
  show ?thesis
  proof (cases "net_tid e = None \<and> i = next_tid (th_sys (n_threads N))")
    case True
    then obtain fd created junk inp evs where "e = Net_accept fd created junk inp evs"
      by (cases e) (auto simp: net_tid_def)
    then show ?thesis
      using accept_step [OF assms(1)] assms(2) True by (simp add: received_def peer_new_def)
  next
    case other: False
    show ?thesis
      using other_step [OF assms(1,2) False] other assms(3) by (auto simp: received_def)
  qed
qed

lemma net_received: "net_reachable N \<Longrightarrow> received i N"
proof (induction rule: net_reachable.induct)
  case (start argc fd)
  then show ?case
    by (simp add: received_def net_start_def peer_new_def)
qed (rule received_step)

section \<open>The lines of a session\<close>

text \<open>\<open>known i N\<close>: the session exists, so that no connection that is accepted later is confused with it.\<close>

definition known :: "tid \<Rightarrow> network \<Rightarrow> bool" where
  "known i N \<longleftrightarrow> i < next_tid (th_sys (n_threads N))"

lemma next_tid_step: "th_step T e T' \<Longrightarrow> next_tid (th_sys T) \<le> next_tid (th_sys T')"
  by (cases rule: th_step.cases, assumption)
     (auto simp: put_thread_def accept_eq log_error_def split: prod.splits res.splits)

lemma known_step: "net_step N e N' \<Longrightarrow> known i N \<Longrightarrow> known i N'"
  using next_tid_step [OF net_step_threads] by (fastforce simp: known_def)

lemma all_received_step:
  assumes "net_reachable N" "net_step N e N'" "known i N" "all_received i N"
  shows "all_received i N'"
proof (cases "net_tid e = Some i")
  case True
  obtain rc sent where w: "rio_writen (outgoing i (n_threads N) (n_threads N')) (p_out (n_peers N i)) =
      (rc, sent, p_out (n_peers N' i))" "p_got (n_peers N' i) = p_got (n_peers N i) @ sent"
    "wire (world_of i (th_sys (n_threads N'))) = wire (world_of i (th_sys (n_threads N)))
      @ outgoing i (n_threads N) (n_threads N')"
    using own_net_step [OF assms(1,2) True] .
  have "good_out (p_out (n_peers N i))" "p_got (n_peers N i) = wire (world_of i (th_sys (n_threads N)))"
    using assms(4) by (simp_all add: all_received_def)
  with rio_writen_good [OF this(1) w(1)] show ?thesis
    by (simp add: all_received_def w(2,3))
next
  case False
  show ?thesis
    using other_step [OF assms(1,2) False] assms(3,4) by (auto simp: all_received_def known_def)
qed

text \<open>The lines handed to the session's turns, as \<^verbatim>\<open>decode\<close> sees them.\<close>

fun handed :: "tid \<Rightarrow> th_event list \<Rightarrow> string list" where
  "handed i [] = []"
| "handed i (Th_line j buf # es) = (if j = i then c_str buf # handed i es else handed i es)"
| "handed i (e # es) = handed i es"

lemma length_handed: "length (handed i es) = requests i es"
  by (induction i es rule: handed.induct) (auto simp: requests_def line_of_def)

definition feeds :: "string list \<Rightarrow> peer \<Rightarrow> bool" where
  "feeds ss p \<longleftrightarrow> plain (p_in p) \<and> rio_wf (m_fdbuf p) \<and> stream (m_fdbuf p) (p_in p) = concat ss"

definition lines_fit :: "string list \<Rightarrow> bool" where
  "lines_fit ss \<longleftrightarrow> (\<forall>s \<in> set ss. one_line s \<and> length s < MAX_ENCODED_LEN)"

text \<open>One call of \<^verbatim>\<open>rio_readlineb\<close> takes the first line, or finds the end.\<close>

lemma feeds_read:
  assumes f: "feeds ss p" "lines_fit ss"
    and r: "rio_readlineb (m_fdbuf p) junk MAX_ENCODED_LEN (p_in p) = (n, buf, rio, inp)"
  shows "(case ss of [] \<Rightarrow> n \<le> 0 | s # ss' \<Rightarrow> 0 < n \<and> c_str buf = s)
    \<and> feeds (tl ss) (p\<lparr>m_fdbuf := rio, p_in := inp\<rparr>)"
proof -
  have wf: "plain (p_in p)" "rio_wf (m_fdbuf p)" "stream (m_fdbuf p) (p_in p) = concat ss"
    using f(1) by (simp_all add: feeds_def)
  have plain: "plain inp"
    using readlineb_plain [OF wf(1,2)] r by (simp add: rio_readlineb_def)
  show ?thesis
  proof (cases ss)
    case Nil
    then show ?thesis
      using readlineb_at_end [OF wf(1,2), of MAX_ENCODED_LEN junk] wf(3) r
      by (auto simp: MAX_ENCODED_LEN_def feeds_def)
  next
    case (Cons s ss')
    then have s: "one_line s" "length s < MAX_ENCODED_LEN"
      using f(2) by (simp_all add: lines_fit_def)
    have "0 < length s"
      using s(1) by (auto simp: one_line_def)
    moreover have "n = int (length s) \<and> c_str buf = s \<and> rio_wf rio \<and> stream rio inp = concat ss'"
      using readlineb_line [OF wf(2) s, of "p_in p" "concat ss'" junk] wf(3) r Cons by auto
    ultimately show ?thesis
      using plain Cons by (auto simp: feeds_def)
  qed
qed

lemma deliver_in:
  "m_fdbuf (n_peers (deliver i b N) j) = m_fdbuf (n_peers N j)" "p_in (n_peers (deliver i b N) j) = p_in (n_peers N j)"
  by (simp_all add: deliver_def Let_def split: prod.split)

lemma feeds_step:
  assumes re: "net_reachable N" and st: "net_step N e N'" and k: "known i N"
    and f: "feeds ss (n_peers N i)" "lines_fit ss"
  shows "\<exists>m. handed i [thread_event e N] = take m ss \<and> feeds (drop m ss) (n_peers N' i)"
proof (cases "net_tid e = Some i")
  case False
  have "handed i [thread_event e N] = []"
    using False thread_event_tid [of e N] by (cases "thread_event e N") (auto simp: th_event_tid_def)
  moreover have "n_peers N' i = n_peers N i"
    using other_step(1) [OF re st False] k by (auto simp: known_def)
  ultimately show ?thesis
    using f(1) by (intro exI [of _ 0]) simp
next
  case True
  from st show ?thesis
  proof (cases rule: net_step.cases)
    case (turn j junk n buf rio inp T')
    then have j: "j = i"
      using True by (simp add: net_tid_def)
    note R = feeds_read [OF f turn(4) [unfolded j]]
    obtain s ss' where ss: "ss = s # ss'"
      using R turn(5) by (cases ss) auto
    have "feeds ss' (n_peers N' i)"
      using R ss turn(2) j by (simp add: after_step_def feeds_def deliver_in)
    moreover have "handed i [thread_event e N] = [s]"
      using R ss turn(1,4,5) j by simp
    ultimately show ?thesis
      using ss by (intro exI [of _ 1]) simp
  next
    case (finish j junk n buf rio inp T')
    then have j: "j = i"
      using True by (simp add: net_tid_def)
    note R = feeds_read [OF f finish(4) [unfolded j]]
    have ss: "ss = []"
      using R finish(5) by (cases ss) auto
    have "feeds [] (n_peers N' i)"
      using R ss finish(2) j by (simp add: after_step_def feeds_def deliver_in)
    moreover have "handed i [thread_event e N] = []"
      using finish(1,4,5) by simp
    ultimately show ?thesis
      using ss by simp
  next
    case (run j T')
    then have "n_peers N' i = (n_peers N' i)" "handed i [thread_event e N] = []" "feeds ss (n_peers N' i)"
      using f(1) by (simp_all add: after_step_def feeds_def deliver_in)
    then show ?thesis
      by (intro exI [of _ 0]) simp
  qed (use True in \<open>simp add: net_tid_def\<close>)
qed

lemma handed_Cons: "handed i (e # es) = handed i [e] @ handed i es"
  by (cases e) auto

lemma feeds_run:
  "net_reachable N \<Longrightarrow> run_net es N = Some N' \<Longrightarrow> known i N \<Longrightarrow> feeds ss (n_peers N i) \<Longrightarrow> lines_fit ss \<Longrightarrow>
    \<exists>m. handed i (thread_events es N) = take m ss \<and> feeds (drop m ss) (n_peers N' i)"
proof (induction es arbitrary: N ss)
  case Nil
  then show ?case by (intro exI [of _ 0]) simp
next
  case (Cons e es)
  then obtain N1 where N1: "net_step N e N1" "run_net es N1 = Some N'"
    by (auto simp only: run_net_Cons)
  obtain m where m: "handed i [thread_event e N] = take m ss" "feeds (drop m ss) (n_peers N1 i)"
    using feeds_step [OF Cons.prems(1) N1(1) Cons.prems(3-5)] by blast
  have fit: "lines_fit (drop m ss)"
    using Cons.prems(5) by (auto simp: lines_fit_def dest: in_set_dropD)
  obtain m' where m': "handed i (thread_events es N1) = take m' (drop m ss)" "feeds (drop m' (drop m ss)) (n_peers N' i)"
    using Cons.IH [OF net_reachable.step [OF Cons.prems(1) N1(1)] N1(2) known_step [OF N1(1) Cons.prems(3)] m(2) fit]
    by blast
  have "handed i (thread_events (e # es) N) = handed i [thread_event e N] @ handed i (thread_events es N1)"
    unfolding thread_events_Cons [OF N1(1)] by (rule handed_Cons)
  then have "handed i (thread_events (e # es) N) = take (m + m') ss"
    by (simp only: m(1) m'(1) take_add)
  moreover have "feeds (drop (m + m') ss) (n_peers N' i)"
    using m'(2) by (simp add: add.commute)
  ultimately show ?case by blast
qed

lemma all_received_run:
  "net_reachable N \<Longrightarrow> run_net es N = Some N' \<Longrightarrow> known i N \<Longrightarrow> all_received i N \<Longrightarrow> all_received i N'"
proof (induction es arbitrary: N)
  case (Cons e es)
  then obtain N1 where N1: "net_step N e N1" "run_net es N1 = Some N'"
    by (auto simp only: run_net_Cons)
  then show ?case
    using Cons.IH [OF net_reachable.step [OF Cons.prems(1) N1(1)] N1(2) known_step [OF N1(1) Cons.prems(3)]
        all_received_step [OF Cons.prems(1) N1(1) Cons.prems(3,4)]] by blast
qed simp

section \<open>A session from its first byte\<close>

lemma reachable_quiet: "net_reachable N \<Longrightarrow> quiet (n_threads N)"
  by (induction rule: net_reachable.induct)
     (auto simp: net_start_def start_quiet dest: net_step_threads quiet_step)

lemma feeds_new: "plain inp \<Longrightarrow> incoming inp = concat ss \<Longrightarrow> feeds ss (peer_new fd junk inp evs)"
  by (simp add: feeds_def peer_new_def stream_def)

text \<open>
  A connection that is accepted, and whatever the server then does: the requests of its session are
  the lines it sends, in their order, and it gets the responses to them.
\<close>

lemma session_served:
  assumes re: "net_reachable N" and new: "i = next_tid (th_sys (n_threads N))" "0 \<le> fd"
    and run: "run_net (Net_accept fd created junk inp evs # es) N = Some N'"
    and inp: "plain inp" "incoming inp = concat ss" "lines_fit ss" and out: "good_out evs"
    and ok: "status (th_sys (n_threads N')) \<noteq> Undefined_behaviour"
  shows "\<exists>k rs. handed i (thread_events (Net_accept fd created junk inp evs # es) N) = take k ss
    \<and> p_got (n_peers N' i) = concat rs \<and> (\<forall>r \<in> set rs. reply r)
    \<and> length rs + owed (th_pc (n_threads N') i) = length (take k ss)"
proof -
  obtain N1 where N1: "net_step N (Net_accept fd created junk inp evs) N1" "run_net es N1 = Some N'"
    using run unfolding run_net_Cons by blast
  note re1 = net_reachable.step [OF re N1(1)]
  note A = accept_step [OF re N1(1) new(1)]
  have known: "known i N1"
    using N1(1) new by (auto simp: known_def net_accept_iff th_accept_iff accept_eq log_error_def)
  have "feeds ss (n_peers N1 i)"
    unfolding A(1) by (rule feeds_new [OF inp(1,2)])
  then obtain k where k: "handed i (thread_events es N1) = take k ss"
    using feeds_run [OF re1 N1(2) known _ inp(3)] by blast
  have "all_received i N1"
    using out by (simp add: all_received_def A(1,2) peer_new_def)
  then have got: "p_got (n_peers N' i) = wire (world_of i (th_sys (n_threads N')))"
    using all_received_run [OF re1 N1(2) known] by (simp add: all_received_def)
  have "ledger i 0 (n_threads N1)"
    using A(2,3) by (auto simp: ledger_def)
  then have "ledger i (requests i (thread_events es N1)) (n_threads N')"
    using ledger_run [OF net_reachable_inv [OF re1] reachable_quiet [OF re1] run_net_threads [OF N1(2)] ok] by fastforce
  moreover have "handed i (thread_events (Net_accept fd created junk inp evs # es) N) = handed i (thread_events es N1)"
    by (simp only: thread_events_Cons [OF N1(1)] thread_event.simps handed.simps)
  ultimately show ?thesis
    using got k length_handed [of i "thread_events es N1"] unfolding ledger_def by metis
qed

section \<open>A peer that is gone\<close>

lemma stopped_by_signal: "n_sigpipe N \<Longrightarrow> exec_net e N = None"
  by (cases e) auto

lemma ok_line_pipe: "hits_pipe ok_line (Broken_pipe # evs)" "rio_writen ok_line (Broken_pipe # evs) = (-1, [], evs)"
  by (simp_all add: hits_pipe_def rio_writen_def writen_loop.simps ok_line_def)

text \<open>A response for a peer that is gone: the signal ends the process, with every other session.\<close>

lemma gone_peer:
  assumes "\<not> n_sigpipe N" "runnable i (n_threads N)" "th_pc (n_threads N) i = Reply"
    and "p_out (n_peers N i) = Broken_pipe # evs"
  shows "\<exists>N'. net_step N (Net_run i) N' \<and> n_sigpipe N' \<and> (\<forall>e. exec_net e N' = None)"
proof -
  let ?T = "n_threads N" and ?w = "world_of i (th_sys (n_threads N))"
  let ?T' = "?T\<lparr>th_sys := put_world i (say ok_line ?w) (th_sys ?T), th_pc := (th_pc ?T)(i := Ready)\<rparr>"
  have "put_thread i (micro i Reply ?w) ?T = Some ?T'"
    by (simp add: local_steps_run put_thread_def del: micro.simps)
  then have "net_step N (Net_run i) (after_step i N ?T')"
    using assms(1,2,3) by (intro net_step.run) (simp_all add: th_run_iff del: micro.simps)
  moreover have "outgoing i ?T ?T' = ok_line"
    by (simp add: outgoing_def)
  then have "n_sigpipe (after_step i N ?T')"
    using assms(4) ok_line_pipe [of evs] by (simp add: after_step_def deliver_def)
  ultimately show ?thesis
    using stopped_by_signal by blast
qed

text \<open>And that is the only way to it.\<close>

lemma signal_from_gone_peer:
  assumes "net_step N e N'" "n_sigpipe N'"
  shows "\<exists>i. net_tid e = Some i \<and> Broken_pipe \<in> set (p_out (n_peers N i)) \<and> outgoing i (n_threads N) (n_threads N') \<noteq> []"
proof (cases "net_tid e")
  case None
  then obtain fd created junk inp evs where "e = Net_accept fd created junk inp evs"
    by (cases e) (auto simp: net_tid_def)
  then show ?thesis
    using assms by (auto simp: net_accept_iff)
next
  case (Some i)
  obtain P where P: "N' = after_step i (N\<lparr>n_peers := (n_peers N)(i := P)\<rparr>) (n_threads N')"
    "p_out P = p_out (n_peers N i)"
    using net_step_peers [OF assms(1) Some] by blast
  have "n_sigpipe (after_step i (N\<lparr>n_peers := (n_peers N)(i := P)\<rparr>) T') =
      hits_pipe (outgoing i (n_threads N) T') (p_out P)" for T'
    by (simp add: after_step_def deliver_def Let_def split: prod.split)
  then have hits: "hits_pipe (outgoing i (n_threads N) (n_threads N')) (p_out (n_peers N i))"
    using assms(2) P by metis
  moreover have "\<not> hits_pipe [] evs" for evs
    by (simp add: hits_pipe_def rio_writen_def writen_loop.simps)
  ultimately show ?thesis
    using Some hits_pipe_iff [OF hits] by auto
qed

lemma hits_pipe_first: "bytes \<noteq> [] \<Longrightarrow> hits_pipe bytes (Broken_pipe # evs)"
  by (simp add: hits_pipe_def rio_writen_def writen_loop.simps)

text \<open>Whatever response it is that meets the peer that is gone.\<close>

lemma gone_peer_signal:
  assumes "net_step N e N'" "net_tid e = Some i" "outgoing i (n_threads N) (n_threads N') \<noteq> []"
    and "p_out (n_peers N i) = Broken_pipe # evs"
  shows "n_sigpipe N'"
proof -
  obtain P where P: "N' = after_step i (N\<lparr>n_peers := (n_peers N)(i := P)\<rparr>) (n_threads N')"
    "p_out P = p_out (n_peers N i)"
    using net_step_peers [OF assms(1,2)] by blast
  have "n_sigpipe (after_step i (N\<lparr>n_peers := (n_peers N)(i := P)\<rparr>) T') =
      hits_pipe (outgoing i (n_threads N) T') (p_out P)" for T'
    by (simp add: after_step_def deliver_def Let_def split: prod.split)
  then show ?thesis
    using P assms(4) hits_pipe_first [OF assms(3)] by metis
qed

end
