(* ===== verification/Descriptors.thy ===== *)
theory Descriptors
  imports NetFacts
begin

text \<open>
  The descriptors of the sessions: no step changes a session's, \<^verbatim>\<open>accept\<close> returns one that is free, and
  so no two live sessions ever share one, and no response can reach another client.
\<close>

section \<open>Programs that keep a part of the state\<close>

definition keeps :: "('s \<Rightarrow> 'x) \<Rightarrow> ('s, 'a) prog \<Rightarrow> bool" where
  "keeps g m \<longleftrightarrow> (\<forall>w. g (snd (m w)) = g w)"

named_theorems keeps_intros "how programs that keep a part of the state are put together"

lemma keeps_basic [keeps_intros]:
  "keeps g (ret a)" "keeps g (throw e)" "keeps g block" "keeps g undef" "keeps g (gets f)"
  "keeps g (of_sum x)" "keeps g (of_option y)"
  by (cases x; cases y; simp add: keeps_def ret_def throw_def block_def undef_def gets_def)+

lemma keeps_bind [keeps_intros]: "keeps g m \<Longrightarrow> (\<And>a. keeps g (f a)) \<Longrightarrow> keeps g (bind m f)"
  unfolding keeps_def
proof
  fix w
  assume "\<forall>w. g (snd (m w)) = g w" "\<And>a. \<forall>w. g (snd (f a w)) = g w"
  then show "g (snd (bind m f w)) = g w"
    by (cases "m w"; cases "fst (m w)") (auto simp: bind_def dest: spec [of _ w])
qed

lemma keeps_seq [keeps_intros]: "keeps g m \<Longrightarrow> keeps g k \<Longrightarrow> keeps g (seq m k)"
  by (simp add: seq_def keeps_bind)

lemma keeps_if [keeps_intros]: "keeps g m \<Longrightarrow> keeps g k \<Longrightarrow> keeps g (if b then m else k)"
  by simp

lemma keeps_modify: "(\<And>w. g (f w) = g w) \<Longrightarrow> keeps g (modify f)"
  by (simp add: keeps_def modify_def)

lemma keeps_wrapped [keeps_intros]: "keeps g m \<Longrightarrow> keeps g (raising m)" "keeps g m \<Longrightarrow> keeps g (guarded a m)"
  by (auto simp: keeps_def raising_def guarded_def split: prod.split res.split) (metis snd_conv)+

lemma keeps_for_each [keeps_intros]: "(\<And>x. keeps g (f x)) \<Longrightarrow> keeps g (for_each f xs)"
  by (induction xs) (simp_all add: keeps_intros)

section \<open>The descriptor\<close>

abbreviation fd_of :: "world \<Rightarrow> int" where
  "fd_of w \<equiv> m_client_fd (conn w)"

lemma keeps_srv [keeps_intros]: "keeps fd_of (on_srv m)"
  by (simp add: keeps_def on_srv_def split: prod.split)

lemma keeps_conn: "(\<And>c. m_client_fd (f c) = m_client_fd c) \<Longrightarrow> keeps fd_of (on_conn f)"
  by (simp add: on_conn_def keeps_modify)

lemma keeps_stack [keeps_intros]: "keeps fd_of (stack_push v)" "keeps fd_of stack_top" "keeps fd_of stack_pop"
  by (auto simp: stack_push_def stack_top_def stack_pop_def intro!: keeps_intros keeps_conn)

lemma keeps_send [keeps_intros]: "keeps fd_of (send_message msg)" "keeps fd_of send_ok"
  by (auto simp: send_message_def send_ok_def intro!: keeps_intros keeps_modify)

lemma keeps_txn [keeps_intros]: "keeps fd_of (txn_acquire i n a)" "keeps fd_of end_transaction"
  by (auto simp: txn_acquire_def end_transaction_def intro!: keeps_intros keeps_conn)

lemma keeps_use [keeps_intros]: "keeps fd_of (use_table i a acc)"
  by (cases acc) (auto intro!: keeps_intros)

lemma keeps_guard [keeps_intros]:
  assumes "keeps fd_of body"
  shows "keeps fd_of (table_guard i a body)"
proof -
  have lock: "keeps fd_of (lock_at (\<lambda>w. table_mutex (table_at a (srv w)))
      (\<lambda>m w. w\<lparr>srv := put_table a ((table_at a (srv w))\<lparr>table_mutex := m\<rparr>) (srv w)\<rparr>) i)"
    and unlock: "keeps fd_of (unlock_at (\<lambda>w. table_mutex (table_at a (srv w)))
      (\<lambda>m w. w\<lparr>srv := put_table a ((table_at a (srv w))\<lparr>table_mutex := m\<rparr>) (srv w)\<rparr>) i)"
    by (auto simp: keeps_def lock_at_def unlock_at_def split: res.split)
  have "keeps fd_of (finally_do m d)" if "keeps fd_of m" "keeps fd_of d" for m :: "(world, 'a) prog" and d
    unfolding keeps_def
  proof
    fix w
    have "fd_of (snd (seq d k (snd (m w)))) = fd_of w" if "keeps fd_of k" for k :: "(world, 'a) prog"
      using keeps_seq [OF \<open>keeps fd_of d\<close> that] \<open>keeps fd_of m\<close> by (simp add: keeps_def)
    from this [OF keeps_basic(1)] this [OF keeps_basic(2)] show "fd_of (snd (finally_do m d w)) = fd_of w"
      using \<open>keeps fd_of m\<close> by (cases "m w"; cases "fst (m w)") (auto simp: finally_do_def keeps_def dest: spec [of _ w])
  qed
  then show ?thesis
    unfolding table_guard_def guard_def using lock unlock assms by (intro keeps_seq)
qed

lemma keeps_binary [keeps_intros]: "(\<And>a b. keeps fd_of (f a b)) \<Longrightarrow> keeps fd_of (binary_operation t f)"
  by (auto simp: binary_operation_def parse_operand_def intro!: keeps_intros split: sum.split stoi_error.split)

lemma keeps_handlers [keeps_intros]:
  "keeps fd_of (handle_login msg)" "keeps fd_of (handle_bye msg)" "keeps fd_of (handle_create i msg)"
  "keeps fd_of (handle_get i msg)" "keeps fd_of (handle_set i msg)" "keeps fd_of (handle_push msg)"
  "keeps fd_of (handle_pop msg)" "keeps fd_of (handle_top msg)" "keeps fd_of handle_add" "keeps fd_of handle_sub"
  "keeps fd_of handle_mul" "keeps fd_of handle_div" "keeps fd_of handle_begin" "keeps fd_of (handle_commit i)"
  unfolding handle_login_def handle_bye_def handle_create_def handle_get_def handle_set_def handle_push_def
    handle_pop_def handle_top_def handle_add_def handle_sub_def handle_mul_def handle_div_def handle_begin_def
    handle_commit_def commit_all_tables_def
  by (auto intro!: keeps_intros keeps_conn)

lemma keeps_dispatch [keeps_intros]: "keeps fd_of (dispatch i req)"
  by (auto simp: dispatch_def intro!: keeps_intros split: message_type.split)

lemma keeps_begin: "keeps fd_of (begin_turn i buf)"
  by (auto simp: begin_turn_def start_request_def intro!: keeps_intros split: message_type.split)

lemma keeps_micro: "keeps fd_of (micro i p)"
  by (induction i p rule: micro.induct)
     (auto intro!: keeps_intros keeps_modify split: map_op.split option.split)

section \<open>Live sessions\<close>

definition fds_distinct :: "system \<Rightarrow> bool" where
  "fds_distinct \<sigma> \<longleftrightarrow> (\<forall>i j. live i \<sigma> \<and> live j \<sigma> \<and> fd_of (world_of i \<sigma>) = fd_of (world_of j \<sigma>) \<longrightarrow> i = j)"

lemma live_session: "sessions \<sigma> i = sessions \<sigma>' i \<Longrightarrow> live i \<sigma> = live i \<sigma>' \<and> fd_of (world_of i \<sigma>) = fd_of (world_of i \<sigma>')"
  by (simp add: live_def world_of_def world_new_def split: option.split)

text \<open>A step of a thread: its descriptor stays, and no session comes to life.\<close>

lemma fd_own_step:
  assumes "th_step T e T'" "th_event_tid e = Some i"
  shows "live i (th_sys T) \<and> fd_of (world_of i (th_sys T')) = fd_of (world_of i (th_sys T))"
  using assms(1)
proof (cases rule: th_step.cases)
  case (line h buf)
  have "fd_of (snd (begin_turn h buf (world_of h (th_sys T)))) = fd_of (world_of h (th_sys T))"
    using keeps_begin by (simp add: keeps_def)
  then show ?thesis
    using line assms(2)
    by (cases "begin_turn h buf (world_of h (th_sys T))"; cases "fst (begin_turn h buf (world_of h (th_sys T)))")
       (auto simp: put_thread_def th_event_tid_def runnable_def)
next
  case (run h)
  have "fd_of (snd (micro h (th_pc T h) (world_of h (th_sys T)))) = fd_of (world_of h (th_sys T))"
    using keeps_micro by (simp add: keeps_def)
  then show ?thesis
    using run assms(2)
    by (cases "micro h (th_pc T h) (world_of h (th_sys T))"; cases "fst (micro h (th_pc T h) (world_of h (th_sys T)))")
       (auto simp: put_thread_def th_event_tid_def runnable_def simp del: micro.simps)
qed (use assms(2) in \<open>auto simp: th_event_tid_def runnable_def\<close>)

lemma fds_distinct_step:
  assumes re: "net_reachable N" and st: "net_step N e N'" and d: "fds_distinct (th_sys (n_threads N))"
  shows "fds_distinct (th_sys (n_threads N'))"
proof -
  let ?\<sigma> = "th_sys (n_threads N)" and ?\<sigma>' = "th_sys (n_threads N')"
  note inv = net_reachable_inv(1) [OF re] and ts = net_step_threads [OF st]
  show ?thesis
  proof (cases "net_tid e")
    case None
    then obtain fd created junk inp evs where e: "e = Net_accept fd created junk inp evs"
      by (cases e) (auto simp: net_tid_def)
    let ?n = "next_tid ?\<sigma>"
    have free: "\<not> in_use fd ?\<sigma>" and acc: "?\<sigma>' = accept_connection fd created ?\<sigma>"
      using st e by (auto simp: net_accept_iff th_accept_iff)
    have old: "live j ?\<sigma> \<and> fd_of (world_of j ?\<sigma>) = fd_of (world_of j ?\<sigma>')" if "live j ?\<sigma>'" "j \<noteq> ?n" for j
    proof -
      have "sessions ?\<sigma>' j = sessions ?\<sigma> j"
        using acc that(2) by (auto simp: accept_eq log_error_def)
      then show ?thesis
        using live_session [of ?\<sigma>' j ?\<sigma>] that(1) by simp
    qed
    have new: "fd_of (world_of ?n ?\<sigma>') = fd" if "live ?n ?\<sigma>'"
    proof -
      have "\<not> live ?n ?\<sigma>"
        using th_invD(2) [OF inv, of ?n] by (auto simp: live_Some)
      then show ?thesis
        using that acc by (auto simp: accept_eq world_new_def connection_new_def log_error_def split: if_splits)
    qed
    have unused: "fd_of (world_of j ?\<sigma>) \<noteq> fd" if "live j ?\<sigma>" for j
    proof -
      have "j < ?n"
        using th_invD(2) [OF inv, of j] that by (auto simp: live_Some)
      then show ?thesis
        using free that by (auto simp: in_use_def list_ex_iff)
    qed
    show ?thesis
      unfolding fds_distinct_def
    proof (intro allI impI)
      fix i j
      assume "live i ?\<sigma>' \<and> live j ?\<sigma>' \<and> fd_of (world_of i ?\<sigma>') = fd_of (world_of j ?\<sigma>')"
      then show "i = j"
        using old new unused d unfolding fds_distinct_def by metis
    qed
  next
    case (Some i)
    have own: "live i ?\<sigma>" "fd_of (world_of i ?\<sigma>') = fd_of (world_of i ?\<sigma>)"
      using fd_own_step [OF ts] thread_event_tid [of e N] Some by auto
    have other: "live j ?\<sigma>' = live j ?\<sigma>" "fd_of (world_of j ?\<sigma>') = fd_of (world_of j ?\<sigma>)" if "j \<noteq> i" for j
      using th_step_frame [OF inv ts, of i] thread_event_tid [of e N] Some that live_session [of ?\<sigma>' j ?\<sigma>] by auto
    show ?thesis
      unfolding fds_distinct_def
    proof (intro allI impI)
      fix h j
      assume "live h ?\<sigma>' \<and> live j ?\<sigma>' \<and> fd_of (world_of h ?\<sigma>') = fd_of (world_of j ?\<sigma>')"
      then show "h = j"
        using own other d unfolding fds_distinct_def by metis
    qed
  qed
qed

lemma net_reachable_fds: "net_reachable N \<Longrightarrow> fds_distinct (th_sys (n_threads N))"
proof (induction rule: net_reachable.induct)
  case (start argc fd)
  have "\<not> live i (server_main argc fd)" for i
    by (auto simp: server_main_def system_start_def log_error_def live_def split: prod.splits res.splits)
  then show ?case
    by (simp add: fds_distinct_def net_start_def th_start_def)
qed (rule fds_distinct_step)

end
