(* ===== verification/NetDemo.thy ===== *)
theory NetDemo
  imports Descriptors "HOL-Library.Code_Target_Nat"
begin

text \<open>
  Two clients on their sockets, evaluated in the kernel: the first sends its requests in pieces that
  do not end where its lines end, the second is gone before its first response.
\<close>

definition junk_rio :: rio_t where
  "junk_rio = \<lparr>rio_fd = 0, rio_cnt = 0, rio_bufptr = 0, rio_buf = []\<rparr>"

definition demo_input :: input where
  "demo_input = [Data ''LOGIN a'', Interrupted, Data (''nn'' @ [newline] @ ''CREATE t'' @ [newline])]"

definition gone_input :: input where
  "gone_input = [Data (''LOGIN bob'' @ [newline] @ ''CREATE u'' @ [newline])]"

definition demo_steps :: "net_event list" where
  "demo_steps = [Net_accept 5 True junk_rio gone_input [Takes 3, Broken_pipe],
     Net_turn 1 [], Net_turn 0 [], Net_turn 0 ''x'', Net_turn 1 [],
     Net_run 0, Net_run 0, Net_run 0, Net_run 0, Net_run 1, Net_run 1, Net_run 1]"

abbreviation first_accept :: net_event where
  "first_accept \<equiv> Net_accept 4 True junk_rio demo_input [Takes 1, Write_fails True]"

definition net_demo :: network where
  "net_demo = the (run_net (first_accept # demo_steps) (net_start 2 3))"

lemma net_demo_evaluated:
  "case run_net (first_accept # demo_steps) (net_start 2 3) of
     None \<Rightarrow> False
   | Some N \<Rightarrow> status (th_sys (n_threads N)) = Running \<and> \<not> n_sigpipe N
       \<and> p_got (n_peers N 0) = ''OK'' @ [newline] @ ''OK'' @ [newline] \<and> th_pc (n_threads N) 0 = Ready
       \<and> p_got (n_peers N 1) = ''OK'' @ [newline] \<and> th_pc (n_threads N) 1 = Reply
       \<and> p_out (n_peers N 1) = [Broken_pipe] \<and> live 0 (th_sys (n_threads N)) \<and> live 1 (th_sys (n_threads N))"
  by code_simp

lemma net_demo_run: "run_net (first_accept # demo_steps) (net_start 2 3) = Some net_demo"
  using net_demo_evaluated
  by (cases "run_net (first_accept # demo_steps) (net_start 2 3)") (simp_all add: net_demo_def del: run_net.simps)

lemma net_demo_facts:
  "status (th_sys (n_threads net_demo)) = Running" "\<not> n_sigpipe net_demo"
  "p_got (n_peers net_demo 0) = ''OK'' @ [newline] @ ''OK'' @ [newline]" "th_pc (n_threads net_demo) 0 = Ready"
  "th_pc (n_threads net_demo) 1 = Reply" "p_out (n_peers net_demo 1) = [Broken_pipe]"
  "live 0 (th_sys (n_threads net_demo))" "live 1 (th_sys (n_threads net_demo))"
  using net_demo_evaluated unfolding net_demo_run option.case by blast+

lemma net_demo_reachable: "net_reachable net_demo"
  by (rule run_net_reachable [OF net_reachable.start net_demo_run])

lemma demo_input_lines:
  "plain demo_input" "incoming demo_input = concat [''LOGIN ann'' @ [newline], ''CREATE t'' @ [newline]]"
  "lines_fit [''LOGIN ann'' @ [newline], ''CREATE t'' @ [newline]]"
  by (simp_all add: demo_input_def plain_def lines_fit_def one_line_def MAX_ENCODED_LEN_def)

end
