(* ===== verification/Csapp.thy ===== *)
theory Csapp
  imports KV_Prelude "HOL-Library.Word"
begin

text \<open>
  The error functions and the checking wrappers of \<^verbatim>\<open>csapp.c\<close>.  A system call is what it returned and
  the \<^verbatim>\<open>errno\<close> it left; \<open>strerror\<close> and \<open>gai_strerror\<close> stand for the C library's tables of texts.  A
  wrapper returns the result of its call, or prints and ends the process: with status 0, which is
  what the source passes to \<^verbatim>\<open>exit\<close>.
\<close>

section \<open>Ending the process\<close>

datatype 'a call = Returns 'a | Exits int string

type_synonym texts = "int \<Rightarrow> string"

text \<open>What a system call returned, and \<^verbatim>\<open>errno\<close>.\<close>

type_synonym sysres = "int \<times> int"

definition unix_error :: "texts \<Rightarrow> int \<Rightarrow> string \<Rightarrow> 'a call" where
  "unix_error strerror errno msg = Exits 0 (msg @ '': '' @ strerror errno @ [newline])"

definition posix_error :: "texts \<Rightarrow> int \<Rightarrow> string \<Rightarrow> 'a call" where
  "posix_error strerror code msg = Exits 0 (msg @ '': '' @ strerror code @ [newline])"

definition gai_error :: "texts \<Rightarrow> int \<Rightarrow> string \<Rightarrow> 'a call" where
  "gai_error gai_strerror code msg = Exits 0 (msg @ '': '' @ gai_strerror code @ [newline])"

definition app_error :: "string \<Rightarrow> 'a call" where
  "app_error msg = Exits 0 (msg @ [newline])"

definition dns_error :: "string \<Rightarrow> 'a call" where
  "dns_error msg = Exits 0 (msg @ [newline])"

text \<open>The three shapes of a check: a negative result, a nonzero error code, a missing object.\<close>

definition check_neg :: "texts \<Rightarrow> string \<Rightarrow> sysres \<Rightarrow> int call" where
  "check_neg strerror msg r = (if fst r < 0 then unix_error strerror (snd r) msg else Returns (fst r))"

text \<open>A wrapper declared \<^verbatim>\<open>void\<close> drops the result.\<close>

fun discard :: "'a call \<Rightarrow> unit call" where
  "discard (Returns x) = Returns ()"
| "discard (Exits st msg) = Exits st msg"

definition check_code :: "texts \<Rightarrow> string \<Rightarrow> int \<Rightarrow> unit call" where
  "check_code strerror msg rc = (if rc \<noteq> 0 then posix_error strerror rc msg else Returns ())"

definition check_null :: "texts \<Rightarrow> string \<Rightarrow> 'p option \<Rightarrow> int \<Rightarrow> 'p call" where
  "check_null strerror msg p errno = (case p of None \<Rightarrow> unix_error strerror errno msg | Some x \<Rightarrow> Returns x)"

section \<open>Process control and signals\<close>

definition Fork :: "texts \<Rightarrow> sysres \<Rightarrow> int call" where
  "Fork strerror r = check_neg strerror ''Fork error'' r"

definition Execve :: "texts \<Rightarrow> sysres \<Rightarrow> unit call" where
  "Execve strerror r = discard (check_neg strerror ''Execve error'' r)"

definition Wait :: "texts \<Rightarrow> sysres \<Rightarrow> int call" where
  "Wait strerror r = check_neg strerror ''Wait error'' r"

definition Waitpid :: "texts \<Rightarrow> sysres \<Rightarrow> int call" where
  "Waitpid strerror r = check_neg strerror ''Waitpid error'' r"

definition Kill :: "texts \<Rightarrow> sysres \<Rightarrow> unit call" where
  "Kill strerror r = discard (check_neg strerror ''Kill error'' r)"

definition Setpgid :: "texts \<Rightarrow> sysres \<Rightarrow> unit call" where
  "Setpgid strerror r = discard (check_neg strerror ''Setpgid error'' r)"

definition Sigprocmask :: "texts \<Rightarrow> sysres \<Rightarrow> unit call" where
  "Sigprocmask strerror r = discard (check_neg strerror ''Sigprocmask error'' r)"

definition Sigemptyset :: "texts \<Rightarrow> sysres \<Rightarrow> unit call" where
  "Sigemptyset strerror r = discard (check_neg strerror ''Sigemptyset error'' r)"

definition Sigfillset :: "texts \<Rightarrow> sysres \<Rightarrow> unit call" where
  "Sigfillset strerror r = discard (check_neg strerror ''Sigfillset error'' r)"

definition Sigaddset :: "texts \<Rightarrow> sysres \<Rightarrow> unit call" where
  "Sigaddset strerror r = discard (check_neg strerror ''Sigaddset error'' r)"

definition Sigdelset :: "texts \<Rightarrow> sysres \<Rightarrow> unit call" where
  "Sigdelset strerror r = discard (check_neg strerror ''Sigdelset error'' r)"

definition Sigismember :: "texts \<Rightarrow> sysres \<Rightarrow> int call" where
  "Sigismember strerror r = check_neg strerror ''Sigismember error'' r"

text \<open>Wrappers that look at no error: \<^verbatim>\<open>pause\<close> returns when a signal has been handled.\<close>

definition Pause :: "sysres \<Rightarrow> unit call" where
  "Pause r = Returns ()"

definition Alarm :: "nat \<Rightarrow> nat call" where
  "Alarm left = Returns left"

definition Getpgrp :: "int \<Rightarrow> int call" where
  "Getpgrp pgrp = Returns pgrp"

section \<open>Unix I/O\<close>

definition Open :: "texts \<Rightarrow> sysres \<Rightarrow> int call" where
  "Open strerror r = check_neg strerror ''Open error'' r"

definition Read :: "texts \<Rightarrow> sysres \<Rightarrow> int call" where
  "Read strerror r = check_neg strerror ''Read error'' r"

definition Write :: "texts \<Rightarrow> sysres \<Rightarrow> int call" where
  "Write strerror r = check_neg strerror ''Write error'' r"

definition Lseek :: "texts \<Rightarrow> sysres \<Rightarrow> int call" where
  "Lseek strerror r = check_neg strerror ''Lseek error'' r"

definition Close :: "texts \<Rightarrow> sysres \<Rightarrow> unit call" where
  "Close strerror r = discard (check_neg strerror ''Close error'' r)"

definition Select :: "texts \<Rightarrow> sysres \<Rightarrow> int call" where
  "Select strerror r = check_neg strerror ''Select error'' r"

definition Dup2 :: "texts \<Rightarrow> sysres \<Rightarrow> int call" where
  "Dup2 strerror r = check_neg strerror ''Dup2 error'' r"

definition Stat :: "texts \<Rightarrow> sysres \<Rightarrow> unit call" where
  "Stat strerror r = discard (check_neg strerror ''Stat error'' r)"

definition Fstat :: "texts \<Rightarrow> sysres \<Rightarrow> unit call" where
  "Fstat strerror r = discard (check_neg strerror ''Fstat error'' r)"

definition Closedir :: "texts \<Rightarrow> sysres \<Rightarrow> int call" where
  "Closedir strerror r = check_neg strerror ''closedir error'' r"

definition Munmap :: "texts \<Rightarrow> sysres \<Rightarrow> unit call" where
  "Munmap strerror r = discard (check_neg strerror ''munmap error'' r)"

section \<open>Sockets\<close>

definition Socket :: "texts \<Rightarrow> sysres \<Rightarrow> int call" where
  "Socket strerror r = check_neg strerror ''Socket error'' r"

definition Setsockopt :: "texts \<Rightarrow> sysres \<Rightarrow> unit call" where
  "Setsockopt strerror r = discard (check_neg strerror ''Setsockopt error'' r)"

definition Bind :: "texts \<Rightarrow> sysres \<Rightarrow> unit call" where
  "Bind strerror r = discard (check_neg strerror ''Bind error'' r)"

definition Listen :: "texts \<Rightarrow> sysres \<Rightarrow> unit call" where
  "Listen strerror r = discard (check_neg strerror ''Listen error'' r)"

definition Accept :: "texts \<Rightarrow> sysres \<Rightarrow> int call" where
  "Accept strerror r = check_neg strerror ''Accept error'' r"

definition Connect :: "texts \<Rightarrow> sysres \<Rightarrow> unit call" where
  "Connect strerror r = discard (check_neg strerror ''Connect error'' r)"

section \<open>Semaphores\<close>

definition Sem_init :: "texts \<Rightarrow> sysres \<Rightarrow> unit call" where
  "Sem_init strerror r = discard (check_neg strerror ''Sem_init error'' r)"

definition P :: "texts \<Rightarrow> sysres \<Rightarrow> unit call" where
  "P strerror r = discard (check_neg strerror ''P error'' r)"

definition V :: "texts \<Rightarrow> sysres \<Rightarrow> unit call" where
  "V strerror r = discard (check_neg strerror ''V error'' r)"

section \<open>Threads\<close>

definition Pthread_create :: "texts \<Rightarrow> int \<Rightarrow> unit call" where
  "Pthread_create strerror rc = check_code strerror ''Pthread_create error'' rc"

definition Pthread_cancel :: "texts \<Rightarrow> int \<Rightarrow> unit call" where
  "Pthread_cancel strerror rc = check_code strerror ''Pthread_cancel error'' rc"

definition Pthread_join :: "texts \<Rightarrow> int \<Rightarrow> unit call" where
  "Pthread_join strerror rc = check_code strerror ''Pthread_join error'' rc"

definition Pthread_detach :: "texts \<Rightarrow> int \<Rightarrow> unit call" where
  "Pthread_detach strerror rc = check_code strerror ''Pthread_detach error'' rc"

definition Pthread_self :: "nat \<Rightarrow> nat call" where
  "Pthread_self thr = Returns thr"

text \<open>Unlike the others, \<^verbatim>\<open>Pthread_once\<close> does not look at the code.\<close>

definition Pthread_once :: "int \<Rightarrow> unit call" where
  "Pthread_once rc = Returns ()"

section \<open>Names and memory\<close>

definition Getaddrinfo :: "texts \<Rightarrow> int \<Rightarrow> unit call" where
  "Getaddrinfo gai_strerror rc = (if rc \<noteq> 0 then gai_error gai_strerror rc ''Getaddrinfo error'' else Returns ())"

definition Getnameinfo :: "texts \<Rightarrow> int \<Rightarrow> unit call" where
  "Getnameinfo gai_strerror rc = (if rc \<noteq> 0 then gai_error gai_strerror rc ''Getnameinfo error'' else Returns ())"

definition Malloc :: "texts \<Rightarrow> 'p option \<Rightarrow> int \<Rightarrow> 'p call" where
  "Malloc strerror p errno = check_null strerror ''Malloc error'' p errno"

definition Realloc :: "texts \<Rightarrow> 'p option \<Rightarrow> int \<Rightarrow> 'p call" where
  "Realloc strerror p errno = check_null strerror ''Realloc error'' p errno"

definition Calloc :: "texts \<Rightarrow> 'p option \<Rightarrow> int \<Rightarrow> 'p call" where
  "Calloc strerror p errno = check_null strerror ''Calloc error'' p errno"

definition Opendir :: "texts \<Rightarrow> 'p option \<Rightarrow> int \<Rightarrow> 'p call" where
  "Opendir strerror p errno = check_null strerror ''opendir error'' p errno"

definition Fdopen :: "texts \<Rightarrow> 'p option \<Rightarrow> int \<Rightarrow> 'p call" where
  "Fdopen strerror p errno = check_null strerror ''Fdopen error'' p errno"

definition Fopen :: "texts \<Rightarrow> 'p option \<Rightarrow> int \<Rightarrow> 'p call" where
  "Fopen strerror p errno = check_null strerror ''Fopen error'' p errno"

definition Gethostbyname :: "'p option \<Rightarrow> 'p call" where
  "Gethostbyname p = (case p of None \<Rightarrow> dns_error ''Gethostbyname error'' | Some x \<Rightarrow> Returns x)"

definition Gethostbyaddr :: "'p option \<Rightarrow> 'p call" where
  "Gethostbyaddr p = (case p of None \<Rightarrow> dns_error ''Gethostbyaddr error'' | Some x \<Rightarrow> Returns x)"

text \<open>An address that is not one is told apart from a failed call.\<close>

definition Inet_pton :: "texts \<Rightarrow> sysres \<Rightarrow> unit call" where
  "Inet_pton strerror r =
    (if fst r = 0 then app_error ''inet_pton error: invalid dotted-decimal address''
     else if fst r < 0 then unix_error strerror (snd r) ''Inet_pton error''
     else Returns ())"

section \<open>Signal dispositions\<close>

record 'h sigaction =
  sa_handler :: 'h
  sa_mask :: "int set"
  sa_restart :: bool

text \<open>
  \<^verbatim>\<open>Signal\<close> installs a handler that blocks nothing but its own signal and restarts interrupted calls,
  and returns the one before; \<open>acts\<close> are the dispositions of the process.
\<close>

definition Signal :: "texts \<Rightarrow> sysres \<Rightarrow> int \<Rightarrow> 'h \<Rightarrow> (int \<Rightarrow> 'h sigaction) \<Rightarrow>
    ('h \<times> (int \<Rightarrow> 'h sigaction)) call" where
  "Signal strerror r signum handler acts =
    (if fst r < 0 then unix_error strerror (snd r) ''Signal error''
     else Returns (sa_handler (acts signum),
       acts(signum := \<lparr>sa_handler = handler, sa_mask = {}, sa_restart = True\<rparr>)))"

text \<open>\<^verbatim>\<open>sigsuspend\<close> always fails; being interrupted is what it is for.\<close>

definition EINTR :: int where "EINTR = 4"

definition Sigsuspend :: "texts \<Rightarrow> sysres \<Rightarrow> int call" where
  "Sigsuspend strerror r =
    (if snd r \<noteq> EINTR then unix_error strerror (snd r) ''Sigsuspend error'' else Returns (fst r))"

section \<open>Standard I/O, directories, mappings\<close>

text \<open>A missing result is an error only when the stream, or \<^verbatim>\<open>errno\<close>, says so; otherwise it is the end.\<close>

definition Fgets :: "string option \<Rightarrow> bool \<Rightarrow> (string option) call" where
  "Fgets rptr ferror = (if rptr = None \<and> ferror then app_error ''Fgets error'' else Returns rptr)"

definition Fread :: "texts \<Rightarrow> nat \<Rightarrow> nat \<Rightarrow> bool \<Rightarrow> int \<Rightarrow> nat call" where
  "Fread strerror n nmemb ferror errno =
    (if n < nmemb \<and> ferror then unix_error strerror errno ''Fread error'' else Returns n)"

definition Fwrite :: "texts \<Rightarrow> nat \<Rightarrow> nat \<Rightarrow> int \<Rightarrow> unit call" where
  "Fwrite strerror n nmemb errno =
    (if n < nmemb then unix_error strerror errno ''Fwrite error'' else Returns ())"

definition EOF :: int where "EOF = -1"

definition Fputs :: "texts \<Rightarrow> sysres \<Rightarrow> unit call" where
  "Fputs strerror r = (if fst r = EOF then unix_error strerror (snd r) ''Fputs error'' else Returns ())"

definition Fclose :: "texts \<Rightarrow> sysres \<Rightarrow> unit call" where
  "Fclose strerror r = (if fst r \<noteq> 0 then unix_error strerror (snd r) ''Fclose error'' else Returns ())"

text \<open>\<^verbatim>\<open>errno\<close> is cleared before the call: \<open>errno\<close> is what the call set it to, or 0.\<close>

definition Readdir :: "texts \<Rightarrow> 'p option \<Rightarrow> int \<Rightarrow> ('p option) call" where
  "Readdir strerror dep errno =
    (if dep = None \<and> errno \<noteq> 0 then unix_error strerror errno ''readdir error'' else Returns dep)"

definition Mmap :: "texts \<Rightarrow> 64 word \<Rightarrow> int \<Rightarrow> (64 word) call" where
  "Mmap strerror ptr errno = (if ptr = -1 then unix_error strerror errno ''mmap error'' else Returns ptr)"

definition Inet_ntop :: "texts \<Rightarrow> string option \<Rightarrow> int \<Rightarrow> unit call" where
  "Inet_ntop strerror dst errno =
    (if dst = None then unix_error strerror errno ''Inet_ntop error'' else Returns ())"

section \<open>Sleep\<close>

text \<open>
  \<^verbatim>\<open>Sleep\<close> asks again for the seconds the interrupted call left, until none are left: \<open>left\<close> are the
  results of successive calls.  \<open>None\<close> means the script ended while the loop still ran.  The
  second component is what the calls asked for.
\<close>

fun Sleep :: "nat \<Rightarrow> nat list \<Rightarrow> (nat \<times> nat list) option" where
  "Sleep remaining [] = None"
| "Sleep remaining (rc # left) =
     (if rc = 0 then Some (0, [remaining])
      else map_option (\<lambda>(r, asked). (r, remaining # asked)) (Sleep rc left))"

section \<open>Lemmas\<close>

text \<open>A failure never shows in the exit status of the process.\<close>

lemma check_Exits:
  "check_neg strerror msg r = Exits st out \<Longrightarrow> st = 0 \<and> fst r < 0"
  "check_code strerror msg rc = Exits st out \<Longrightarrow> st = 0 \<and> rc \<noteq> 0"
  "check_null strerror msg p errno = Exits st out \<Longrightarrow> st = 0 \<and> p = None"
  by (auto simp: check_neg_def check_code_def check_null_def unix_error_def posix_error_def
      split: if_splits option.splits)

lemma Accept_cases:
  "Accept strerror r = (if fst r < 0 then Exits 0 (''Accept error: '' @ strerror (snd r) @ [newline])
     else Returns (fst r))"
  by (simp add: Accept_def check_neg_def unix_error_def)

text \<open>\<^verbatim>\<open>Sleep\<close> returns 0 when it returns, after asking for its argument first.\<close>

lemma Sleep_zero: "Sleep n left = Some (r, asked) \<Longrightarrow> r = 0 \<and> hd asked = n \<and> asked \<noteq> []"
  by (induction n left arbitrary: r asked rule: Sleep.induct) (auto split: if_splits)

text \<open>\<^verbatim>\<open>Signal\<close> undone by installing the handler it returned.\<close>

lemma Signal_restores:
  assumes "Signal strerror r signum h acts = Returns (old, acts')" "0 \<le> fst r'"
  shows "\<exists>acts''. Signal strerror r' signum old acts' = Returns (h, acts'')
    \<and> sa_handler (acts'' signum) = sa_handler (acts signum) \<and> (\<forall>n. n \<noteq> signum \<longrightarrow> acts'' n = acts n)"
  using assms by (auto simp: Signal_def unix_error_def split: if_splits)

end
