(* ===== verification/Sockets.thy ===== *)
theory Sockets
  imports Csapp
begin

text \<open>
  \<^verbatim>\<open>open_clientfd\<close> and \<^verbatim>\<open>open_listenfd\<close> of \<^verbatim>\<open>csapp.c\<close>: the walk over the addresses \<^verbatim>\<open>getaddrinfo\<close>
  found.  What the system calls return for an address is part of it; the second result records
  what happened to descriptors and to the address list.
\<close>

section \<open>The walk over the addresses\<close>

record address =
  a_socket :: int
  a_result :: int
  a_close :: int

datatype sock_event = Opened int | Closed int | Freed_list

datatype walk = Found int | Exhausted | Close_failed

text \<open>\<open>a_result\<close> is what \<^verbatim>\<open>connect\<close> returns.\<close>

fun connect_walk :: "address list \<Rightarrow> walk \<times> sock_event list" where
  "connect_walk [] = (Exhausted, [])"
| "connect_walk (p # ps) =
    (if a_socket p < 0 then connect_walk ps
     else if a_result p \<noteq> -1 then (Found (a_socket p), [Opened (a_socket p)])
     else if a_close p < 0 then (Close_failed, [Opened (a_socket p), Closed (a_socket p)])
     else (case connect_walk ps of (r, evs) \<Rightarrow>
       (r, Opened (a_socket p) # Closed (a_socket p) # evs)))"

definition open_clientfd :: "int \<Rightarrow> address list \<Rightarrow> int \<times> sock_event list" where
  "open_clientfd gai listp =
    (if gai \<noteq> 0 then (-2, [])
     else (case connect_walk listp of
         (Close_failed, evs) \<Rightarrow> (-1, evs)
       | (Exhausted, evs) \<Rightarrow> (-1, evs @ [Freed_list])
       | (Found fd, evs) \<Rightarrow> (fd, evs @ [Freed_list])))"

text \<open>\<open>a_result\<close> is what \<^verbatim>\<open>bind\<close> returns; the result of \<^verbatim>\<open>setsockopt\<close> is ignored.\<close>

fun bind_walk :: "address list \<Rightarrow> walk \<times> sock_event list" where
  "bind_walk [] = (Exhausted, [])"
| "bind_walk (p # ps) =
    (if a_socket p < 0 then bind_walk ps
     else if a_result p = 0 then (Found (a_socket p), [Opened (a_socket p)])
     else if a_close p < 0 then (Close_failed, [Opened (a_socket p), Closed (a_socket p)])
     else (case bind_walk ps of (r, evs) \<Rightarrow>
       (r, Opened (a_socket p) # Closed (a_socket p) # evs)))"

definition open_listenfd :: "int \<Rightarrow> address list \<Rightarrow> int \<Rightarrow> int \<times> sock_event list" where
  "open_listenfd gai listp listen_rc =
    (if gai \<noteq> 0 then (-2, [])
     else (case bind_walk listp of
         (Close_failed, evs) \<Rightarrow> (-1, evs)
       | (Exhausted, evs) \<Rightarrow> (-1, evs @ [Freed_list])
       | (Found fd, evs) \<Rightarrow>
           if listen_rc < 0 then (-1, evs @ [Freed_list, Closed fd]) else (fd, evs @ [Freed_list])))"

definition Open_clientfd :: "texts \<Rightarrow> int \<Rightarrow> int \<Rightarrow> address list \<Rightarrow> int call" where
  "Open_clientfd strerror errno gai listp =
     (let rc = fst (open_clientfd gai listp)
      in if rc < 0 then unix_error strerror errno ''Open_clientfd error'' else Returns rc)"

definition Open_listenfd :: "texts \<Rightarrow> int \<Rightarrow> int \<Rightarrow> address list \<Rightarrow> int \<Rightarrow> int call" where
  "Open_listenfd strerror errno gai listp listen_rc =
     (let rc = fst (open_listenfd gai listp listen_rc)
      in if rc < 0 then unix_error strerror errno ''Open_listenfd error'' else Returns rc)"

section \<open>What is left open\<close>

text \<open>The descriptors opened and not closed since, in order.\<close>

fun left_open :: "sock_event list \<Rightarrow> int list \<Rightarrow> int list" where
  "left_open [] fds = fds"
| "left_open (Opened fd # evs) fds = left_open evs (fds @ [fd])"
| "left_open (Closed fd # evs) fds = left_open evs (removeAll fd fds)"
| "left_open (Freed_list # evs) fds = left_open evs fds"

lemma left_open_append: "left_open (evs @ evs') fds = left_open evs' (left_open evs fds)"
  by (induction evs fds rule: left_open.induct) auto

lemma connect_walk_open:
  "left_open (snd (connect_walk ps)) [] = (case fst (connect_walk ps) of Found fd \<Rightarrow> [fd] | _ \<Rightarrow> [])"
  by (induction ps) (auto simp: split_beta)

lemma bind_walk_open:
  "left_open (snd (bind_walk ps)) [] = (case fst (bind_walk ps) of Found fd \<Rightarrow> [fd] | _ \<Rightarrow> [])"
  by (induction ps) (auto simp: split_beta)

lemma connect_walk_found: "fst (connect_walk ps) = Found fd \<Longrightarrow>
   0 \<le> fd \<and> (\<exists>p \<in> set ps. a_socket p = fd \<and> a_result p \<noteq> -1)"
  by (induction ps) (auto simp: split_beta split: if_splits)

lemma bind_walk_found: "fst (bind_walk ps) = Found fd \<Longrightarrow>
   0 \<le> fd \<and> (\<exists>p \<in> set ps. a_socket p = fd \<and> a_result p = 0)"
  by (induction ps) (auto simp: split_beta split: if_splits)

text \<open>Every descriptor is closed again except the one that is returned.\<close>

lemma open_clientfd_open:
  "left_open (snd (open_clientfd gai listp)) [] =
     (if fst (open_clientfd gai listp) < 0 then [] else [fst (open_clientfd gai listp)])"
  using connect_walk_open [of listp] connect_walk_found [of listp]
  by (auto simp: open_clientfd_def left_open_append split: prod.splits walk.splits)

lemma open_listenfd_open:
  "left_open (snd (open_listenfd gai listp rc)) [] =
     (if fst (open_listenfd gai listp rc) < 0 then [] else [fst (open_listenfd gai listp rc)])"
  using bind_walk_open [of listp] bind_walk_found [of listp]
  by (auto simp: open_listenfd_def left_open_append split: prod.splits walk.splits)

lemma open_clientfd_ok:
  assumes "fst (open_clientfd gai listp) = fd" "0 \<le> fd"
  shows "gai = 0 \<and> (\<exists>p \<in> set listp. a_socket p = fd \<and> a_result p \<noteq> -1)"
  using assms connect_walk_found [of listp fd]
  by (auto simp: open_clientfd_def split: if_splits prod.splits walk.splits)

text \<open>The first address whose socket connects is the one used, when no close fails before it.\<close>

lemma connect_walk_first:
  "\<forall>q \<in> set ps. a_socket q < 0 \<or> (a_result q = -1 \<and> 0 \<le> a_close q) \<Longrightarrow>
   0 \<le> a_socket p \<Longrightarrow> a_result p \<noteq> -1 \<Longrightarrow> fst (connect_walk (ps @ p # rest)) = Found (a_socket p)"
  by (induction ps) (auto simp: split_beta)

section \<open>Further facts\<close>

text \<open>open_clientfd leaves open the descriptor it returns and no other, and none when it fails; it
  returns a descriptor only for an address getaddrinfo gave and whose connect succeeded.\<close>

lemma open_clientfd_leaks_nothing:
  "left_open (snd (open_clientfd gai listp)) [] =
     (if fst (open_clientfd gai listp) < 0 then [] else [fst (open_clientfd gai listp)])
   \<and> (0 \<le> fst (open_clientfd gai listp) \<longrightarrow> gai = 0 \<and>
       (\<exists>p \<in> set listp. a_socket p = fst (open_clientfd gai listp) \<and> a_result p \<noteq> -1))"
  using open_clientfd_open [of gai listp] open_clientfd_ok [of gai listp] by blast

lemma open_clientfd_leaks_nothing_witness:
  "left_open (snd (open_clientfd 0 [\<lparr>a_socket = 5, a_result = -1, a_close = 0\<rparr>, \<lparr>a_socket = 6, a_result = 0, a_close = 0\<rparr>])) [] = [6]"
  using open_clientfd_leaks_nothing [of 0 "[\<lparr>a_socket = 5, a_result = -1, a_close = 0\<rparr>, \<lparr>a_socket = 6, a_result = 0, a_close = 0\<rparr>]"]
  by (simp add: open_clientfd_def)

end
