(* ===== verification/Clients.thy ===== *)
theory Clients
  imports Wire Sockets
begin

text \<open>
  The three client programs (\<^verbatim>\<open>get_value.cpp\<close>, \<^verbatim>\<open>set_value.cpp\<close>, \<^verbatim>\<open>incr_value.cpp\<close>).  What the server
  sends is the scripted input of the reader; what the client sends, prints and reports is part of
  its state.  The array \<^verbatim>\<open>buf\<close> keeps the previous response when a read delivers nothing, because
  the programs do not look at what \<^verbatim>\<open>rio_readlineb\<close> returns; its first contents are indeterminate.
\<close>

section \<open>The state of a client\<close>

record client =
  c_rio :: rio_t
  c_buf :: string
  c_in :: input
  c_sent :: "string list"
  c_out :: string
  c_err :: string
  c_closed :: bool

text \<open>The junk the local variables \<^verbatim>\<open>rio\<close> and \<^verbatim>\<open>buf\<close> hold at first, and the server's bytes.\<close>

definition client_new :: "int \<Rightarrow> rio_t \<Rightarrow> string \<Rightarrow> input \<Rightarrow> client" where
  "client_new client_fd rio buf inp = \<lparr>c_rio = rio_readinitb rio client_fd, c_buf = buf, c_in = inp,
     c_sent = [], c_out = [], c_err = [], c_closed = False\<rparr>"

definition send_request :: "message \<Rightarrow> (client, unit) prog" where
  "send_request req = bind (of_sum (encode req)) (\<lambda>encoded.
     modify (\<lambda>c. c\<lparr>c_sent := c_sent c @ [encoded]\<rparr>))"

definition read_response_line :: "(client, unit) prog" where
  "read_response_line = modify (\<lambda>c. case rio_readlineb (c_rio c) (c_buf c) MAX_ENCODED_LEN (c_in c) of
     (rc, buf, rio, inp) \<Rightarrow> c\<lparr>c_rio := rio, c_buf := buf, c_in := inp\<rparr>)"

text \<open>\<^verbatim>\<open>decode(buf, resp)\<close>: a buffer without a terminator would be read past its end.\<close>

definition decode_response :: "(client, message) prog" where
  "decode_response = bind (gets c_buf) (\<lambda>buf.
     if nul \<in> set buf then of_sum (decode (c_str buf)) else undef)"

definition exchange :: "message \<Rightarrow> (client, message) prog" where
  "exchange req = seq (send_request req) (seq read_response_line decode_response)"

text \<open>A request whose response must be OK.\<close>

definition request_ok :: "string \<Rightarrow> message \<Rightarrow> (client, unit) prog" where
  "request_ok what req = bind (exchange req) (\<lambda>resp.
     if get_message_type resp \<noteq> OK
     then throw (RuntimeError (''Error: '' @ what @ '' failed. Server response: '' @ get_quoted_text resp))
     else ret ())"

definition close_client :: "(client, unit) prog" where
  "close_client = modify (\<lambda>c. c\<lparr>c_closed := True\<rparr>)"

text \<open>
  The frame of each \<^verbatim>\<open>main\<close> after the usage check: the connection, the requests, and the handler of
  every \<^verbatim>\<open>std::exception\<close>.  The result is the exit status.
\<close>

definition run_client :: "int \<Rightarrow> (client, unit) prog \<Rightarrow> (client, int) prog" where
  "run_client client_fd body = (\<lambda>c.
     case (if client_fd < 0 then throw (RuntimeError ''fail to connect the serve'') else body) c of
       (Ok u, c') \<Rightarrow> (Ok 0, c')
     | (Exn e, c') \<Rightarrow> (Ok 1, c'\<lparr>c_err := c_err c' @ exn_what e @ [newline],
                              c_closed := c_closed c' \<or> 0 \<le> client_fd\<rparr>)
     | (Blocked, c') \<Rightarrow> (Blocked, c')
     | (Undef, c') \<Rightarrow> (Undef, c'))"

definition usage :: "string \<Rightarrow> (client, int) prog" where
  "usage text = seq (modify (\<lambda>c. c\<lparr>c_err := c_err c @ text\<rparr>)) (ret 1)"

section \<open>The programs\<close>

definition get_value_session :: "string \<Rightarrow> string \<Rightarrow> string \<Rightarrow> (client, unit) prog" where
  "get_value_session username table key =
     seq (request_ok ''LOGIN'' (Message LOGIN [username]))
     (seq (request_ok ''GET'' (Message GET [table, key]))
     (bind (exchange (Message TOP [])) (\<lambda>top_resp.
        if get_message_type top_resp \<noteq> DATA
        then throw (RuntimeError ''Error: Expected DATA response, but received something else.'')
        else bind (of_option (get_value top_resp)) (\<lambda>value.
          seq (modify (\<lambda>c. c\<lparr>c_out := c_out c @ value @ [newline]\<rparr>))
          (seq (send_request (Message BYE [])) close_client)))))"

definition get_value_main :: "string list \<Rightarrow> int \<Rightarrow> (client, int) prog" where
  "get_value_main argv client_fd = (case argv of
       [prog, hostname, port, username, table, key] \<Rightarrow>
         run_client client_fd (get_value_session username table key)
     | _ \<Rightarrow> usage (''Usage: ./get_value <hostname> <port> <username> <table> <key>'' @ [newline]))"

definition set_value_session :: "string \<Rightarrow> string \<Rightarrow> string \<Rightarrow> string \<Rightarrow> (client, unit) prog" where
  "set_value_session username table key value =
     seq (request_ok ''LOGIN'' (Message LOGIN [username]))
     (seq (request_ok ''PUSH'' (Message PUSH [value]))
     (seq (request_ok ''SET'' (Message SET [table, key]))
     (seq (send_request (Message BYE [])) close_client)))"

definition set_value_main :: "string list \<Rightarrow> int \<Rightarrow> (client, int) prog" where
  "set_value_main argv client_fd = (case argv of
       [prog, hostname, port, username, table, key, value] \<Rightarrow>
         run_client client_fd (set_value_session username table key value)
     | _ \<Rightarrow> usage (''Usage: ./set_value <hostname> <port> <username> <table> <key> <value>'' @ [newline]))"

definition incr_value_session :: "bool \<Rightarrow> string \<Rightarrow> string \<Rightarrow> string \<Rightarrow> (client, unit) prog" where
  "incr_value_session use_transaction username table key =
     seq (request_ok ''LOGIN'' (Message LOGIN [username]))
     (seq (if use_transaction then request_ok ''BEGIN'' (Message BEGIN []) else ret ())
     (seq (request_ok ''GET'' (Message GET [table, key]))
     (seq (request_ok ''PUSH'' (Message PUSH [''1'']))
     (seq (request_ok ''ADD'' (Message ADD []))
     (seq (request_ok ''SET'' (Message SET [table, key]))
     (seq (if use_transaction then request_ok ''COMMIT'' (Message COMMIT []) else ret ())
     (send_request (Message BYE []))))))))"

text \<open>With seven arguments the first must be \<^verbatim>\<open>-t\<close>.  The descriptor is left to the end of the process.\<close>

definition incr_value_main :: "string list \<Rightarrow> int \<Rightarrow> (client, int) prog" where
  "incr_value_main argv client_fd = (case argv of
       [prog, hostname, port, username, table, key] \<Rightarrow>
         run_client client_fd (incr_value_session False username table key)
     | [prog, opt, hostname, port, username, table, key] \<Rightarrow>
         if opt = ''-t'' then run_client client_fd (incr_value_session True username table key)
         else usage (''Usage: ./incr_value [-t] <hostname> <port> <username> <table> <key>'' @ [newline]
           @ ''Options:'' @ [newline] @ ''  -t      execute the increment as a transaction'' @ [newline])
     | _ \<Rightarrow> usage (''Usage: ./incr_value [-t] <hostname> <port> <username> <table> <key>'' @ [newline]
           @ ''Options:'' @ [newline] @ ''  -t      execute the increment as a transaction'' @ [newline]))"

section \<open>An exchange\<close>

text \<open>
  \<open>awaits c bytes\<close>: these are the bytes the server still sends, however they are cut up, before it
  closes the connection.
\<close>

definition awaits :: "client \<Rightarrow> string \<Rightarrow> bool" where
  "awaits c bytes \<longleftrightarrow> plain (c_in c) \<and> rio_wf (c_rio c) \<and> stream (c_rio c) (c_in c) = bytes"

text \<open>\<open>last_response c resp\<close>: the array holds this response.\<close>

definition last_response :: "client \<Rightarrow> message \<Rightarrow> bool" where
  "last_response c resp \<longleftrightarrow> nul \<in> set (c_buf c) \<and> decode (c_str (c_buf c)) = Inr resp"

definition same_output :: "client \<Rightarrow> client \<Rightarrow> bool" where
  "same_output c c' \<longleftrightarrow> c_out c' = c_out c \<and> c_err c' = c_err c \<and> c_closed c' = c_closed c"

lemma client_new_awaits: "plain inp \<Longrightarrow> awaits (client_new fd rio buf inp) (incoming inp)"
  by (simp add: awaits_def client_new_def stream_def)

lemma client_run [simp]: "bind m f c = (case m c of (Ok a, c') \<Rightarrow> f a c' | (Exn e, c') \<Rightarrow> (Exn e, c')
      | (Blocked, c') \<Rightarrow> (Blocked, c') | (Undef, c') \<Rightarrow> (Undef, c'))" for m :: "(client, 'a) prog"
  by (simp add: bind_def)

lemma client_seq [simp]: "seq m k c = (case m c of (Ok a, c') \<Rightarrow> k c' | (Exn e, c') \<Rightarrow> (Exn e, c')
      | (Blocked, c') \<Rightarrow> (Blocked, c') | (Undef, c') \<Rightarrow> (Undef, c'))" for m :: "(client, 'a) prog"
  by (simp add: seq_def)

lemma client_basic [simp]: "ret a c = (Ok a, c)" "throw e c = (Exn e, c)" "gets g c = (Ok (g c), c)"
  "modify h c = (Ok (), h c)" "undef c = (Undef, c)" for c :: client
  by (simp_all add: ret_def throw_def gets_def modify_def undef_def)

lemma nul_terminated: "nul \<in> set (terminate_line l buf)"
  by (simp add: terminate_line_def overwrite_def)

text \<open>A response that arrives is the one decoded.\<close>

lemma exchange_answered:
  assumes aw: "awaits c (line @ rest)" and req: "encode req = Inr s"
    and resp: "is_valid resp" "encode resp = Inr line" "one_line line" "length line < MAX_ENCODED_LEN"
  shows "\<exists>c'. exchange req c = (Ok resp, c') \<and> awaits c' rest \<and> last_response c' resp
    \<and> same_output c c' \<and> c_sent c' = c_sent c @ [s]"
proof -
  obtain body where body: "line = body @ [newline]" "newline \<notin> set body" "nul \<notin> set line"
    using resp(3) by (rule one_lineE)
  have nl: "next_line (MAX_ENCODED_LEN - 1) (line @ rest) = line"
    using body resp(4) next_line_whole [of body "MAX_ENCODED_LEN - 1" rest] by simp
  have pl: "plain (c_in c)" and wf: "rio_wf (c_rio c)" and st: "stream (c_rio c) (c_in c) = line @ rest"
    using aw by (simp_all add: awaits_def)
  have "line_complete (MAX_ENCODED_LEN - 1) line"
    using body(1) by (simp add: line_complete_def)
  then obtain rp inp where rd: "rio_readlineb (c_rio c) (c_buf c) MAX_ENCODED_LEN (c_in c) =
      (int (length line), terminate_line line (c_buf c), rp, inp)" "rio_wf rp" "stream rp inp = rest"
    using readlineb_loop_spec(1) [OF wf, of "MAX_ENCODED_LEN - 1" "c_in c" "[]" "c_buf c"] st nl
    by (auto simp: rio_readlineb_def)
  have "plain inp"
    using readlineb_plain [OF pl wf] rd(1) by (simp add: rio_readlineb_def)
  moreover have dec: "decode (c_str (terminate_line line (c_buf c))) = Inr resp"
    using decode_encode [OF resp(1,2)] c_str_terminate [OF body(3)] by simp
  ultimately show ?thesis
    using rd req
    by (simp add: exchange_def send_request_def read_response_line_def decode_response_def
        nul_terminated awaits_def last_response_def same_output_def)
qed

text \<open>
  A connection that has ended delivers nothing, and the response before it is decoded once more:
  the programs do not look at the result of the read.
\<close>

lemma exchange_stale:
  assumes aw: "awaits c []" and last: "last_response c resp" and req: "encode req = Inr s"
  shows "\<exists>c'. exchange req c = (Ok resp, c') \<and> awaits c' [] \<and> last_response c' resp
    \<and> same_output c c' \<and> c_sent c' = c_sent c @ [s]"
proof -
  have "plain (c_in c)" "rio_wf (c_rio c)" "stream (c_rio c) (c_in c) = []"
    using aw by (auto simp: awaits_def)
  then obtain rp inp where "rio_readlineb (c_rio c) (c_buf c) MAX_ENCODED_LEN (c_in c) = (0, c_buf c, rp, inp)"
    "plain inp" "rio_wf rp" "stream rp inp = []"
    using readlineb_at_end [of "c_in c" "c_rio c" MAX_ENCODED_LEN "c_buf c"] by (auto simp: MAX_ENCODED_LEN_def)
  then show ?thesis
    using last req
    by (simp add: exchange_def send_request_def read_response_line_def decode_response_def
        awaits_def last_response_def same_output_def)
qed

section \<open>Requests that are answered\<close>

lemma ok_response:
  "is_valid (Message OK [])" "encode (Message OK []) = Inr (''OK'' @ [newline])"
  "one_line (''OK'' @ [newline])" "length (''OK'' @ [newline]) < MAX_ENCODED_LEN"
  by (simp_all add: is_valid.simps encode_def MAX_ENCODED_LEN_def one_line_def)

lemma same_output_trans: "same_output c c' \<Longrightarrow> same_output c' c'' \<Longrightarrow> same_output c c''"
  by (simp add: same_output_def)

lemma request_answered:
  assumes "awaits c (''OK'' @ newline # rest)" "encode req = Inr s"
  shows "\<exists>c'. request_ok what req c = (Ok (), c') \<and> awaits c' rest \<and> last_response c' (Message OK [])
    \<and> same_output c c' \<and> c_sent c' = c_sent c @ [s]"
  using exchange_answered [of c "''OK'' @ [newline]" rest req s "Message OK []"] assms ok_response
  by (fastforce simp: request_ok_def)

definition response_text :: "message \<Rightarrow> bool" where
  "response_text resp \<longleftrightarrow> get_message_type resp = FAILED \<or> get_message_type resp = ERROR"

lemma request_refused:
  assumes "awaits c (line @ rest)" "encode req = Inr s" "response_text resp" "encode resp = Inr line"
    and "one_line line" "length line < MAX_ENCODED_LEN" "is_valid resp"
  shows "\<exists>c'. request_ok what req c = (Exn (RuntimeError (''Error: '' @ what @ '' failed. Server response: ''
      @ get_quoted_text resp)), c') \<and> same_output c c' \<and> c_sent c' = c_sent c @ [s]"
  using exchange_answered [OF assms(1,2,7,4,5,6)] assms(3)
  by (fastforce simp: request_ok_def response_text_def)

lemma request_stale:
  assumes "awaits c []" "last_response c (Message OK [])" "encode req = Inr s"
  shows "\<exists>c'. request_ok what req c = (Ok (), c') \<and> awaits c' [] \<and> last_response c' (Message OK [])
    \<and> same_output c c' \<and> c_sent c' = c_sent c @ [s]"
  using exchange_stale [OF assms] by (fastforce simp: request_ok_def)

lemma send_bye: "send_request (Message BYE []) c = (Ok (), c\<lparr>c_sent := c_sent c @ [''BYE'' @ [newline]]\<rparr>)"
  by (simp add: send_request_def encode_def MAX_ENCODED_LEN_def)

end
