(* ===== verification/EndToEnd.thy ===== *)
theory EndToEnd
  imports Clients Store
begin

text \<open>
  A client program against the server: the requests a program sends, taken one by one by a new
  session of the server, produce the bytes that the program then reads.
\<close>

section \<open>The programs, when the server answers\<close>

abbreviation ok_bytes :: string where "ok_bytes \<equiv> ''OK'' @ [newline]"

definition data_bytes :: "string \<Rightarrow> string" where
  "data_bytes v = ''DATA '' @ v @ [newline]"

definition sendable :: "string \<Rightarrow> bool" where
  "sendable v \<longleftrightarrow> is_value v \<and> nul \<notin> set v \<and> length v < 1018"

lemma sendable_no_newline: "sendable v \<Longrightarrow> newline \<notin> set v"
  using value_no_space [of v newline] by (auto simp: sendable_def)

lemma data_response:
  assumes "sendable v"
  shows "is_valid (Message DATA [v])" "encode (Message DATA [v]) = Inr (data_bytes v)"
    "one_line (data_bytes v)" "length (data_bytes v) < MAX_ENCODED_LEN"
  using assms sendable_no_newline [OF assms]
  by (auto simp: is_valid.simps args_value1_def sendable_def encode_def data_bytes_def MAX_ENCODED_LEN_def
      one_line_def butlast_append)

lemma get_value_answered:
  assumes aw: "awaits c (ok_bytes @ ok_bytes @ data_bytes v @ rest)" and v: "sendable v" and fd: "0 \<le> fd"
    and enc: "encode (Message LOGIN [username]) = Inr l" "encode (Message GET [table, key]) = Inr g"
  shows "\<exists>c'. get_value_main [prog, hostname, port, username, table, key] fd c = (Ok 0, c')
    \<and> c_out c' = c_out c @ v @ [newline] \<and> c_err c' = c_err c \<and> c_closed c'
    \<and> c_sent c' = c_sent c @ [l, g, ''TOP'' @ [newline], ''BYE'' @ [newline]]"
proof -
  have top: "encode (Message TOP []) = Inr (''TOP'' @ [newline])"
    by (simp add: encode_def MAX_ENCODED_LEN_def)
  obtain c1 where c1: "request_ok ''LOGIN'' (Message LOGIN [username]) c = (Ok (), c1)"
    "awaits c1 (ok_bytes @ data_bytes v @ rest)" "same_output c c1" "c_sent c1 = c_sent c @ [l]"
    using request_answered [of c "ok_bytes @ data_bytes v @ rest" _ l "''LOGIN''"] aw enc(1) by auto
  obtain c2 where c2: "request_ok ''GET'' (Message GET [table, key]) c1 = (Ok (), c2)"
    "awaits c2 (data_bytes v @ rest)" "same_output c1 c2" "c_sent c2 = c_sent c1 @ [g]"
    using request_answered [of c1 "data_bytes v @ rest" _ g "''GET''"] c1(2) enc(2) by auto
  obtain c3 where c3: "exchange (Message TOP []) c2 = (Ok (Message DATA [v]), c3)"
    "same_output c2 c3" "c_sent c3 = c_sent c2 @ [''TOP'' @ [newline]]"
    using exchange_answered [OF c2(2) top data_response [OF v]] by auto
  show ?thesis
    using fd c1 c2 c3
    by (simp add: get_value_main_def run_client_def get_value_session_def get_value_def send_bye
        close_client_def same_output_def)
qed

lemma set_value_answered:
  assumes aw: "awaits c (ok_bytes @ ok_bytes @ ok_bytes @ rest)" and fd: "0 \<le> fd"
    and enc: "encode (Message LOGIN [username]) = Inr l" "encode (Message PUSH [v]) = Inr p"
      "encode (Message SET [table, key]) = Inr s"
  shows "\<exists>c'. set_value_main [prog, hostname, port, username, table, key, v] fd c = (Ok 0, c')
    \<and> c_out c' = c_out c \<and> c_err c' = c_err c \<and> c_closed c'
    \<and> c_sent c' = c_sent c @ [l, p, s, ''BYE'' @ [newline]]"
proof -
  obtain c1 where c1: "request_ok ''LOGIN'' (Message LOGIN [username]) c = (Ok (), c1)"
    "awaits c1 (ok_bytes @ ok_bytes @ rest)" "same_output c c1" "c_sent c1 = c_sent c @ [l]"
    using request_answered [of c "ok_bytes @ ok_bytes @ rest" _ l "''LOGIN''"] aw enc(1) by auto
  obtain c2 where c2: "request_ok ''PUSH'' (Message PUSH [v]) c1 = (Ok (), c2)"
    "awaits c2 (ok_bytes @ rest)" "same_output c1 c2" "c_sent c2 = c_sent c1 @ [p]"
    using request_answered [of c1 "ok_bytes @ rest" _ p "''PUSH''"] c1(2) enc(2) by auto
  obtain c3 where c3: "request_ok ''SET'' (Message SET [table, key]) c2 = (Ok (), c3)"
    "same_output c2 c3" "c_sent c3 = c_sent c2 @ [s]"
    using request_answered [of c2 rest _ s "''SET''"] c2(2) enc(3) by auto
  show ?thesis
    using fd c1 c2 c3
    by (simp add: set_value_main_def run_client_def set_value_session_def send_bye close_client_def same_output_def)
qed

text \<open>
  A server that answers LOGIN and closes the connection: \<^verbatim>\<open>set_value\<close> decodes that answer three times
  and reports success.
\<close>

lemma set_value_stale:
  assumes aw: "awaits c ok_bytes" and fd: "0 \<le> fd"
    and enc: "encode (Message LOGIN [username]) = Inr l" "encode (Message PUSH [v]) = Inr p"
      "encode (Message SET [table, key]) = Inr s"
  shows "\<exists>c'. set_value_main [prog, hostname, port, username, table, key, v] fd c = (Ok 0, c')
    \<and> c_err c' = c_err c \<and> c_sent c' = c_sent c @ [l, p, s, ''BYE'' @ [newline]]"
proof -
  obtain c1 where c1: "request_ok ''LOGIN'' (Message LOGIN [username]) c = (Ok (), c1)"
    "awaits c1 []" "last_response c1 (Message OK [])" "same_output c c1" "c_sent c1 = c_sent c @ [l]"
    using request_answered [of c "[]" _ l "''LOGIN''"] aw enc(1) by auto
  obtain c2 where c2: "request_ok ''PUSH'' (Message PUSH [v]) c1 = (Ok (), c2)"
    "awaits c2 []" "last_response c2 (Message OK [])" "same_output c1 c2" "c_sent c2 = c_sent c1 @ [p]"
    using request_stale [OF c1(2,3) enc(2)] by blast
  obtain c3 where c3: "request_ok ''SET'' (Message SET [table, key]) c2 = (Ok (), c3)"
    "same_output c2 c3" "c_sent c3 = c_sent c2 @ [s]"
    using request_stale [OF c2(2,3) enc(3)] by blast
  show ?thesis
    using fd c1 c2 c3
    by (simp add: set_value_main_def run_client_def set_value_session_def send_bye close_client_def same_output_def)
qed

section \<open>The server, taking the lines of a client\<close>

text \<open>The line of a valid request, put in a buffer, is that request.\<close>

lemma admitted_line:
  assumes "is_valid req" "encode req = Inr s" "nul \<notin> set s"
    and "get_message_type req = LOGIN \<or> get_message_type req = BYE \<or> m_logged_in (conn w)"
  shows "admitted s w = Some req"
  using assms decode_encode [OF assms(1,2)] by (auto simp: admitted_def c_str_id)

lemma turn_line:
  assumes "admitted s w = Some req" "dispatch i req w = (Ok b, w')"
  shows "chat_iteration i s w = (Ok b, w')"
  using iteration_Ok(1) admitted_body [OF assms(1)] assms(2) by simp

lemma chat_step:
  assumes "chat_iteration i s w = (Ok True, w')"
  shows "chat_with_client i (s # ss) w = chat_with_client i ss w'"
  using assms by (simp add: bind_case)

lemma chat_last:
  assumes "chat_iteration i s w = (Ok False, w')"
  shows "chat_with_client i (s # ss) w = (Ok (), w')"
  using assms by (simp add: bind_case basic_runs)

definition logged_in :: "world \<Rightarrow> world" where
  "logged_in w = say ok_line (upd_conn (\<lambda>c. c\<lparr>m_logged_in := True\<rparr>) w)"

lemma dispatch_runs:
  "\<not> m_logged_in (conn w) \<Longrightarrow> dispatch i (Message LOGIN [u]) w = (Ok True, logged_in w)"
  "dispatch i (Message PUSH [v]) w = (Ok True, say ok_line (push_value v w))"
  "dispatch i (Message BYE []) w = (Ok False, say ok_line w)"
  "operands w = v # vs \<Longrightarrow> sendable v \<Longrightarrow>
    dispatch i (Message TOP []) w = (Ok True, say (data_bytes v) w)"
  by (simp_all add: dispatch_def seq_run basic_runs handle_login_run handle_push_run handle_bye_run
      handle_top_run logged_in_def get_value_def send_message_run data_response)

lemma dispatch_get_run:
  assumes "conn_inv i w" "\<not> m_in_transaction (conn w)" "smap_find n (set_of_table (srv w)) = Some a"
    "table_mutex (table_at a (srv w)) = None" "view (table_at a (srv w)) k = Some v"
  shows "dispatch i (Message GET [n, k]) w = (Ok True, say ok_line (push_value v w))"
  using assms handle_get_run [OF assms(1), of "Message GET [n, k]" n k]
  by (simp add: dispatch_def seq_run basic_runs get_table_def get_key_def)

lemma dispatch_set_run:
  assumes "conn_inv i w" "\<not> m_in_transaction (conn w)" "smap_find n (set_of_table (srv w)) = Some a"
    "table_mutex (table_at a (srv w)) = None" "operands w = v # vs"
  shows "dispatch i (Message SET [n, k]) w =
    (Ok True, say ok_line (upd_table a (\<lambda>t. commit_changes (table_set k v t)) (drop_value w)))"
  using assms handle_set_run [OF assms(1), of "Message SET [n, k]" n k]
  by (simp add: dispatch_def seq_run basic_runs get_table_def get_key_def)

lemma new_world:
  "srv (world_new s fd) = s" "operands (world_new s fd) = []" "wire (world_new s fd) = []"
  "\<not> m_logged_in (conn (world_new s fd))" "\<not> m_in_transaction (conn (world_new s fd))"
  "locked_tables (conn (world_new s fd)) = []"
  by (simp_all add: world_new_def connection_new_def operands_def vs_new_def vs_contents_def)

lemma new_world_inv:
  "server_wf s \<Longrightarrow> \<forall>a. valid_ptr a s \<longrightarrow> table_mutex (table_at a s) \<noteq> Some i \<Longrightarrow> conn_inv i (world_new s fd)"
  by (simp add: conn_inv_def new_world)

lemma logged_in_sel [simp]:
  "srv (logged_in w) = srv w" "operands (logged_in w) = operands w" "wire (logged_in w) = wire w @ ok_line"
  "m_logged_in (conn (logged_in w))" "m_in_transaction (conn (logged_in w)) = m_in_transaction (conn w)"
  "locked_tables (conn (logged_in w)) = locked_tables (conn w)"
  by (simp_all add: logged_in_def operands_def)

lemma logged_in_inv [simp]: "conn_inv i (logged_in w) = conn_inv i w"
  by (rule conn_inv_cong) simp_all

lemma encoded_nul: "encode msg = Inr s \<Longrightarrow> \<forall>a \<in> set (m_args msg). nul \<notin> set a \<Longrightarrow> nul \<notin> set s"
  using args_str_set [of "m_args msg"]
  by (cases "m_message_type msg") (auto simp: encode_Inr message_line_def)

section \<open>get_value and set_value, end to end\<close>

lemma get_session:
  assumes wf: "server_wf s" and i: "\<forall>a. valid_ptr a s \<longrightarrow> table_mutex (table_at a s) \<noteq> Some i"
    and tab: "smap_find n (set_of_table s) = Some a" "table_mutex (table_at a s) = None"
      "view (table_at a s) k = Some v"
    and names: "is_identifier u" "is_identifier n" "is_identifier k" and v: "sendable v"
    and enc: "encode (Message LOGIN [u]) = Inr l" "encode (Message GET [n, k]) = Inr g"
  shows "\<exists>w'. chat_with_client i [l, g, ''TOP'' @ [newline], ''BYE'' @ [newline]] (world_new s fd) = (Ok (), w')
    \<and> srv w' = s \<and> wire w' = ok_bytes @ ok_bytes @ data_bytes v @ ok_bytes"
proof -
  let ?w0 = "world_new s fd" and ?w1 = "logged_in (world_new s fd)"
  let ?w2 = "say ok_line (push_value v ?w1)" and ?w3 = "say (data_bytes v) (say ok_line (push_value v ?w1))"
  have inv: "conn_inv i ?w1"
    using new_world_inv [OF wf i] by simp
  have "nul \<notin> set l" "nul \<notin> set g"
    using encoded_nul [OF enc(1)] encoded_nul [OF enc(2)] names identifier_no_nul by simp_all
  then have adm: "admitted l ?w0 = Some (Message LOGIN [u])" "admitted g ?w1 = Some (Message GET [n, k])"
    "admitted (''TOP'' @ [newline]) ?w2 = Some (Message TOP [])"
    "admitted (''BYE'' @ [newline]) ?w3 = Some (Message BYE [])"
    using names enc
    by (auto intro!: admitted_line simp: is_valid.simps args_identifier1_def args_identifier2_def
        encode_def MAX_ENCODED_LEN_def)
  have t1: "chat_iteration i l ?w0 = (Ok True, ?w1)"
    using turn_line [OF adm(1) dispatch_runs(1)] by (simp add: new_world)
  have t2: "chat_iteration i g ?w1 = (Ok True, ?w2)"
    using tab by (intro turn_line [OF adm(2)] dispatch_get_run [OF inv]) (simp_all add: new_world)
  have t3: "chat_iteration i (''TOP'' @ [newline]) ?w2 = (Ok True, ?w3)"
    using v by (intro turn_line [OF adm(3)] dispatch_runs(4)) simp_all
  have t4: "chat_iteration i (''BYE'' @ [newline]) ?w3 = (Ok False, say ok_line ?w3)"
    by (intro turn_line [OF adm(4)] dispatch_runs(3))
  show ?thesis
    unfolding chat_step [OF t1] chat_step [OF t2] chat_step [OF t3] chat_last [OF t4]
    by (simp add: new_world ok_line_def)
qed

lemma set_session:
  assumes wf: "server_wf s" and i: "\<forall>a. valid_ptr a s \<longrightarrow> table_mutex (table_at a s) \<noteq> Some i"
    and tab: "smap_find n (set_of_table s) = Some a" "table_mutex (table_at a s) = None"
    and names: "is_identifier u" "is_identifier n" "is_identifier k" and v: "sendable v"
    and enc: "encode (Message LOGIN [u]) = Inr l" "encode (Message PUSH [v]) = Inr p"
      "encode (Message SET [n, k]) = Inr g"
  shows "\<exists>w'. chat_with_client i [l, p, g, ''BYE'' @ [newline]] (world_new s fd) = (Ok (), w')
    \<and> srv w' = put_table a (commit_changes (table_set k v (table_at a s))) s
    \<and> wire w' = ok_bytes @ ok_bytes @ ok_bytes @ ok_bytes"
proof -
  let ?w0 = "world_new s fd" and ?w1 = "logged_in (world_new s fd)"
  let ?w2 = "say ok_line (push_value v ?w1)"
  let ?w3 = "say ok_line (upd_table a (\<lambda>t. commit_changes (table_set k v t)) (drop_value ?w2))"
  have inv: "conn_inv i ?w2"
    using new_world_inv [OF wf i] by simp
  have nul: "nul \<notin> set l" "nul \<notin> set p" "nul \<notin> set g"
    using encoded_nul [OF enc(1)] encoded_nul [OF enc(2)] encoded_nul [OF enc(3)] names v identifier_no_nul
    by (simp_all add: sendable_def)
  then have adm: "admitted l ?w0 = Some (Message LOGIN [u])" "admitted p ?w1 = Some (Message PUSH [v])"
    "admitted g ?w2 = Some (Message SET [n, k])" "admitted (''BYE'' @ [newline]) ?w3 = Some (Message BYE [])"
    using names enc v
    by (auto intro!: admitted_line simp: is_valid.simps args_identifier1_def args_identifier2_def
        args_value1_def sendable_def encode_def MAX_ENCODED_LEN_def)
  have t1: "chat_iteration i l ?w0 = (Ok True, ?w1)"
    using turn_line [OF adm(1) dispatch_runs(1)] by (simp add: new_world)
  have t2: "chat_iteration i p ?w1 = (Ok True, ?w2)"
    by (intro turn_line [OF adm(2)] dispatch_runs(2))
  have t3: "chat_iteration i g ?w2 = (Ok True, ?w3)"
    using tab by (intro turn_line [OF adm(3)] dispatch_set_run [OF inv, where vs = "[]"]) (simp_all add: new_world)
  have t4: "chat_iteration i (''BYE'' @ [newline]) ?w3 = (Ok False, say ok_line ?w3)"
    by (intro turn_line [OF adm(4)] dispatch_runs(3))
  show ?thesis
    unfolding chat_step [OF t1] chat_step [OF t2] chat_step [OF t3] chat_last [OF t4]
    by (simp add: new_world ok_line_def)
qed

end
