(* ===== verification/Increment.thy ===== *)
theory Increment
  imports EndToEnd
begin

text \<open>
  \<^verbatim>\<open>incr_value\<close> against the server, with and without \<^verbatim>\<open>-t\<close>: the requests it sends, and what a session
  of the server makes of them.
\<close>

section \<open>The program, when the server answers\<close>

definition ok_responses :: "bool \<Rightarrow> string" where
  "ok_responses use_transaction = ok_bytes @ (if use_transaction then ok_bytes else [])
     @ ok_bytes @ ok_bytes @ ok_bytes @ ok_bytes @ (if use_transaction then ok_bytes else [])"

definition incr_lines :: "bool \<Rightarrow> string \<Rightarrow> string \<Rightarrow> string \<Rightarrow> string list" where
  "incr_lines use_transaction l g p = [l] @ (if use_transaction then [''BEGIN'' @ [newline]] else [])
     @ [g, ''PUSH 1'' @ [newline], ''ADD'' @ [newline], p]
     @ (if use_transaction then [''COMMIT'' @ [newline]] else []) @ [''BYE'' @ [newline]]"

lemma incr_lines_cases:
  "incr_lines False l g p = [l, g, ''PUSH 1'' @ [newline], ''ADD'' @ [newline], p, ''BYE'' @ [newline]]"
  "incr_lines True l g p = [l, ''BEGIN'' @ [newline], g, ''PUSH 1'' @ [newline], ''ADD'' @ [newline], p,
     ''COMMIT'' @ [newline], ''BYE'' @ [newline]]"
  by (simp_all add: incr_lines_def)

lemma encode_words:
  "encode (Message BEGIN []) = Inr (''BEGIN'' @ [newline])"
  "encode (Message COMMIT []) = Inr (''COMMIT'' @ [newline])"
  "encode (Message ADD []) = Inr (''ADD'' @ [newline])"
  "encode (Message PUSH [''1'']) = Inr (''PUSH 1'' @ [newline])"
  "encode (Message BYE []) = Inr (''BYE'' @ [newline])"
  by (simp_all add: encode_def MAX_ENCODED_LEN_def)

text \<open>A request that is made in a transaction only.\<close>

lemma optional_answered:
  assumes "awaits c ((if t then ok_bytes else []) @ rest)" "encode req = Inr s"
  shows "\<exists>c'. (if t then request_ok what req else ret ()) c = (Ok (), c') \<and> awaits c' rest
    \<and> same_output c c' \<and> c_sent c' = c_sent c @ (if t then [s] else [])"
  using request_answered [of c rest req s what] assms by (cases t) (auto simp: same_output_def)

lemma incr_value_answered:
  assumes aw: "awaits c (ok_responses t @ rest)" and fd: "0 \<le> fd"
    and enc: "encode (Message LOGIN [username]) = Inr l" "encode (Message GET [table, key]) = Inr g"
      "encode (Message SET [table, key]) = Inr s"
  shows "\<exists>c'. incr_value_main (prog # (if t then [''-t''] else []) @ [hostname, port, username, table, key]) fd c
      = (Ok 0, c')
    \<and> c_out c' = c_out c \<and> c_err c' = c_err c \<and> c_sent c' = c_sent c @ incr_lines t l g s"
proof -
  let ?opt = "if t then ok_bytes else []"
  obtain c1 where c1: "request_ok ''LOGIN'' (Message LOGIN [username]) c = (Ok (), c1)"
    "awaits c1 (?opt @ ok_bytes @ ok_bytes @ ok_bytes @ ok_bytes @ ?opt @ rest)"
    "same_output c c1" "c_sent c1 = c_sent c @ [l]"
    using request_answered [of c "?opt @ ok_bytes @ ok_bytes @ ok_bytes @ ok_bytes @ ?opt @ rest" _ l "''LOGIN''"]
      aw enc(1) unfolding ok_responses_def by auto
  obtain c2 where c2: "(if t then request_ok ''BEGIN'' (Message BEGIN []) else ret ()) c1 = (Ok (), c2)"
    "awaits c2 (ok_bytes @ ok_bytes @ ok_bytes @ ok_bytes @ ?opt @ rest)"
    "same_output c1 c2" "c_sent c2 = c_sent c1 @ (if t then [''BEGIN'' @ [newline]] else [])"
    using optional_answered [OF c1(2) encode_words(1)] by blast
  obtain c3 where c3: "request_ok ''GET'' (Message GET [table, key]) c2 = (Ok (), c3)"
    "awaits c3 (ok_bytes @ ok_bytes @ ok_bytes @ ?opt @ rest)" "same_output c2 c3" "c_sent c3 = c_sent c2 @ [g]"
    using request_answered [of c2 "ok_bytes @ ok_bytes @ ok_bytes @ ?opt @ rest" _ g] c2(2) enc(2) by auto
  obtain c4 where c4: "request_ok ''PUSH'' (Message PUSH [''1'']) c3 = (Ok (), c4)"
    "awaits c4 (ok_bytes @ ok_bytes @ ?opt @ rest)" "same_output c3 c4"
    "c_sent c4 = c_sent c3 @ [''PUSH 1'' @ [newline]]"
    using request_answered [OF _ encode_words(4), of c3 "ok_bytes @ ok_bytes @ ?opt @ rest"] c3(2) by auto
  obtain c5 where c5: "request_ok ''ADD'' (Message ADD []) c4 = (Ok (), c5)"
    "awaits c5 (ok_bytes @ ?opt @ rest)" "same_output c4 c5" "c_sent c5 = c_sent c4 @ [''ADD'' @ [newline]]"
    using request_answered [OF _ encode_words(3), of c4 "ok_bytes @ ?opt @ rest"] c4(2) by auto
  obtain c6 where c6: "request_ok ''SET'' (Message SET [table, key]) c5 = (Ok (), c6)"
    "awaits c6 (?opt @ rest)" "same_output c5 c6" "c_sent c6 = c_sent c5 @ [s]"
    using request_answered [of c5 "?opt @ rest" _ s] c5(2) enc(3) by auto
  obtain c7 where c7: "(if t then request_ok ''COMMIT'' (Message COMMIT []) else ret ()) c6 = (Ok (), c7)"
    "same_output c6 c7" "c_sent c7 = c_sent c6 @ (if t then [''COMMIT'' @ [newline]] else [])"
    using optional_answered [OF c6(2) encode_words(2)] by blast
  have "incr_value_session t username table key c =
      (Ok (), c7\<lparr>c_sent := c_sent c7 @ [''BYE'' @ [newline]]\<rparr>)"
    using c1(1) c2(1) c3(1) c4(1) c5(1) c6(1) c7(1) by (simp add: incr_value_session_def send_bye)
  moreover have "incr_value_main (prog # (if t then [''-t''] else []) @ [hostname, port, username, table, key]) fd =
      run_client fd (incr_value_session t username table key)"
    by (simp add: incr_value_main_def)
  ultimately show ?thesis
    using fd c1(3,4) c2(3,4) c3(3,4) c4(3,4) c5(3,4) c6(3,4) c7(2,3)
    by (simp add: run_client_def same_output_def incr_lines_def)
qed

section \<open>The server, taking the lines of the program\<close>

lemma dispatch_add_run:
  assumes "operands w = r # v # vs" "stoi v = Inr x" "stoi r = Inr y" "c_add x y = Some z"
  shows "dispatch i (Message ADD []) w =
    (Ok True, say ok_line (push_value (int_to_string z) (drop_value (drop_value w))))"
  using assms by (simp add: dispatch_def seq_run basic_runs handle_add_def binary_operation_run [OF assms(1)]
      Let_def of_option_run)

lemma dispatch_begin_run:
  "\<not> m_in_transaction (conn w) \<Longrightarrow>
   dispatch i (Message BEGIN []) w = (Ok True, say ok_line (upd_conn (\<lambda>c. c\<lparr>m_in_transaction := True\<rparr>) w))"
  by (simp add: dispatch_def seq_run basic_runs handle_begin_run)

lemma dispatch_commit_run:
  "conn_inv i w \<Longrightarrow> m_in_transaction (conn w) \<Longrightarrow>
   dispatch i (Message COMMIT []) w = (Ok True, say ok_line (commit_world w))"
  by (simp add: dispatch_def seq_run basic_runs handle_commit_run)

lemma dispatch_txn_get_run:
  assumes "conn_inv i w" "m_in_transaction (conn w)" "smap_find n (set_of_table (srv w)) = Some a"
    "lock_step i a w = Some w'" "view (table_at a (srv w)) k = Some v"
  shows "dispatch i (Message GET [n, k]) w = (Ok True, say ok_line (push_value v w'))"
  using assms handle_get_run [OF assms(1), of "Message GET [n, k]" n k]
  by (simp add: dispatch_def seq_run basic_runs get_table_def get_key_def)

lemma dispatch_txn_set_run:
  assumes "conn_inv i w" "m_in_transaction (conn w)" "smap_find n (set_of_table (srv w)) = Some a"
    "lock_step i a (drop_value w) = Some w'" "operands w = v # vs"
  shows "dispatch i (Message SET [n, k]) w = (Ok True, say ok_line (upd_table a (table_set k v) w'))"
  using assms handle_set_run [OF assms(1), of "Message SET [n, k]" n k]
  by (simp add: dispatch_def seq_run basic_runs get_table_def get_key_def)

lemma commit_one: "locked_tables (conn w) = [a] \<Longrightarrow> srv (commit_world w) =
    put_table a ((commit_changes (table_at a (srv w)))\<lparr>table_mutex := None\<rparr>) (srv w)"
  by (simp add: commit_world_def upd_table_def)

lemma turn_keeps_inv: "chat_iteration i buf w = (r, w') \<Longrightarrow> conn_inv i w \<Longrightarrow> conn_inv i w'"
  using chat_iteration_ok [of i w buf] by (simp add: step_ok_def)

lemma one_value: "is_value ''1''" "nul \<notin> set ''1''"
  by code_simp+

text \<open>The lines of the program are admitted, whatever the session has done since the LOGIN.\<close>

lemma lines_admitted:
  assumes names: "is_identifier u" "is_identifier n" "is_identifier k"
    and enc: "encode (Message LOGIN [u]) = Inr l" "encode (Message GET [n, k]) = Inr g"
      "encode (Message SET [n, k]) = Inr p"
  shows "admitted l w = Some (Message LOGIN [u])"
    and "m_logged_in (conn w) \<Longrightarrow> admitted g w = Some (Message GET [n, k])"
    and "m_logged_in (conn w) \<Longrightarrow> admitted p w = Some (Message SET [n, k])"
    and "m_logged_in (conn w) \<Longrightarrow> admitted (''PUSH 1'' @ [newline]) w = Some (Message PUSH [''1''])"
    and "m_logged_in (conn w) \<Longrightarrow> admitted (''ADD'' @ [newline]) w = Some (Message ADD [])"
    and "m_logged_in (conn w) \<Longrightarrow> admitted (''BEGIN'' @ [newline]) w = Some (Message BEGIN [])"
    and "m_logged_in (conn w) \<Longrightarrow> admitted (''COMMIT'' @ [newline]) w = Some (Message COMMIT [])"
    and "admitted (''BYE'' @ [newline]) w = Some (Message BYE [])"
proof -
  have nul: "nul \<notin> set l" "nul \<notin> set g" "nul \<notin> set p"
    using encoded_nul [OF enc(1)] encoded_nul [OF enc(2)] encoded_nul [OF enc(3)] names identifier_no_nul
    by simp_all
  note valid = is_valid.simps args_identifier1_def args_identifier2_def args_value1_def
  show "admitted l w = Some (Message LOGIN [u])"
    using names enc(1) nul(1) by (intro admitted_line) (simp_all add: valid)
  show "admitted (''BYE'' @ [newline]) w = Some (Message BYE [])"
    by (intro admitted_line encode_words) (simp_all add: valid)
  assume "m_logged_in (conn w)"
  then show "admitted g w = Some (Message GET [n, k])" "admitted p w = Some (Message SET [n, k])"
      "admitted (''PUSH 1'' @ [newline]) w = Some (Message PUSH [''1''])"
      "admitted (''ADD'' @ [newline]) w = Some (Message ADD [])"
      "admitted (''BEGIN'' @ [newline]) w = Some (Message BEGIN [])"
      "admitted (''COMMIT'' @ [newline]) w = Some (Message COMMIT [])"
    using names enc(2,3) nul(2,3) one_value by (auto intro!: admitted_line simp: valid encode_words)
qed

text \<open>Outside a transaction GET and SET are two statements of their own.\<close>

lemma plain_session:
  assumes wf: "server_wf s" and i: "\<forall>a. valid_ptr a s \<longrightarrow> table_mutex (table_at a s) \<noteq> Some i"
    and tab: "smap_find n (set_of_table s) = Some a" "table_mutex (table_at a s) = None"
      "view (table_at a s) k = Some v"
    and sum: "stoi v = Inr x" "c_add x 1 = Some y"
    and adm: "is_identifier u" "is_identifier n" "is_identifier k"
      "encode (Message LOGIN [u]) = Inr l" "encode (Message GET [n, k]) = Inr g" "encode (Message SET [n, k]) = Inr p"
  shows "\<exists>w'. chat_with_client i (incr_lines False l g p) (world_new s fd) = (Ok (), w')
    \<and> srv w' = put_table a (commit_changes (table_set k (int_to_string y) (table_at a s))) s
    \<and> wire w' = ok_responses False @ ok_bytes"
proof -
  note lines = lines_admitted [OF adm]
  let ?w0 = "world_new s fd" and ?w1 = "logged_in (world_new s fd)"
  let ?w2 = "say ok_line (push_value v ?w1)"
  let ?w3 = "say ok_line (push_value ''1'' ?w2)"
  let ?w4 = "say ok_line (push_value (int_to_string y) (drop_value (drop_value ?w3)))"
  let ?w5 = "say ok_line (upd_table a (\<lambda>t. commit_changes (table_set k (int_to_string y) t)) (drop_value ?w4))"
  have inv: "conn_inv i ?w1" "conn_inv i ?w4"
    using new_world_inv [OF wf i] by simp_all
  have one: "stoi ''1'' = Inr 1"
    by code_simp
  have t1: "chat_iteration i l ?w0 = (Ok True, ?w1)"
    using turn_line [OF lines(1) dispatch_runs(1)] by (simp add: new_world)
  have t2: "chat_iteration i g ?w1 = (Ok True, ?w2)"
    using tab by (intro turn_line [OF lines(2)] dispatch_get_run [OF inv(1)]) (simp_all add: new_world)
  have t3: "chat_iteration i (''PUSH 1'' @ [newline]) ?w2 = (Ok True, ?w3)"
    by (intro turn_line [OF lines(4)] dispatch_runs(2)) simp
  have t4: "chat_iteration i (''ADD'' @ [newline]) ?w3 = (Ok True, ?w4)"
    using sum one by (intro turn_line [OF lines(5)] dispatch_add_run [where vs = "[]"]) (simp_all add: new_world)
  have t5: "chat_iteration i p ?w4 = (Ok True, ?w5)"
    using tab by (intro turn_line [OF lines(3)] dispatch_set_run [OF inv(2), where vs = "[]"]) (simp_all add: new_world)
  have t6: "chat_iteration i (''BYE'' @ [newline]) ?w5 = (Ok False, say ok_line ?w5)"
    by (intro turn_line [OF lines(8)] dispatch_runs(3))
  show ?thesis
    unfolding incr_lines_cases chat_step [OF t1] chat_step [OF t2] chat_step [OF t3] chat_step [OF t4] chat_step [OF t5] chat_last [OF t6]
    by (simp add: new_world ok_line_def ok_responses_def)
qed

text \<open>In a transaction the table is locked by GET, changed by SET and released by COMMIT.\<close>

lemma txn_session:
  assumes wf: "server_wf s" and i: "\<forall>a. valid_ptr a s \<longrightarrow> table_mutex (table_at a s) \<noteq> Some i"
    and tab: "smap_find n (set_of_table s) = Some a" "table_mutex (table_at a s) = None"
      "view (table_at a s) k = Some v"
    and sum: "stoi v = Inr x" "c_add x 1 = Some y"
    and adm: "is_identifier u" "is_identifier n" "is_identifier k"
      "encode (Message LOGIN [u]) = Inr l" "encode (Message GET [n, k]) = Inr g" "encode (Message SET [n, k]) = Inr p"
  shows "\<exists>w'. chat_with_client i (incr_lines True l g p) (world_new s fd) = (Ok (), w')
    \<and> srv w' = put_table a (commit_changes (table_set k (int_to_string y) (table_at a s))) s
    \<and> wire w' = ok_responses True @ ok_bytes"
proof -
  note lines = lines_admitted [OF adm]
  note ptr = server_wfD(3) [OF wf tab(1)]
  let ?w0 = "world_new s fd" and ?w1 = "logged_in (world_new s fd)"
  let ?wb = "say ok_line (upd_conn (\<lambda>c. c\<lparr>m_in_transaction := True\<rparr>) ?w1)"
  let ?w2 = "say ok_line (push_value v (acquire i a ?wb))"
  let ?w3 = "say ok_line (push_value ''1'' ?w2)"
  let ?w4 = "say ok_line (push_value (int_to_string y) (drop_value (drop_value ?w3)))"
  let ?w5 = "say ok_line (upd_table a (table_set k (int_to_string y)) (drop_value ?w4))"
  let ?w6 = "say ok_line (commit_world ?w5)"
  have one: "stoi ''1'' = Inr 1"
    by code_simp
  have inv1: "conn_inv i ?w1"
    using new_world_inv [OF wf i] by simp
  have t1: "chat_iteration i l ?w0 = (Ok True, ?w1)"
    using turn_line [OF lines(1) dispatch_runs(1)] by (simp add: new_world)
  have tb: "chat_iteration i (''BEGIN'' @ [newline]) ?w1 = (Ok True, ?wb)"
    by (intro turn_line [OF lines(6)] dispatch_begin_run) (simp_all add: new_world)
  note invb = turn_keeps_inv [OF tb inv1]
  have t2: "chat_iteration i g ?wb = (Ok True, ?w2)"
    using tab by (intro turn_line [OF lines(2)] dispatch_txn_get_run [OF invb])
      (simp_all add: new_world lock_step_def)
  have t3: "chat_iteration i (''PUSH 1'' @ [newline]) ?w2 = (Ok True, ?w3)"
    by (intro turn_line [OF lines(4)] dispatch_runs(2)) simp
  have none: "operands ?wb = []"
    by (simp add: operands_def) (simp add: operands_def [symmetric] new_world)
  then have t4: "chat_iteration i (''ADD'' @ [newline]) ?w3 = (Ok True, ?w4)"
    using sum one by (intro turn_line [OF lines(5)] dispatch_add_run [where vs = "[]"]) simp_all
  note inv4 = turn_keeps_inv [OF t4 turn_keeps_inv [OF t3 turn_keeps_inv [OF t2 invb]]]
  have t5: "chat_iteration i p ?w4 = (Ok True, ?w5)"
    using tab none by (intro turn_line [OF lines(3)] dispatch_txn_set_run [OF inv4, where vs = "[]"])
      (simp_all add: new_world lock_step_def set_insort_insert)
  have tc: "chat_iteration i (''COMMIT'' @ [newline]) ?w5 = (Ok True, ?w6)"
    by (intro turn_line [OF lines(7)] dispatch_commit_run turn_keeps_inv [OF t5 inv4]) simp_all
  have t6: "chat_iteration i (''BYE'' @ [newline]) ?w6 = (Ok False, say ok_line ?w6)"
    by (intro turn_line [OF lines(8)] dispatch_runs(3))
  have lk: "locked_tables (conn ?w5) = [a]"
    by (simp add: new_world insort_insert_key_def)
  have "srv ?w6 = put_table a ((commit_changes (table_set k (int_to_string y)
      ((table_at a s)\<lparr>table_mutex := Some i\<rparr>)))\<lparr>table_mutex := None\<rparr>) s"
    using ptr commit_one [OF lk] by (simp add: new_world)
  also have "\<dots> = put_table a (commit_changes (table_set k (int_to_string y) (table_at a s))) s"
    using tab(2) by (simp add: table_ops_mutex table_mutex_same)
  finally have srv6: "srv ?w6 = \<dots>" .
  have "wire ?w6 = ok_responses True"
    by (simp add: commit_world_def new_world ok_line_def ok_responses_def)
  with srv6 show ?thesis
    unfolding incr_lines_cases chat_step [OF t1] chat_step [OF tb] chat_step [OF t2] chat_step [OF t3] chat_step [OF t4] chat_step [OF t5]
      chat_step [OF tc] chat_last [OF t6]
    by (simp add: ok_line_def)
qed

lemma incr_session:
  assumes "server_wf s" "\<forall>a. valid_ptr a s \<longrightarrow> table_mutex (table_at a s) \<noteq> Some i"
    and "smap_find n (set_of_table s) = Some a" "table_mutex (table_at a s) = None"
      "view (table_at a s) k = Some v" "stoi v = Inr x" "c_add x 1 = Some y"
    and "is_identifier u" "is_identifier n" "is_identifier k"
      "encode (Message LOGIN [u]) = Inr l" "encode (Message GET [n, k]) = Inr g" "encode (Message SET [n, k]) = Inr p"
  shows "\<exists>w'. chat_with_client i (incr_lines t l g p) (world_new s fd) = (Ok (), w')
    \<and> srv w' = put_table a (commit_changes (table_set k (int_to_string y) (table_at a s))) s
    \<and> wire w' = ok_responses t @ ok_bytes"
  using plain_session [OF assms] txn_session [OF assms] by (cases t) simp_all

end
