(* ===== verification/Online.thy ===== *)
theory Online
  imports NetDemo Increment
begin

text \<open>
  Whole sessions over the sockets: a conversation of \<open>chat_with_client\<close>, which takes the lines one by
  one, is a run of the network on the bytes, with the turns cut into the steps of the threads.  So
  what is proved of a client against a session holds of a client against the server at its sockets.
\<close>

section \<open>One turn\<close>

text \<open>A turn looks at its buffer up to the first NUL only.\<close>

lemma iteration_c_str: "chat_iteration i buf w = chat_iteration i (c_str buf) w"
proof -
  have "c_str (c_str buf) = c_str buf"
    by (rule c_str_id) simp
  then show ?thesis
    by (simp add: chat_iteration_def chat_body_def)
qed

text \<open>A session in good order: nothing has failed on its socket, and its lines are still to come.\<close>

definition online :: "tid \<Rightarrow> string list \<Rightarrow> network \<Rightarrow> bool" where
  "online i ss N \<longleftrightarrow> net_reachable N \<and> \<not> n_sigpipe N \<and> known i N \<and> all_received i N \<and> feeds ss (n_peers N i)"

lemma online_step:
  assumes "online i ss N" "net_step N e N'" "net_tid e = Some i" "feeds ss' (n_peers N' i)"
  shows "online i ss' N'"
proof -
  have good: "good_out (p_out (n_peers N i))"
    using assms(1) by (simp add: online_def all_received_def)
  have "\<not> n_sigpipe N'"
  proof
    assume "n_sigpipe N'"
    then have "Broken_pipe \<in> set (p_out (n_peers N i))"
      using signal_from_gone_peer [OF assms(2)] assms(3) by auto
    then show False
      using good by (auto simp: good_out_def)
  qed
  then show ?thesis
    using assms all_received_step known_step net_reachable.step unfolding online_def by blast
qed

lemma online_run:
  assumes "online i ss N" "exec_th (Th_run i) (n_threads N) = Some T'"
  shows "\<exists>N'. net_step N (Net_run i) N' \<and> n_threads N' = T' \<and> online i ss N'"
proof -
  have "net_step N (Net_run i) (after_step i N T')"
    using assms by (auto simp: online_def net_run_iff exec_th_step [symmetric] simp del: exec_th.simps)
  moreover have "feeds ss (n_peers (after_step i N T') i)"
    using assms(1) by (simp add: online_def feeds_def after_step_def deliver_in)
  ultimately show ?thesis
    using online_step [OF assms(1)] by (intro exI [of _ "after_step i N T'"]) (simp add: net_tid_def)
qed

lemma online_runs:
  "online i ss N \<Longrightarrow> run_th (replicate n (Th_run i)) (n_threads N) = Some T' \<Longrightarrow>
    \<exists>N'. run_net (replicate n (Net_run i)) N = Some N' \<and> n_threads N' = T' \<and> online i ss N'"
proof (induction n arbitrary: N)
  case (Suc n)
  then obtain T1 where T1: "exec_th (Th_run i) (n_threads N) = Some T1" "run_th (replicate n (Th_run i)) T1 = Some T'"
    by (auto simp: bind_eq_Some_conv simp del: exec_th.simps)
  obtain N1 where N1: "net_step N (Net_run i) N1" "n_threads N1 = T1" "online i ss N1"
    using online_run [OF Suc.prems(1) T1(1)] by blast
  then obtain N' where "run_net (replicate n (Net_run i)) N1 = Some N'" "n_threads N' = T'" "online i ss N'"
    using Suc.IH [OF N1(3)] T1(2) by auto
  then show ?case
    using N1(1) unfolding replicate.simps run_net_Cons by blast
qed simp

text \<open>\<^verbatim>\<open>rio_readlineb\<close>, and the steps that follow it.\<close>

lemma online_turn:
  assumes on: "online i ss N" and fit: "lines_fit ss"
    and r: "rio_readlineb (m_fdbuf (n_peers N i)) [] MAX_ENCODED_LEN (p_in (n_peers N i)) = (n, buf, rio, inp)"
    and T: "run_th ((if n \<le> 0 then Th_eof i else Th_line i buf) # replicate k (Th_run i)) (n_threads N) = Some T'"
  shows "\<exists>N'. run_net (Net_turn i [] # replicate k (Net_run i)) N = Some N' \<and> n_threads N' = T' \<and> online i (tl ss) N'"
proof -
  let ?N = "N\<lparr>n_peers := (n_peers N)(i := (n_peers N i)\<lparr>m_fdbuf := rio, p_in := inp\<rparr>)\<rparr>"
  obtain T1 where T1: "exec_th (if n \<le> 0 then Th_eof i else Th_line i buf) (n_threads N) = Some T1"
    "run_th (replicate k (Th_run i)) T1 = Some T'"
    using T by (auto simp: bind_eq_Some_conv simp del: exec_th.simps)
  have "feeds ss (n_peers N i)" "\<not> n_sigpipe N"
    using on by (simp_all add: online_def)
  then have "exec_net (Net_turn i []) N = Some (after_step i ?N T1)"
    and f: "feeds (tl ss) (n_peers (after_step i ?N T1) i)"
    using r T1(1) feeds_read [OF _ fit r] by (simp_all add: feeds_def after_step_def deliver_in del: exec_th.simps)
  then have st: "net_step N (Net_turn i []) (after_step i ?N T1)"
    by (simp only: exec_net_step)
  have "online i (tl ss) (after_step i ?N T1)"
    by (rule online_step [OF on st _ f]) (simp add: net_tid_def)
  then obtain N' where "run_net (replicate k (Net_run i)) (after_step i ?N T1) = Some N'" "n_threads N' = T'"
    "online i (tl ss) N'"
    using online_runs T1(2) after_step_threads by metis
  then show ?thesis
    using st unfolding run_net_Cons by blast
qed

section \<open>A conversation\<close>

definition its_steps :: "tid \<Rightarrow> net_event list \<Rightarrow> bool" where
  "its_steps i es \<longleftrightarrow> (\<forall>e \<in> set es. net_tid e = Some i)"

lemma its_steps_turn [simp]: "its_steps i (Net_turn i junk # replicate k (Net_run i))"
  by (auto simp: its_steps_def net_tid_def)

lemma its_steps_append [simp]: "its_steps i (es @ fs) \<longleftrightarrow> its_steps i es \<and> its_steps i fs"
  by (auto simp: its_steps_def)

lemma run_net_append: "run_net (es @ fs) N = Option.bind (run_net es N) (run_net fs)"
  by (induction es arbitrary: N) (auto split: Option.bind_split)

text \<open>One line, to the end of its turn.\<close>

lemma line_online:
  assumes on: "online i (s # ss) N" and fit: "lines_fit (s # ss)" and rest: "at_rest (n_threads N)"
    and r: "runnable i (n_threads N)" and c: "chat_iteration i s (world_of i (th_sys (n_threads N))) = (Ok active, w)"
  shows "step_ok i (world_of i (th_sys (n_threads N))) w
    \<and> (\<exists>es N'. run_net es N = Some N' \<and> its_steps i es \<and> online i ss N' \<and> at_rest (n_threads N')
    \<and> th_sys (n_threads N') = put_world i (if active then w else closed w) (th_sys (n_threads N)))"
proof -
  let ?\<sigma> = "th_sys (n_threads N)"
  have inv: "th_inv (n_threads N)"
    using net_reachable_inv(1) on by (simp add: online_def)
  note ci = at_rest_inv [OF inv rest r]
  have ok: "step_ok i (world_of i ?\<sigma>) w"
    using chat_iteration_ok [OF ci, of s] c by simp
  then have w: "conn_inv i w"
    by (simp add: step_ok_def)
  obtain n buf rio inp where rd:
    "rio_readlineb (m_fdbuf (n_peers N i)) [] MAX_ENCODED_LEN (p_in (n_peers N i)) = (n, buf, rio, inp)"
    by (rule prod_cases4)
  have n: "0 < n" "c_str buf = s"
    using feeds_read [OF _ fit rd] on by (simp_all add: online_def)
  have "exec_event (Line i buf) ?\<sigma> = Some (put_world i (if active then w else closed w) ?\<sigma>)"
    using r c iteration_c_str [of i buf] n(2) close_run [OF w] by (simp add: runnable_def client_turn_def)
  then obtain k T' where T: "run_th (Th_line i buf # replicate k (Th_run i)) (n_threads N) = Some T'"
    "th_sys T' = put_world i (if active then w else closed w) ?\<sigma>" "status (th_sys T') = Running \<longrightarrow> at_rest T'"
    using line_is_run [OF inv rest] by metis
  have "at_rest T'"
    using T(2,3) r by (simp add: runnable_def put_world_def)
  moreover obtain N' where "run_net (Net_turn i [] # replicate k (Net_run i)) N = Some N'" "n_threads N' = T'" "online i ss N'"
    using online_turn [OF on fit rd, of k T'] T(1) n(1) by auto
  ultimately show ?thesis
    using ok T(2) its_steps_turn by blast
qed

text \<open>No line is left: the read finds the end, and the connection is closed.\<close>

lemma end_online:
  assumes on: "online i [] N" and rest: "at_rest (n_threads N)" and r: "runnable i (n_threads N)"
  shows "\<exists>es N'. run_net es N = Some N' \<and> its_steps i es \<and> online i [] N' \<and> at_rest (n_threads N')
    \<and> th_sys (n_threads N') = put_world i (closed (world_of i (th_sys (n_threads N)))) (th_sys (n_threads N))"
proof -
  have inv: "th_inv (n_threads N)"
    using net_reachable_inv(1) on by (simp add: online_def)
  obtain n buf rio inp where rd:
    "rio_readlineb (m_fdbuf (n_peers N i)) [] MAX_ENCODED_LEN (p_in (n_peers N i)) = (n, buf, rio, inp)"
    by (rule prod_cases4)
  have fit: "lines_fit []"
    by (simp add: lines_fit_def)
  have n: "n \<le> 0"
    using feeds_read [OF _ fit rd] on by (simp add: online_def)
  have "exec_event (Hangup i) (th_sys (n_threads N)) =
      Some (put_world i (closed (world_of i (th_sys (n_threads N)))) (th_sys (n_threads N)))"
    using r close_run [OF at_rest_inv [OF inv rest r]] by (simp add: runnable_def)
  then obtain k T' where "run_th (Th_eof i # replicate k (Th_run i)) (n_threads N) = Some T'" "at_rest T'"
    "th_sys T' = put_world i (closed (world_of i (th_sys (n_threads N)))) (th_sys (n_threads N))"
    using hangup_is_run [OF inv rest] by metis
  moreover from this(1) obtain N' where "run_net (Net_turn i [] # replicate k (Net_run i)) N = Some N'" "n_threads N' = T'"
    "online i [] N'"
    using online_turn [OF on fit rd, of k T'] n by auto
  ultimately show ?thesis
    using its_steps_turn by blast
qed

lemma conversation_online:
  "online i ss N \<Longrightarrow> lines_fit ss \<Longrightarrow> at_rest (n_threads N) \<Longrightarrow> runnable i (n_threads N) \<Longrightarrow>
    chat_with_client i ss (world_of i (th_sys (n_threads N))) = (Ok (), w) \<Longrightarrow>
    conn_inv i w \<and> (\<exists>es N' ss'. run_net es N = Some N' \<and> its_steps i es \<and> online i ss' N' \<and> at_rest (n_threads N')
      \<and> th_sys (n_threads N') = put_world i (closed w) (th_sys (n_threads N)))"
proof (induction ss arbitrary: N)
  case Nil
  have "th_inv (n_threads N)"
    using net_reachable_inv(1) Nil.prems(1) by (simp add: online_def)
  then have "conn_inv i w"
    using at_rest_inv Nil.prems(3-5) by (auto simp: basic_runs)
  then show ?case
    using end_online [OF Nil.prems(1,3,4)] Nil.prems(5) by (auto simp: basic_runs)
next
  case (Cons s ss)
  let ?\<sigma> = "th_sys (n_threads N)"
  obtain active w1 where c: "chat_iteration i s (world_of i ?\<sigma>) = (Ok active, w1)"
    using Cons.prems(5) by (cases "chat_iteration i s (world_of i ?\<sigma>)"; cases "fst (chat_iteration i s (world_of i ?\<sigma>))")
      (auto simp: bind_run)
  obtain es N1 where N1: "run_net es N = Some N1" "its_steps i es" "online i ss N1" "at_rest (n_threads N1)"
    "th_sys (n_threads N1) = put_world i (if active then w1 else closed w1) ?\<sigma>" and ok: "step_ok i (world_of i ?\<sigma>) w1"
    using line_online [OF Cons.prems(1-4) c] by blast
  show ?case
  proof (cases active)
    case False
    then have "w1 = w"
      using chat_last [of i s _ w1 ss] c Cons.prems(5) by simp
    then show ?thesis
      using N1 False ok unfolding step_ok_def by auto
  next
    case True
    have fit: "lines_fit ss"
      using Cons.prems(2) by (simp add: lines_fit_def)
    have "runnable i (n_threads N1)"
      using N1(5) True ok Cons.prems(4) world_of_open [of i ?\<sigma>] by (simp add: runnable_def step_ok_def put_world_def live_Some)
    moreover have "chat_with_client i ss (world_of i (th_sys (n_threads N1))) = (Ok (), w)"
      using chat_step [of i s _ w1 ss] c Cons.prems(5) N1(5) True by simp
    ultimately obtain fs N' ss' where N': "conn_inv i w" "run_net fs N1 = Some N'" "its_steps i fs" "online i ss' N'"
      "at_rest (n_threads N')" "th_sys (n_threads N') = put_world i (closed w) (th_sys (n_threads N1))"
      using Cons.IH [OF N1(3) fit N1(4)] by blast
    have "run_net (es @ fs) N = Some N'" "its_steps i (es @ fs)"
      using N1(1,2) N'(2,3) by (simp_all add: run_net_append)
    moreover have "th_sys (n_threads N') = put_world i (closed w) ?\<sigma>"
      using N'(6) N1(5) True by simp
    ultimately show ?thesis
      using N'(1,4,5) by blast
  qed
qed

section \<open>A connection\<close>

text \<open>A server at rest: nobody is in the middle of a turn, though transactions may be open.\<close>

definition waiting :: "network \<Rightarrow> bool" where
  "waiting N \<longleftrightarrow> net_reachable N \<and> \<not> n_sigpipe N \<and> at_rest (n_threads N) \<and> status (th_sys (n_threads N)) = Running"

lemma accepted_online:
  assumes "waiting N" "i = next_tid (th_sys (n_threads N))" "0 \<le> fd" "\<not> in_use fd (th_sys (n_threads N))"
    and "plain inp" "incoming inp = concat ss" "good_out evs"
  shows "\<exists>N'. net_step N (Net_accept fd True junk inp evs) N' \<and> online i ss N' \<and> at_rest (n_threads N')
    \<and> runnable i (n_threads N') \<and> world_of i (th_sys (n_threads N')) = world_new (sys_srv (th_sys (n_threads N))) fd"
proof -
  let ?\<sigma> = "th_sys (n_threads N)"
  have re: "net_reachable N" "\<not> n_sigpipe N" "at_rest (n_threads N)" "status ?\<sigma> = Running"
    using assms(1) by (simp_all add: waiting_def)
  have "exec_event (Accepted fd True) ?\<sigma> = Some (accept_connection fd True ?\<sigma>)"
    using re(4) by simp
  then obtain T' where T': "exec_th (Th_accept fd True) (n_threads N) = Some T'" "th_sys T' = accept_connection fd True ?\<sigma>"
    "at_rest T'"
    using accept_is_run [OF re(3)] by blast
  then obtain N' where N': "net_step N (Net_accept fd True junk inp evs) N'" "n_threads N' = T'"
    using re(2) assms(4) by (auto simp: net_accept_iff exec_th_step [symmetric] simp del: exec_th.simps)
  note A = accept_step [OF re(1) N'(1) assms(2)]
  have w: "(world_new (sys_srv ?\<sigma>) fd)\<lparr>wire_open := True\<rparr> = world_new (sys_srv ?\<sigma>) fd"
    by (simp add: world_new_def)
  have sys: "th_sys T' = put_world i (world_new (sys_srv ?\<sigma>) fd) (?\<sigma>\<lparr>next_tid := Suc (next_tid ?\<sigma>)\<rparr>)"
    using T'(2) assms(2,3) w by (simp add: accept_eq)
  then have "known i N'" "world_of i (th_sys T') = world_new (sys_srv ?\<sigma>) fd" "runnable i T'"
    using N'(2) assms(2) re(4) by (simp_all add: known_def put_world_def world_of_def live_Some runnable_def world_new_def)
  moreover have "\<not> n_sigpipe N'"
    using N'(1) re(2) by (auto simp: net_accept_iff)
  moreover have "all_received i N'" "feeds ss (n_peers N' i)"
    using A(1,2) assms(7) feeds_new [OF assms(5,6)] by (simp_all add: all_received_def peer_new_def)
  ultimately show ?thesis
    using N' T'(3) net_reachable.step [OF re(1) N'(1)] unfolding online_def by blast
qed

text \<open>What \<open>chat_with_client\<close> does for the lines of a client, the server at its sockets does for its bytes.\<close>

lemma session_online:
  assumes "waiting N" "i = next_tid (th_sys (n_threads N))" "0 \<le> fd" "\<not> in_use fd (th_sys (n_threads N))"
    and "plain inp" "incoming inp = concat ss" "good_out evs" "lines_fit ss"
    and chat: "chat_with_client i ss (world_new (sys_srv (th_sys (n_threads N))) fd) = (Ok (), w)"
  shows "conn_inv i w \<and> (\<exists>es N'. run_net (Net_accept fd True junk inp evs # es) N = Some N' \<and> its_steps i es \<and> waiting N'
    \<and> p_got (n_peers N' i) = wire w \<and> sys_srv (th_sys (n_threads N')) = srv (abort_world w) \<and> \<not> live i (th_sys (n_threads N')))"
proof -
  obtain N1 where N1: "net_step N (Net_accept fd True junk inp evs) N1" "online i ss N1" "at_rest (n_threads N1)"
    "runnable i (n_threads N1)" "world_of i (th_sys (n_threads N1)) = world_new (sys_srv (th_sys (n_threads N))) fd"
    using accepted_online [OF assms(1-7)] by blast
  obtain es N' ss' where N': "conn_inv i w" "run_net es N1 = Some N'" "its_steps i es" "online i ss' N'"
    "at_rest (n_threads N')" "th_sys (n_threads N') = put_world i (closed w) (th_sys (n_threads N1))"
    using conversation_online [OF N1(2) assms(8) N1(3,4)] chat N1(5) by auto
  have "waiting N'" "p_got (n_peers N' i) = wire w"
    using N'(4-6) N1(4) by (simp_all add: waiting_def online_def all_received_def runnable_def put_world_def world_of_def)
  moreover have "sys_srv (th_sys (n_threads N')) = srv (abort_world w)" "\<not> live i (th_sys (n_threads N'))"
    using N'(6) by (simp_all add: put_world_def live_Some)
  ultimately show ?thesis
    using N'(1-3) N1(1) unfolding run_net_Cons by blast
qed

section \<open>Being served\<close>

text \<open>
  Whatever the pieces in which its lines arrive and its responses leave, a client that connects on
  \<open>fd\<close> and sends \<open>sent\<close> gets \<open>recv\<close>, and the server is then at rest with \<open>s\<close>.
\<close>

definition serves :: "network \<Rightarrow> int \<Rightarrow> string list \<Rightarrow> string \<Rightarrow> server \<Rightarrow> bool" where
  "serves N fd sent recv s \<longleftrightarrow> (\<forall>junk inp evs. plain inp \<and> incoming inp = concat sent \<and> good_out evs \<longrightarrow>
     (\<exists>es N'. run_net (Net_accept fd True junk inp evs # es) N = Some N' \<and> its_steps (next_tid (th_sys (n_threads N))) es
       \<and> waiting N' \<and> p_got (n_peers N' (next_tid (th_sys (n_threads N)))) = recv \<and> sys_srv (th_sys (n_threads N')) = s))"

lemma waiting_server:
  assumes "waiting N" "i = next_tid (th_sys (n_threads N))" "0 \<le> fd" "\<not> in_use fd (th_sys (n_threads N))"
  shows "server_wf (sys_srv (th_sys (n_threads N)))"
    "\<forall>a. valid_ptr a (sys_srv (th_sys (n_threads N))) \<longrightarrow> table_mutex (table_at a (sys_srv (th_sys (n_threads N)))) \<noteq> Some i"
proof -
  have empty: "plain []" "incoming [] = concat []" "good_out []"
    by (simp_all add: plain_def good_out_def)
  obtain N' where N': "online i [] N'" "at_rest (n_threads N')" "runnable i (n_threads N')"
    "world_of i (th_sys (n_threads N')) = world_new (sys_srv (th_sys (n_threads N))) fd"
    using accepted_online [OF assms empty] by blast
  have "th_inv (n_threads N')"
    using N'(1) net_reachable_inv(1) by (simp add: online_def)
  then have inv: "conn_inv i (world_new (sys_srv (th_sys (n_threads N))) fd)"
    using at_rest_inv N'(2-4) by metis
  show "server_wf (sys_srv (th_sys (n_threads N)))"
    "\<forall>a. valid_ptr a (sys_srv (th_sys (n_threads N))) \<longrightarrow> table_mutex (table_at a (sys_srv (th_sys (n_threads N)))) \<noteq> Some i"
    using conn_invD(1,5) [OF inv] by (auto simp: new_world)
qed

lemma abort_nothing:
  assumes "conn_inv i w" "\<forall>a. valid_ptr a (srv w) \<longrightarrow> table_mutex (table_at a (srv w)) \<noteq> Some i"
  shows "srv (abort_world w) = srv w"
proof -
  have "locked_tables (conn w) = []"
    using conn_invD(3,4) [OF assms(1)] assms(2) by (cases "locked_tables (conn w)") fastforce+
  then show ?thesis
    by (simp add: abort_world_def)
qed

lemma servesI:
  assumes "waiting N" "i = next_tid (th_sys (n_threads N))" "0 \<le> fd" "\<not> in_use fd (th_sys (n_threads N))"
    and "lines_fit ss" "chat_with_client i ss (world_new (sys_srv (th_sys (n_threads N))) fd) = (Ok (), w)"
    and "\<forall>a. valid_ptr a (srv w) \<longrightarrow> table_mutex (table_at a (srv w)) \<noteq> Some i"
  shows "serves N fd ss (wire w) (srv w)"
  unfolding serves_def
proof (intro allI impI)
  fix junk inp evs
  assume io: "plain inp \<and> incoming inp = concat ss \<and> good_out evs"
  have "conn_inv i w" and run: "\<exists>es N'. run_net (Net_accept fd True junk inp evs # es) N = Some N' \<and> its_steps i es
      \<and> waiting N' \<and> p_got (n_peers N' i) = wire w \<and> sys_srv (th_sys (n_threads N')) = srv (abort_world w)"
    using session_online [OF assms(1-4) _ _ _ assms(5,6)] io by blast+
  then show "\<exists>es N'. run_net (Net_accept fd True junk inp evs # es) N = Some N'
      \<and> its_steps (next_tid (th_sys (n_threads N))) es \<and> waiting N'
      \<and> p_got (n_peers N' (next_tid (th_sys (n_threads N)))) = wire w \<and> sys_srv (th_sys (n_threads N')) = srv w"
    unfolding assms(2) [symmetric] using abort_nothing [OF _ assms(7)] by metis
qed

text \<open>The lines of the clients fit in the buffer of the server when they are shorter than it.\<close>

lemma request_fits:
  assumes "encode (Message t args) = Inr s" "\<forall>a \<in> set args. is_value a \<and> nul \<notin> set a" "length s < MAX_ENCODED_LEN"
  shows "one_line s \<and> length s < MAX_ENCODED_LEN"
proof -
  have "clean_arg a" if "a \<in> set args" for a
    using assms(2) that value_no_space [of a newline] by (auto simp: clean_arg_def)
  then show ?thesis
    using encode_one_line [OF assms(1)] assms(3) by simp
qed

lemma word_fits: "nul \<notin> set s \<Longrightarrow> newline \<notin> set s \<Longrightarrow> length s < 100 \<Longrightarrow> one_line (s @ [newline]) \<and> length (s @ [newline]) < MAX_ENCODED_LEN"
  by (simp add: one_line_def MAX_ENCODED_LEN_def)

section \<open>A shop of one table\<close>

text \<open>A state of rest for the theorems below: one client has left a key in a table, and stays connected.\<close>

definition shop_input :: input where
  "shop_input = [Data (''LOGIN ann'' @ [newline] @ ''CREATE t'' @ [newline] @ ''PUSH 7'' @ [newline] @ ''SET t k'' @ [newline])]"

definition shop_steps :: "net_event list" where
  "shop_steps = [Net_accept 4 True junk_rio shop_input [], Net_turn 0 [], Net_turn 0 []] @ replicate 4 (Net_run 0)
     @ [Net_turn 0 [], Net_turn 0 []] @ replicate 8 (Net_run 0)"

definition shop :: network where
  "shop = the (run_net shop_steps (net_start 2 3))"

lemma shop_evaluated:
  "case run_net shop_steps (net_start 2 3) of
     None \<Rightarrow> False
   | Some N \<Rightarrow> status (th_sys (n_threads N)) = Running \<and> \<not> n_sigpipe N \<and> th_pc (n_threads N) 0 = Ready
       \<and> next_tid (th_sys (n_threads N)) = 1 \<and> \<not> in_use 5 (th_sys (n_threads N))
       \<and> smap_find ''t'' (set_of_table (sys_srv (th_sys (n_threads N)))) = Some 0
       \<and> table_mutex (table_at 0 (sys_srv (th_sys (n_threads N)))) = None
       \<and> committed (table_at 0 (sys_srv (th_sys (n_threads N)))) ''k'' = Some ''7''"
  by code_simp

lemma shop_run: "run_net shop_steps (net_start 2 3) = Some shop"
  using shop_evaluated by (cases "run_net shop_steps (net_start 2 3)") (simp_all add: shop_def del: run_net.simps)

lemma shop_facts:
  "status (th_sys (n_threads shop)) = Running" "\<not> n_sigpipe shop" "th_pc (n_threads shop) 0 = Ready"
  "next_tid (th_sys (n_threads shop)) = 1" "\<not> in_use 5 (th_sys (n_threads shop))"
  "smap_find ''t'' (set_of_table (sys_srv (th_sys (n_threads shop)))) = Some 0"
  "table_mutex (table_at 0 (sys_srv (th_sys (n_threads shop)))) = None"
  "committed (table_at 0 (sys_srv (th_sys (n_threads shop)))) ''k'' = Some ''7''"
  using shop_evaluated unfolding shop_run option.case by blast+

lemma shop_reachable: "net_reachable shop"
  by (rule run_net_reachable [OF net_reachable.start shop_run])

lemma shop_waiting: "waiting shop"
proof -
  have "i = 0" if "live i (th_sys (n_threads shop))" for i
    using net_reachable_inv(1) [OF shop_reachable] that shop_facts(4) by (auto simp: th_inv_def live_def split: option.splits)
  then show ?thesis
    using shop_reachable shop_facts(1-3) by (auto simp: waiting_def at_rest_def)
qed

section \<open>The clients, with a session\<close>

text \<open>A value written and committed: no mutex changes hands.\<close>

lemma same_mutexes:
  "valid_ptr b s \<Longrightarrow>
    table_mutex (table_at b (put_table a (commit_changes (table_set k v (table_at a s))) s)) = table_mutex (table_at b s)"
  by (cases "a = b") (auto simp: table_at_def put_table_def valid_ptr_def commit_changes_def table_set_def)

lemma get_value_end_to_end:
  assumes "server_wf s" "\<forall>a. valid_ptr a s \<longrightarrow> table_mutex (table_at a s) \<noteq> Some i"
    and "smap_find n (set_of_table s) = Some a" "table_mutex (table_at a s) = None"
      "committed (table_at a s) k = Some v"
    and "is_identifier u" "is_identifier n" "is_identifier k" "sendable v" "0 \<le> fd"
    and "encode (Message LOGIN [u]) = Inr l" "encode (Message GET [n, k]) = Inr g"
    and "plain inp" "incoming inp = ok_bytes @ ok_bytes @ data_bytes v @ ok_bytes"
  shows "\<exists>w c'. get_value_main [prog, host, port, u, n, k] fd (client_new fd rio buf inp) = (Ok 0, c')
    \<and> c_out c' = v @ [newline] \<and> c_sent c' = [l, g, ''TOP'' @ [newline], ''BYE'' @ [newline]]
    \<and> chat_with_client i (c_sent c') (world_new s sfd) = (Ok (), w)
    \<and> srv w = s \<and> wire w = incoming inp"
proof -
  have "view (table_at a s) k = Some v"
    using assms(5) pending_free [OF assms(1) server_wfD(3) [OF assms(1,3)] assms(4)] by (simp add: view_def)
  then obtain w where w: "chat_with_client i [l, g, ''TOP'' @ [newline], ''BYE'' @ [newline]] (world_new s sfd) = (Ok (), w)"
    "srv w = s" "wire w = incoming inp"
    using get_session [OF assms(1-4) _ assms(6-9,11,12)] assms(14) by metis
  have "awaits (client_new fd rio buf inp) (ok_bytes @ ok_bytes @ data_bytes v @ ok_bytes)"
    using client_new_awaits [OF assms(13)] assms(14) by metis
  from get_value_answered [OF this assms(9-12), where prog = prog and hostname = host and port = port] obtain c' where
    "get_value_main [prog, host, port, u, n, k] fd (client_new fd rio buf inp) = (Ok 0, c')"
    "c_out c' = v @ [newline]" "c_sent c' = [l, g, ''TOP'' @ [newline], ''BYE'' @ [newline]]"
    by (auto simp: client_new_def)
  with w show ?thesis by auto
qed

lemma set_value_end_to_end:
  assumes "server_wf s" "\<forall>a. valid_ptr a s \<longrightarrow> table_mutex (table_at a s) \<noteq> Some i"
    and "smap_find n (set_of_table s) = Some a" "table_mutex (table_at a s) = None"
    and "is_identifier u" "is_identifier n" "is_identifier k" "sendable v" "0 \<le> fd"
    and "encode (Message LOGIN [u]) = Inr l" "encode (Message PUSH [v]) = Inr p"
      "encode (Message SET [n, k]) = Inr g"
    and "plain inp" "incoming inp = ok_bytes @ ok_bytes @ ok_bytes @ ok_bytes"
  shows "\<exists>w c'. set_value_main [prog, host, port, u, n, k, v] fd (client_new fd rio buf inp) = (Ok 0, c')
    \<and> c_sent c' = [l, p, g, ''BYE'' @ [newline]]
    \<and> chat_with_client i (c_sent c') (world_new s sfd) = (Ok (), w) \<and> wire w = incoming inp
    \<and> abs_store (srv w) = (abs_store s)(n \<mapsto> (committed (table_at a s))(k \<mapsto> v))
    \<and> (\<forall>b. valid_ptr b (srv w) \<longrightarrow> valid_ptr b s \<and> table_mutex (table_at b (srv w)) = table_mutex (table_at b s))"
proof -
  note ptr = server_wfD(3) [OF assms(1,3)]
  obtain w where w: "chat_with_client i [l, p, g, ''BYE'' @ [newline]] (world_new s sfd) = (Ok (), w)"
    "srv w = put_table a (commit_changes (table_set k v (table_at a s))) s" "wire w = incoming inp"
    using set_session [OF assms(1-8,10-12)] assms(14) by metis
  have "committed (commit_changes (table_set k v (table_at a s))) = (committed (table_at a s))(k \<mapsto> v)"
    using server_wfD(5) [OF assms(1) ptr] pending_free [OF assms(1) ptr assms(4)]
    by (simp add: committed_commit view_def)
  then have "abs_store (srv w) = (abs_store s)(n \<mapsto> (committed (table_at a s))(k \<mapsto> v))"
    using w(2) abs_store_put [OF assms(1) ptr] server_wfD(4) [OF assms(1,3)] by simp
  moreover have "\<forall>b. valid_ptr b (srv w) \<longrightarrow> valid_ptr b s \<and> table_mutex (table_at b (srv w)) = table_mutex (table_at b s)"
    using w(2) by (simp add: same_mutexes)
  moreover have "awaits (client_new fd rio buf inp) (ok_bytes @ ok_bytes @ ok_bytes @ ok_bytes)"
    using client_new_awaits [OF assms(13)] assms(14) by metis
  from set_value_answered [OF this assms(9-12), where prog = prog and hostname = host and port = port] obtain c' where
    "set_value_main [prog, host, port, u, n, k, v] fd (client_new fd rio buf inp) = (Ok 0, c')"
    "c_sent c' = [l, p, g, ''BYE'' @ [newline]]"
    by (auto simp: client_new_def)
  ultimately show ?thesis using w by auto
qed

lemma incr_value_end_to_end:
  assumes "server_wf s" "\<forall>a. valid_ptr a s \<longrightarrow> table_mutex (table_at a s) \<noteq> Some i"
    and "smap_find n (set_of_table s) = Some a" "table_mutex (table_at a s) = None"
    and "committed (table_at a s) k = Some v" "stoi v = Inr x" "x < INT_MAX"
    and "is_identifier u" "is_identifier n" "is_identifier k" "0 \<le> fd"
    and "encode (Message LOGIN [u]) = Inr l" "encode (Message GET [n, k]) = Inr g"
      "encode (Message SET [n, k]) = Inr p"
    and "plain inp" "incoming inp = ok_responses t @ ok_bytes"
  shows "\<exists>w c'. incr_value_main (prog # (if t then [''-t''] else []) @ [host, port, u, n, k]) fd
        (client_new fd rio buf inp) = (Ok 0, c')
    \<and> c_sent c' = incr_lines t l g p
    \<and> chat_with_client i (c_sent c') (world_new s sfd) = (Ok (), w) \<and> wire w = incoming inp
    \<and> abs_store (srv w) = (abs_store s)(n \<mapsto> (committed (table_at a s))(k \<mapsto> int_to_string (x + 1)))
    \<and> (\<forall>b. valid_ptr b (srv w) \<longrightarrow> valid_ptr b s \<and> table_mutex (table_at b (srv w)) = table_mutex (table_at b s))"
proof -
  note ptr = server_wfD(3) [OF assms(1,3)]
  note free = pending_free [OF assms(1) ptr assms(4)]
  have "in_int (x + 1)"
    using stoi_in_int [OF assms(6)] assms(7) by (simp add: in_int_def)
  then have sum: "c_add x 1 = Some (x + 1)"
    by (simp add: c_add_def to_int_Some)
  have view: "view (table_at a s) k = Some v"
    using assms(5) free by (simp add: view_def)
  obtain w where w: "chat_with_client i (incr_lines t l g p) (world_new s sfd) = (Ok (), w)"
    "srv w = put_table a (commit_changes (table_set k (int_to_string (x + 1)) (table_at a s))) s"
    "wire w = incoming inp"
    using incr_session [OF assms(1-4) view assms(6) sum assms(8-10,12-14)] assms(16) by metis
  have "committed (commit_changes (table_set k (int_to_string (x + 1)) (table_at a s))) =
      (committed (table_at a s))(k \<mapsto> int_to_string (x + 1))"
    using server_wfD(5) [OF assms(1) ptr] free by (simp add: committed_commit view_def)
  then have "abs_store (srv w) = (abs_store s)(n \<mapsto> (committed (table_at a s))(k \<mapsto> int_to_string (x + 1)))"
    and "\<forall>b. valid_ptr b (srv w) \<longrightarrow> valid_ptr b s \<and> table_mutex (table_at b (srv w)) = table_mutex (table_at b s)"
    using w(2) abs_store_put [OF assms(1) ptr] server_wfD(4) [OF assms(1,3)] by (simp_all add: same_mutexes)
  moreover have "awaits (client_new fd rio buf inp) (ok_responses t @ ok_bytes)"
    using client_new_awaits [OF assms(15)] assms(16) by metis
  from incr_value_answered [OF this assms(11-14), where prog = prog and hostname = host and port = port] obtain c' where
    "incr_value_main (prog # (if t then [''-t''] else []) @ [host, port, u, n, k]) fd (client_new fd rio buf inp) = (Ok 0, c')"
    "c_sent c' = incr_lines t l g p"
    by (auto simp: client_new_def)
  ultimately show ?thesis using w by auto
qed

section \<open>Properties\<close>







end
