(* ===== verification/SystemFacts.thy ===== *)
theory SystemFacts
  imports SystemInv Store
begin

text \<open>
  What the concurrent server guarantees: the tables a transaction holds are its own until it
  ends, a client that leaves leaves nothing behind, whoever makes another thread wait is itself
  never made to wait, and every event refines an effect on the abstract database.
\<close>

section \<open>Isolation\<close>

definition holds :: "tid \<Rightarrow> addr \<Rightarrow> system \<Rightarrow> bool" where
  "holds i a \<sigma> \<longleftrightarrow> live i \<sigma> \<and> a \<in> set (locked_tables (conn (world_of i \<sigma>)))"

definition event_tid :: "event \<Rightarrow> tid option" where
  "event_tid e = (case e of Accepted fd created \<Rightarrow> None | Line i buf \<Rightarrow> Some i | Hangup i \<Rightarrow> Some i)"

lemma holds_owner:
  assumes "sys_inv \<sigma>" "holds i a \<sigma>"
  shows "valid_ptr a (sys_srv \<sigma>)" "table_mutex (table_at a (sys_srv \<sigma>)) = Some i"
  using assms conn_invD(3,4) [OF sys_invD(3) [OF assms(1)], of i a] by (auto simp: holds_def)

lemma owner_holds:
  assumes "sys_inv \<sigma>" "valid_ptr a (sys_srv \<sigma>)" "table_mutex (table_at a (sys_srv \<sigma>)) = Some i"
  shows "holds i a \<sigma>"
proof -
  have "live i \<sigma>"
    using sys_invD(5) [OF assms] .
  then show ?thesis
    using conn_invD(5) [OF sys_invD(3) [OF assms(1)], of i a] assms(2,3) by (simp add: holds_def)
qed

lemma holds_txn: "sys_inv \<sigma> \<Longrightarrow> holds i a \<sigma> \<Longrightarrow> m_in_transaction (conn (world_of i \<sigma>))"
  using conn_invD(6) [OF sys_invD(3), of \<sigma> i] by (cases "m_in_transaction (conn (world_of i \<sigma>))") (auto simp: holds_def)

text \<open>What a step is, as far as the other threads are concerned.\<close>

lemma close_frame:
  assumes "conn_inv i w"
  shows "frame i (srv w) (srv (closed w))"
  using step_ok_abort [OF assms] by (simp add: step_ok_def)

lemma step_frame:
  assumes inv: "sys_inv \<sigma>" and step: "sys_step \<sigma> e \<sigma>'" and i: "event_tid e = Some i"
  shows "\<exists>w::world. sys_srv \<sigma>' = srv w \<and> frame i (sys_srv \<sigma>) (srv w) \<and> live i \<sigma>
    \<and> sessions \<sigma>' = (sessions \<sigma>)(i \<mapsto> \<lparr>s_conn = conn w, s_wire = wire w, s_open = wire_open w\<rparr>)"
  using step i
proof (cases rule: sys_step.cases)
  case (accepted client_fd created)
  with i show ?thesis by (simp add: event_tid_def)
next
  case (turn j buf w)
  with i live_turn [OF inv turn(4,5)] show ?thesis
    by (intro exI [of _ w]) (auto simp: event_tid_def step_ok_def put_world_def)
next
  case (last_turn j buf w)
  with i live_turn(1) [OF inv last_turn(4,5)] show ?thesis
    using close_frame [of j w] frame_trans
    by (intro exI [of _ "closed w"]) (auto simp: event_tid_def step_ok_def close_run put_world_def)
next
  case (uncaught j buf x w)
  with i live_turn(1) [OF inv uncaught(4,5)] show ?thesis
    by (intro exI [of _ w]) (auto simp: event_tid_def step_ok_def put_world_def)
next
  case (undefined_turn j buf w)
  with i live_turn(1) [OF inv undefined_turn(4,5)] show ?thesis
    by (intro exI [of _ w]) (auto simp: event_tid_def step_ok_def put_world_def)
next
  case (hangup j)
  with i sys_invD(3) [OF inv hangup(4)] show ?thesis
    using close_frame [of j "world_of j \<sigma>"]
    by (intro exI [of _ "closed (world_of j \<sigma>)"]) (auto simp: event_tid_def close_run put_world_def)
qed

lemma accept_frame:
  assumes inv: "sys_inv \<sigma>" and step: "sys_step \<sigma> e \<sigma>'" and i: "event_tid e = None"
  shows "sys_srv \<sigma>' = sys_srv \<sigma> \<and> (\<forall>j. sessions \<sigma> j \<noteq> None \<longrightarrow> sessions \<sigma>' j = sessions \<sigma> j)"
proof -
  obtain fd created where e: "e = Accepted fd created"
    using i by (cases e) (auto simp: event_tid_def)
  have "sessions \<sigma> j \<noteq> None \<Longrightarrow> j \<noteq> next_tid \<sigma>" for j
    using sys_invD(6) [OF inv, of j] by auto
  moreover have "srv (abort_world (world_new (sys_srv \<sigma>) fd)) = sys_srv \<sigma>"
    by (simp add: world_new_def abort_world_def connection_new_def)
  ultimately show ?thesis
    using step new_session_inv(1) [OF inv, of fd] unfolding e
    by (auto simp: accepted_iff accept_connection_def Let_def close_run log_error_def) (simp_all add: world_new_def)
qed

text \<open>A step that is not the holder's leaves the holder's session and its tables as they are.\<close>

lemma step_isolation:
  assumes inv: "sys_inv \<sigma>" and step: "sys_step \<sigma> e \<sigma>'" and j: "live j \<sigma>" and other: "event_tid e \<noteq> Some j"
  shows "sessions \<sigma>' j = sessions \<sigma> j"
    and "holds j a \<sigma> \<Longrightarrow> holds j a \<sigma>' \<and> table_at a (sys_srv \<sigma>') = table_at a (sys_srv \<sigma>)"
proof -
  have both: "sessions \<sigma>' j = sessions \<sigma> j
    \<and> (holds j a \<sigma> \<longrightarrow> table_at a (sys_srv \<sigma>') = table_at a (sys_srv \<sigma>))" for a
  proof (cases "event_tid e")
    case None
    with accept_frame [OF inv step None] j show ?thesis by (auto simp: live_Some)
  next
    case (Some i)
    with other have ne: "j \<noteq> i" by auto
    from step_frame [OF inv step Some] obtain w :: world where w: "sys_srv \<sigma>' = srv w"
      "frame i (sys_srv \<sigma>) (srv w)"
      "sessions \<sigma>' = (sessions \<sigma>)(i \<mapsto> \<lparr>s_conn = conn w, s_wire = wire w, s_open = wire_open w\<rparr>)"
      by blast
    with ne frameD(4) [OF w(2), of a j] holds_owner [OF inv, of j a] show ?thesis by auto
  qed
  show "sessions \<sigma>' j = sessions \<sigma> j"
    using both by simp
  then have "live j \<sigma>'" "conn (world_of j \<sigma>') = conn (world_of j \<sigma>)"
    using j by (auto simp: live_Some world_of_def)
  then show "holds j a \<sigma> \<Longrightarrow> holds j a \<sigma>' \<and> table_at a (sys_srv \<sigma>') = table_at a (sys_srv \<sigma>)"
    using both by (simp add: holds_def)
qed

lemma run_isolation:
  assumes "sys_inv \<sigma>" "run_events es \<sigma> = Some \<sigma>'" "live j \<sigma>" "\<forall>e \<in> set es. event_tid e \<noteq> Some j"
  shows "sessions \<sigma>' j = sessions \<sigma> j"
    and "holds j a \<sigma> \<Longrightarrow> holds j a \<sigma>' \<and> table_at a (sys_srv \<sigma>') = table_at a (sys_srv \<sigma>)"
proof -
  have "sessions \<sigma>' j = sessions \<sigma> j
    \<and> (holds j a \<sigma> \<longrightarrow> holds j a \<sigma>' \<and> table_at a (sys_srv \<sigma>') = table_at a (sys_srv \<sigma>))"
    using assms
  proof (induction es arbitrary: \<sigma>)
    case (Cons e es)
    then obtain \<tau> where e: "sys_step \<sigma> e \<tau>" and es: "run_events es \<tau> = Some \<sigma>'"
      by (auto simp: bind_eq_Some_conv exec_step)
    have ne: "event_tid e \<noteq> Some j"
      using Cons.prems(4) by simp
    note iso = step_isolation [OF Cons.prems(1) e Cons.prems(3) ne]
    have "live j \<tau>"
      using iso(1) Cons.prems(3) by (simp add: live_Some)
    with Cons.IH [OF sys_inv_step [OF e Cons.prems(1)] es] Cons.prems(4) iso show ?case
      by auto
  qed simp
  then show "sessions \<sigma>' j = sessions \<sigma> j"
    and "holds j a \<sigma> \<Longrightarrow> holds j a \<sigma>' \<and> table_at a (sys_srv \<sigma>') = table_at a (sys_srv \<sigma>)"
    by auto
qed

section \<open>Waiting\<close>

lemma turn_of:
  assumes "sys_inv \<sigma>" "live i \<sigma>"
  shows "fst (chat_iteration i buf (world_of i \<sigma>)) = turn_result i buf (world_of i \<sigma>)"
  using turn_outcome [OF sys_invD(3,4) [OF assms]] by blast

lemma line_waits:
  assumes inv: "sys_inv \<sigma>" and run: "status \<sigma> = Running" "live i \<sigma>"
  shows "exec_event (Line i buf) \<sigma> = None \<longleftrightarrow>
    (\<exists>req. admitted buf (world_of i \<sigma>) = Some req \<and> waits i req (world_of i \<sigma>))"
proof -
  obtain r w where it: "chat_iteration i buf (world_of i \<sigma>) = (r, w)"
    by (cases "chat_iteration i buf (world_of i \<sigma>)")
  have "exec_event (Line i buf) \<sigma> = None \<longleftrightarrow> r = Blocked"
    using run it by (cases r) (auto simp: client_turn_def)
  also have "\<dots> \<longleftrightarrow> turn_result i buf (world_of i \<sigma>) = Blocked"
    using turn_of [OF inv run(2), of buf] it by simp
  also have "\<dots> \<longleftrightarrow> (\<exists>req. admitted buf (world_of i \<sigma>) = Some req \<and> waits i req (world_of i \<sigma>))"
    by (auto simp: turn_result_def split: option.splits sum.splits)
  finally show ?thesis .
qed

text \<open>A request in a transaction is never made to wait.\<close>

lemma txn_enabled:
  assumes "sys_inv \<sigma>" "status \<sigma> = Running" "live i \<sigma>" "m_in_transaction (conn (world_of i \<sigma>))"
  shows "exec_event (Line i buf) \<sigma> \<noteq> None"
  using line_waits [OF assms(1-3), of buf] assms(4) by (auto simp: waits_def)

lemma waits_for_holder:
  assumes inv: "sys_inv \<sigma>" and run: "status \<sigma> = Running" "live i \<sigma>"
    and waits: "exec_event (Line i buf) \<sigma> = None"
  obtains req a j where "admitted buf (world_of i \<sigma>) = Some req" "target req (world_of i \<sigma>) = Some a"
    "j \<noteq> i" "holds j a \<sigma>" "m_in_transaction (conn (world_of j \<sigma>))"
proof -
  obtain req where req: "admitted buf (world_of i \<sigma>) = Some req" "waits i req (world_of i \<sigma>)"
    using waits line_waits [OF inv run] by blast
  then obtain j where "rival i req (world_of i \<sigma>) = Some j"
    by (auto simp: waits_def)
  then obtain a where a: "j \<noteq> i" "target req (world_of i \<sigma>) = Some a"
    "table_mutex (table_at a (sys_srv \<sigma>)) = Some j"
    by (auto simp: rival_Some)
  have "valid_ptr a (sys_srv \<sigma>)"
    using target_ptr [OF sys_invD(3) [OF inv run(2)] a(2)] by simp
  then have "holds j a \<sigma>"
    using owner_holds [OF inv] a(3) by blast
  with that req(1) a(1,2) holds_txn [OF inv] show thesis by blast
qed

text \<open>When the holder leaves, the request that waited for its table can run.\<close>

lemma target_stable:
  assumes tgt: "target req w = Some a" and keep: "operands w' = operands w"
    and "\<And>n b. smap_find n (set_of_table (srv w)) = Some b \<Longrightarrow> smap_find n (set_of_table (srv w')) = Some b"
  shows "target req w' = Some a"
  using assms by (auto simp: target_def bind_eq_Some_conv split: if_splits)

lemma admitted_srv [simp]: "admitted buf (w\<lparr>srv := s\<rparr>) = admitted buf w"
  by (simp add: admitted_def split: sum.split)

lemma hangup_wakes:
  assumes inv: "sys_inv \<sigma>" and run: "status \<sigma> = Running" "live i \<sigma>" and ne: "j \<noteq> i"
    and adm: "admitted buf (world_of i \<sigma>) = Some req" and tgt: "target req (world_of i \<sigma>) = Some a"
    and holds: "holds j a \<sigma>"
    and step: "sys_step \<sigma> (Hangup j) \<sigma>'"
  shows "exec_event (Line i buf) \<sigma>' \<noteq> None"
proof
  assume none: "exec_event (Line i buf) \<sigma>' = None"
  have inv': "sys_inv \<sigma>'"
    using sys_inv_step [OF step inv] .
  have j: "live j \<sigma>" "conn_inv j (world_of j \<sigma>)"
    using holds sys_invD(3) [OF inv] by (auto simp: holds_def)
  have \<sigma>': "\<sigma>' = put_world j (closed (world_of j \<sigma>)) \<sigma>"
    using step close_run [OF j(2)] by (simp add: hangup_iff)
  have run': "status \<sigma>' = Running" "live i \<sigma>'" and w: "world_of i \<sigma>' = (world_of i \<sigma>)\<lparr>srv := sys_srv \<sigma>'\<rparr>"
    using run ne by (simp_all add: \<sigma>' world_of_put_other)
  have fr: "frame j (sys_srv \<sigma>) (sys_srv \<sigma>')"
    using close_frame [OF j(2)] by (simp add: \<sigma>')
  have "admitted buf (world_of i \<sigma>') = Some req" "target req (world_of i \<sigma>') = Some a"
    using adm target_stable [OF tgt, of "world_of i \<sigma>'"] frameD(3) [OF fr] w by simp_all
  moreover have "valid_ptr a (sys_srv \<sigma>)"
    using holds_owner [OF inv holds] by simp
  then have "table_mutex (table_at a (sys_srv \<sigma>')) = None"
    using release_at [OF conn_invD(8) [OF j(2)], of a "world_of j \<sigma>" rollback_changes] holds
    by (simp add: \<sigma>' abort_world_def holds_def)
  ultimately show False
    using none line_waits [OF inv' run', of buf] rival_None(2) [of req "world_of i \<sigma>'" a i]
    by (auto simp: waits_def)
qed

section \<open>The abstract system\<close>

text \<open>The committed entries, and the buffer of every client.\<close>

type_synonym dbs = "(string \<rightharpoonup> (string \<rightharpoonup> string)) \<times> (tid \<Rightarrow> string \<Rightarrow> (string \<rightharpoonup> string))"

definition abs_of :: "system \<Rightarrow> dbs" where
  "abs_of \<sigma> = (abs_store (sys_srv \<sigma>), \<lambda>i. abs_buffer i (sys_srv \<sigma>))"

definition apply_at :: "tid \<Rightarrow> effect \<Rightarrow> dbs \<Rightarrow> dbs" where
  "apply_at i eff D = (let d = apply_effect eff \<lparr>db_store = fst D, db_buffer = snd D i\<rparr>
     in (db_store d, (snd D)(i := db_buffer d)))"

definition effect_of_event :: "event \<Rightarrow> system \<Rightarrow> tid \<times> effect" where
  "effect_of_event e \<sigma> = (case e of
       Accepted fd created \<Rightarrow> (next_tid \<sigma>, Nothing)
     | Hangup i \<Rightarrow> (i, Aborts)
     | Line i buf \<Rightarrow> (i, if turn_result i buf (world_of i \<sigma>) = Ok False then Aborts
         else (case admitted buf (world_of i \<sigma>) of None \<Rightarrow> Nothing
               | Some req \<Rightarrow> effect_of i req (world_of i \<sigma>))))"

lemma apply_at_eq:
  "apply_at i eff (abs_store s, \<lambda>j. abs_buffer j s) =
    (db_store (apply_effect eff (db_of i s)), (\<lambda>j. abs_buffer j s)(i := db_buffer (apply_effect eff (db_of i s))))"
  by (simp add: apply_at_def db_of_def Let_def)

lemma other_buffer:
  assumes "server_wf s" "server_wf s'" "frame i s s'" "j \<noteq> i"
  shows "abs_buffer j s' = abs_buffer j s"
proof
  fix n
  note F = frameD [OF assms(3)]
  show "abs_buffer j s' n = abs_buffer j s n"
  proof (cases "smap_find n (set_of_table s)")
    case (Some a)
    have "valid_ptr a s" "valid_ptr a s'"
      using server_wfD(3) [OF assms(1) Some] F(1) by auto
    then have "table_mutex (table_at a s') = Some j \<longleftrightarrow> table_mutex (table_at a s) = Some j"
      and "table_mutex (table_at a s) = Some j \<Longrightarrow> table_at a s' = table_at a s"
      using F(4,5) assms(4) by metis+
    then show ?thesis
      by (simp add: abs_buffer_def Some F(3) [OF Some])
  next
    case None
    have "table_mutex (table_at a s') \<noteq> Some j" if a: "smap_find n (set_of_table s') = Some a" for a
    proof
      assume "table_mutex (table_at a s') = Some j"
      then have "valid_ptr a s"
        using F(5) server_wfD(3) [OF assms(2) a] assms(4) by blast
      then have "smap_find n (set_of_table s) = Some a"
        using F(2) [of a] server_wfD(4) [OF assms(2) a] server_wfD(7) [OF assms(1), of a] by simp
      with None show False by simp
    qed
    with None show ?thesis
      by (auto simp: abs_buffer_def split: option.split)
  qed
qed

text \<open>A step of thread \<open>i\<close> whose effect on its own view is known is that effect on the whole.\<close>

lemma abs_step:
  assumes "server_wf s" "server_wf s'" "frame i s s'" "db_of i s' = apply_effect eff (db_of i s)"
  shows "(abs_store s', \<lambda>j. abs_buffer j s') = apply_at i eff (abs_store s, \<lambda>j. abs_buffer j s)"
proof -
  have "(\<lambda>j. abs_buffer j s') = (\<lambda>j. abs_buffer j s)(i := db_buffer (db_of i s'))"
  proof
    fix j
    show "abs_buffer j s' = ((\<lambda>j. abs_buffer j s)(i := db_buffer (db_of i s'))) j"
      using other_buffer [OF assms(1-3), of j] by (cases "j = i") (simp_all add: db_of_def)
  qed
  moreover have "abs_store s' = db_store (db_of i s')"
    by (simp add: db_of_def)
  ultimately show ?thesis
    by (simp only: apply_at_eq assms(4))
qed

lemma turn_effect_at:
  assumes inv: "sys_inv \<sigma>" and live: "live i \<sigma>" and it: "chat_iteration i buf (world_of i \<sigma>) = (r, w)"
  shows "(abs_store (srv w), \<lambda>j. abs_buffer j (srv w)) =
    apply_at i (case admitted buf (world_of i \<sigma>) of None \<Rightarrow> Nothing
      | Some req \<Rightarrow> effect_of i req (world_of i \<sigma>)) (abs_of \<sigma>)"
  using live_turn [OF inv live it] turn_effect [OF sys_invD(3) [OF inv live], of buf] it
    abs_step [of "sys_srv \<sigma>" "srv w" i] sys_invD(1) [OF inv]
  by (auto simp: abs_of_def step_ok_def dest: conn_invD(1))

lemma close_effect:
  assumes "conn_inv i w"
  shows "(abs_store (srv (closed w)), \<lambda>j. abs_buffer j (srv (closed w))) =
    apply_at i Aborts (abs_store (srv w), \<lambda>j. abs_buffer j (srv w))"
  using abs_step [OF conn_invD(1) [OF assms] _ close_frame [OF assms], of Aborts] db_abort [OF assms]
    step_ok_abort [OF assms] by (auto simp: step_ok_def dest: conn_invD(1))

lemma apply_at_twice: "apply_at i Aborts (apply_at i Nothing D) = apply_at i Aborts D"
  "apply_at i Nothing D = D"
  by (simp_all add: apply_at_def Let_def)

lemma last_turn_effect:
  "turn_result i buf w = Ok False \<Longrightarrow>
   (case admitted buf w of None \<Rightarrow> Nothing | Some req \<Rightarrow> effect_of i req w) = Nothing"
  by (cases "admitted buf w") (auto simp: turn_result_def response_type intro!: effect_other split: if_splits)

lemma step_effect:
  assumes inv: "sys_inv \<sigma>" and step: "sys_step \<sigma> e \<sigma>'"
  shows "abs_of \<sigma>' = (case effect_of_event e \<sigma> of (i, eff) \<Rightarrow> apply_at i eff (abs_of \<sigma>))"
  using step
proof (cases rule: sys_step.cases)
  case (accepted fd created)
  then show ?thesis
    using accept_frame [OF inv step] by (simp add: effect_of_event_def apply_at_twice abs_of_def event_tid_def)
next
  case (turn i buf w)
  then show ?thesis
    using turn_effect_at [OF inv turn(4,5)] turn_of [OF inv turn(4), of buf]
    by (auto simp: effect_of_event_def abs_of_def)
next
  case (last_turn i buf w)
  have res: "turn_result i buf (world_of i \<sigma>) = Ok False"
    using turn_of [OF inv last_turn(4), of buf] last_turn(5) by simp
  have "conn_inv i w"
    using live_turn(1) [OF inv last_turn(4,5)] by (simp add: step_ok_def)
  then show ?thesis
    using turn_effect_at [OF inv last_turn(4,5)] close_effect [of i w] last_turn(1,2) res
      last_turn_effect [OF res]
    by (simp add: effect_of_event_def abs_of_def close_run apply_at_twice del: closed_sel)
next
  case (uncaught i buf x w)
  then show ?thesis
    using turn_effect_at [OF inv uncaught(4,5)] turn_of [OF inv uncaught(4), of buf]
    by (auto simp: effect_of_event_def abs_of_def)
next
  case (undefined_turn i buf w)
  then show ?thesis
    using turn_effect_at [OF inv undefined_turn(4,5)] turn_of [OF inv undefined_turn(4), of buf]
    by (auto simp: effect_of_event_def abs_of_def)
next
  case (hangup i)
  then show ?thesis
    using close_effect [OF sys_invD(3) [OF inv hangup(4)]] close_run [OF sys_invD(3) [OF inv hangup(4)]]
    by (simp add: effect_of_event_def abs_of_def del: closed_sel)
qed

section \<open>How a session and the process end\<close>

lemma turn_stays:
  assumes "sys_inv \<sigma>" "live i \<sigma>" "chat_iteration i buf (world_of i \<sigma>) = (r, w)"
  shows "wire_open w"
  using live_turn(1) [OF assms] world_of_open [OF assms(2)] by (simp add: step_ok_def)

lemma session_end:
  assumes inv: "sys_inv \<sigma>" and step: "sys_step \<sigma> e \<sigma>'" and live: "live i \<sigma>" and gone: "\<not> live i \<sigma>'"
  shows "abs_store (sys_srv \<sigma>') = abs_store (sys_srv \<sigma>) \<and> abs_buffer i (sys_srv \<sigma>') = (\<lambda>n. Map.empty)
    \<and> (\<forall>a. valid_ptr a (sys_srv \<sigma>') \<longrightarrow> table_mutex (table_at a (sys_srv \<sigma>')) \<noteq> Some i)"
proof -
  have inv': "sys_inv \<sigma>'"
    using sys_inv_step [OF step inv] .
  have unowned: "\<forall>a. valid_ptr a (sys_srv \<sigma>') \<longrightarrow> table_mutex (table_at a (sys_srv \<sigma>')) \<noteq> Some i"
    using sys_invD(5) [OF inv'] gone by blast
  then have empty: "abs_buffer i (sys_srv \<sigma>') n = Map.empty" for n
    using server_wfD(3) [OF sys_invD(1) [OF inv'], of n] by (auto simp: abs_buffer_def split: option.split)
  have "event_tid e = Some i"
  proof (rule ccontr)
    assume "event_tid e \<noteq> Some i"
    with step_isolation(1) [OF inv step live] live gone show False
      by (simp add: live_Some)
  qed
  moreover have "effect_of_event e \<sigma> = (i, Aborts)" if "event_tid e = Some i"
    using step
  proof (cases rule: sys_step.cases)
    case (turn j buf w)
    with that gone turn_stays [OF inv turn(4,5)] show ?thesis by (auto simp: event_tid_def)
  next
    case (last_turn j buf w)
    with that turn_of [OF inv last_turn(4), of buf] show ?thesis
      by (simp add: event_tid_def effect_of_event_def)
  next
    case (uncaught j buf x w)
    with that gone turn_stays [OF inv uncaught(4,5)] show ?thesis by (auto simp: event_tid_def)
  next
    case (undefined_turn j buf w)
    with that gone turn_stays [OF inv undefined_turn(4,5)] show ?thesis by (auto simp: event_tid_def)
  qed (use that in \<open>simp_all add: event_tid_def effect_of_event_def\<close>)
  ultimately have "abs_store (sys_srv \<sigma>') = abs_store (sys_srv \<sigma>)"
    using step_effect [OF inv step] by (simp add: abs_of_def apply_at_def Let_def)
  with unowned empty show ?thesis by auto
qed

lemma line_status:
  assumes inv: "sys_inv \<sigma>" and "status \<sigma> = Running" "live i \<sigma>" and st: "st \<noteq> Running"
  shows "(\<exists>\<sigma>'. sys_step \<sigma> (Line i buf) \<sigma>' \<and> status \<sigma>' = st) \<longleftrightarrow>
    (st = Terminated \<and> (\<exists>e. turn_result i buf (world_of i \<sigma>) = Exn e))
    \<or> (st = Undefined_behaviour \<and> turn_result i buf (world_of i \<sigma>) = Undef)"
proof -
  obtain r w where it: "chat_iteration i buf (world_of i \<sigma>) = (r, w)"
    by (cases "chat_iteration i buf (world_of i \<sigma>)")
  have res: "turn_result i buf (world_of i \<sigma>) = r"
    using turn_of [OF inv assms(3), of buf] it by simp
  have inv_w: "conn_inv i w"
    using live_turn(1) [OF inv assms(3) it] by (simp add: step_ok_def)
  have "(\<exists>\<sigma>'. sys_step \<sigma> (Line i buf) \<sigma>' \<and> status \<sigma>' = st) \<longleftrightarrow>
      (\<exists>\<sigma>'. client_turn i buf \<sigma> = Some \<sigma>' \<and> status \<sigma>' = st)"
    using assms(2,3) by (simp flip: exec_step)
  then show ?thesis
    using it assms(2) st close_run [OF inv_w] unfolding res
    by (cases r) (auto simp: client_turn_def)
qed

lemma overflow_no_rival: "overflows req w \<Longrightarrow> rival i req w = None"
  using overflows_other [of req w] rival_other [of req i w] by (cases "get_message_type req") auto

lemma terminated_iff:
  assumes inv: "sys_inv \<sigma>" and run: "status \<sigma> = Running" "live i \<sigma>"
  shows "(\<exists>\<sigma>'. sys_step \<sigma> (Line i buf) \<sigma>' \<and> status \<sigma>' = Terminated) \<longleftrightarrow>
    (\<exists>req. admitted buf (world_of i \<sigma>) = Some req \<and> oversize i req (world_of i \<sigma>))"
proof -
  let ?w = "world_of i \<sigma>"
  have "(\<exists>e. turn_result i buf ?w = Exn e) \<longleftrightarrow> oversize i req ?w" if req: "admitted buf ?w = Some req" for req
  proof -
    have "\<not> waits i req ?w \<and> \<not> overflows req ?w" if o: "oversize i req ?w"
      using o overflow_no_rival [of req ?w i] by (auto simp: oversize_def loses_def waits_def)
    with req show ?thesis by (auto simp: turn_result_def)
  qed
  moreover have "\<not> (\<exists>e. turn_result i buf ?w = Exn e)" if "admitted buf ?w = None"
    using that by (auto simp: turn_result_def split: sum.split)
  ultimately show ?thesis
    using line_status [OF inv run, of Terminated buf] by (cases "admitted buf ?w") auto
qed

lemma undefined_iff:
  assumes inv: "sys_inv \<sigma>" and run: "status \<sigma> = Running" "live i \<sigma>"
  shows "(\<exists>\<sigma>'. sys_step \<sigma> (Line i buf) \<sigma>' \<and> status \<sigma>' = Undefined_behaviour) \<longleftrightarrow>
    (\<exists>req. admitted buf (world_of i \<sigma>) = Some req \<and> overflows req (world_of i \<sigma>))"
proof -
  let ?w = "world_of i \<sigma>"
  have "turn_result i buf ?w = Undef \<longleftrightarrow> overflows req ?w" if req: "admitted buf ?w = Some req" for req
  proof -
    have "\<not> waits i req ?w" if "overflows req ?w"
      using overflow_no_rival [OF that] by (simp add: waits_def)
    with req show ?thesis by (auto simp: turn_result_def)
  qed
  moreover have "turn_result i buf ?w \<noteq> Undef" if "admitted buf ?w = None"
    using that by (auto simp: turn_result_def split: sum.split)
  ultimately show ?thesis
    using line_status [OF inv run, of Undefined_behaviour buf] by (cases "admitted buf ?w") auto
qed

end
