(* ===== verification/Demo.thy ===== *)
theory Demo
  imports SystemFacts
begin

text \<open>
  One state of the running server, reached by a concrete run: client 0 is in a transaction in which
  it has created and locked a table and written a key; client 1 is logged in and in none.  The
  properties of the running server are applied to it.
\<close>

definition a_line :: "string \<Rightarrow> string" where
  "a_line s = s @ [newline]"

definition demo_events :: "event list" where
  "demo_events =
    [Accepted 4 True, Accepted 5 True, Line 0 (a_line ''LOGIN ann''), Line 1 (a_line ''LOGIN bob''),
     Line 0 (a_line ''CREATE t''), Line 0 (a_line ''BEGIN''), Line 0 (a_line ''PUSH 7''),
     Line 0 (a_line ''SET t k'')]"

definition demo :: system where
  "demo = the (run_events demo_events (server_main 2 3))"

lemma demo_runs: "run_events demo_events (server_main 2 3) \<noteq> None"
  by code_simp

lemma demo_reachable: "reachable demo"
  using run_reachable [OF reachable.start, of demo_events 2 3 demo] demo_runs
  by (auto simp: demo_def)

lemma demo_step_reachable:
  assumes "exec_event e demo \<noteq> None"
  shows "reachable (the (exec_event e demo))"
proof -
  obtain \<sigma>' where e: "exec_event e demo = Some \<sigma>'"
    using assms by blast
  then have "sys_step demo e \<sigma>'"
    by (simp only: exec_step)
  from reachable.step [OF demo_reachable this] show ?thesis
    by (simp only: e option.sel)
qed

lemma demo_live: "live 0 demo" "live 1 demo" "status demo = Running"
  by code_simp+

lemma demo_txn: "m_in_transaction (conn (world_of 0 demo))" "0 \<in> set (locked_tables (conn (world_of 0 demo)))"
  by code_simp+

lemma demo_waits: "exec_event (Line 1 (a_line ''GET t k'')) demo = None"
  by code_simp

text \<open>A server at rest, with one table and one committed entry.\<close>

definition demo_server :: server where
  "demo_server = \<lparr>listen_fd = 3, set_of_table = [(''t'', 0)],
     table_heap = [\<lparr>m_name = ''t'', key_value = [(''k'', ''7'')], key_value_temp = [], table_mutex = None\<rparr>],
     table_lock = None\<rparr>"

lemma demo_server_wf: "server_wf demo_server"
  by (auto simp: server_wf_def demo_server_def valid_ptr_def table_at_def table_wf_def smap_wf_def)

lemma demo_server_facts:
  "\<forall>a. valid_ptr a demo_server \<longrightarrow> table_mutex (table_at a demo_server) \<noteq> Some 0"
  "smap_find ''t'' (set_of_table demo_server) = Some 0"
  "table_mutex (table_at 0 demo_server) = None"
  "committed (table_at 0 demo_server) ''k'' = Some ''7''"
  by (simp_all add: demo_server_def valid_ptr_def table_at_def committed_def smap_abs_def)

end
