(* ===== verification/ThreadDemo.thy ===== *)
theory ThreadDemo
  imports ThreadFacts Demo
begin

text \<open>
  A concrete interleaving of two clients, step by step: client 0 is in the middle of a SET of its
  transaction when client 1 starts a GET; client 1 is then made to wait by the table client 0 has
  locked, and goes on when client 0 commits.
\<close>

definition runs_of :: "tid \<Rightarrow> nat \<Rightarrow> th_event list" where
  "runs_of i n = replicate n (Th_run i)"

definition th_demo_events :: "th_event list" where
  "th_demo_events =
    [Th_accept 4 True, Th_accept 5 True, Th_line 0 (a_line ''LOGIN ann''), Th_line 1 (a_line ''LOGIN bob''),
     Th_line 0 (a_line ''CREATE t'')] @ runs_of 0 4 @
    [Th_line 0 (a_line ''BEGIN''), Th_line 0 (a_line ''PUSH 7''), Th_line 0 (a_line ''SET t k'')] @ runs_of 0 3 @
    [Th_line 1 (a_line ''GET t k''), Th_run 1] @ runs_of 0 1 @ runs_of 1 2 @ runs_of 0 2"

definition th_demo :: threads where
  "th_demo = the (run_th th_demo_events (th_start (server_main 2 3)))"

lemma th_demo_runs: "run_th th_demo_events (th_start (server_main 2 3)) \<noteq> None"
  by code_simp

lemma th_demo_run: "run_th th_demo_events (th_start (server_main 2 3)) = Some th_demo"
  using th_demo_runs by (simp add: th_demo_def)

lemma th_demo_reachable: "th_reachable th_demo"
  using run_th_reachable [OF th_reachable.start th_demo_run] .

lemma th_demo_inv: "th_inv th_demo"
  by (rule th_reachable_inv [OF th_demo_reachable])

lemma th_demo_facts:
  "status (th_sys th_demo) = Running" "live 0 (th_sys th_demo)" "live 1 (th_sys th_demo)"
  "next_tid (th_sys th_demo) = 2"
  "th_pc th_demo 0 = Ready" "th_pc th_demo 1 = Guard_enter 0 (Get_key ''k'')"
  "locked_tables (conn (world_of 0 (th_sys th_demo))) = [0]"
  "locked_tables (conn (world_of 1 (th_sys th_demo))) = []"
  "smap_find ''t'' (set_of_table (sys_srv (th_sys th_demo))) = Some 0"
  by code_simp+

lemma two_clients:
  assumes "th_inv T" "next_tid (th_sys T) = 2" "live i (th_sys T)"
  shows "i = 0 \<or> i = 1"
  using th_invD(2) [OF assms(1), of i] assms(2,3) by (auto simp: live_Some)

lemma th_demo_runnable: "runnable i th_demo \<Longrightarrow> i = 0 \<or> i = 1"
  using two_clients [OF th_demo_inv th_demo_facts(4)] by (simp add: runnable_def)

lemma th_demo_stuck: "exec_th (Th_run j) th_demo = None"
proof (cases "runnable j th_demo")
  case True
  moreover have "exec_th (Th_run 0) th_demo = None" "exec_th (Th_run 1) th_demo = None"
    by code_simp+
  ultimately show ?thesis
    using th_demo_runnable by blast
qed simp

text \<open>Client 0 commits and client 1, which waited, reads what was committed.\<close>

definition th_demo_more :: "th_event list" where
  "th_demo_more = [Th_line 0 (a_line ''COMMIT''), Th_run 0, Th_run 0, Th_run 1, Th_run 0, Th_run 1, Th_run 1, Th_run 0, Th_run 1]"

definition th_demo_end :: threads where
  "th_demo_end = the (run_th th_demo_more th_demo)"

lemma th_demo_end_run: "run_th (th_demo_events @ th_demo_more) (th_start (server_main 2 3)) = Some th_demo_end"
proof -
  have "run_th th_demo_more th_demo \<noteq> None"
    by code_simp
  then show ?thesis
    by (simp add: run_th_append th_demo_run th_demo_end_def)
qed

lemma th_demo_more_run: "run_th th_demo_more th_demo = Some th_demo_end"
  using th_demo_end_run by (simp add: run_th_append th_demo_run)

lemma th_demo_history:
  "snd (history (th_demo_events @ th_demo_more) (th_start (server_main 2 3))) =
    [(0, [Made ''t'']), (0, [Put ''t'' ''k'' ''7'']), (1, [Got ''t'' ''k'' (Some ''7'')])]"
  by code_simp

lemma th_demo_end_calm:
  "status (th_sys th_demo_end) = Running"
  "live i (th_sys th_demo_end) \<Longrightarrow> \<not> committing (th_pc th_demo_end i)"
proof -
  have "th_pc th_demo_end 0 = Ready" "th_pc th_demo_end 1 = Ready" and n: "next_tid (th_sys th_demo_end) = 2"
    by code_simp+
  then show "\<not> committing (th_pc th_demo_end i)" if "live i (th_sys th_demo_end)"
    using two_clients [OF run_th_inv [OF th_inv_start th_demo_end_run] n that] by auto
  show "status (th_sys th_demo_end) = Running"
    by code_simp
qed

text \<open>A line whose arithmetic overflows.\<close>

definition race_demo_events :: "th_event list" where
  "race_demo_events = [Th_accept 4 True, Th_line 0 (a_line ''LOGIN ann''), Th_line 0 (a_line ''PUSH 2147483647''),
     Th_line 0 (a_line ''PUSH 1'')]"

definition race_demo :: threads where
  "race_demo = the (run_th race_demo_events (th_start (server_main 2 3)))"

definition race_demo_end :: threads where
  "race_demo_end = the (exec_th (Th_line 0 (a_line ''ADD'')) race_demo)"

lemma race_demo_run: "run_th race_demo_events (th_start (server_main 2 3)) = Some race_demo"
proof -
  have "run_th race_demo_events (th_start (server_main 2 3)) \<noteq> None"
    by code_simp
  then show ?thesis by (simp add: race_demo_def)
qed

lemma race_demo_step: "th_step race_demo (Th_line 0 (a_line ''ADD'')) race_demo_end"
proof -
  have "exec_th (Th_line 0 (a_line ''ADD'')) race_demo \<noteq> None"
    by code_simp
  then have "exec_th (Th_line 0 (a_line ''ADD'')) race_demo = Some race_demo_end"
    by (simp add: race_demo_end_def del: exec_th.simps)
  then show ?thesis
    by (simp only: exec_th_step)
qed

lemma race_demo_undefined: "status (th_sys race_demo_end) = Undefined_behaviour"
  by code_simp

end
