(* ===== verification/Counters.thy ===== *)
theory Counters
  imports ThreadDemo NetFacts Increment "HOL-Library.Code_Target_Nat"
begin

text \<open>
  Counting with \<^verbatim>\<open>incr_value\<close>.  A transaction that reads an entry and puts back the next number adds one,
  whatever runs beside it; the same requests outside a transaction can lose one another's work.
\<close>

section \<open>Increments in a history\<close>

text \<open>The statements of a session of \<^verbatim>\<open>incr_value -t\<close>: what it read, and one more.\<close>

fun increments :: "string \<Rightarrow> string \<Rightarrow> op list \<Rightarrow> bool" where
  "increments n k [Got n1 k1 (Some v), Put n2 k2 u] \<longleftrightarrow> n1 = n \<and> k1 = k \<and> n2 = n \<and> k2 = k
     \<and> (case stoi v of Inl e \<Rightarrow> False | Inr x \<Rightarrow> map_option int_to_string (c_add x 1) = Some u)"
| "increments n k xs \<longleftrightarrow> False"

definition writes :: "string \<Rightarrow> string \<Rightarrow> op list \<Rightarrow> bool" where
  "writes n k xs \<longleftrightarrow> list_ex (\<lambda>x. case x of Put n1 k1 v \<Rightarrow> n1 = n \<and> k1 = k | _ \<Rightarrow> False) xs"

lemma not_writes: "\<not> writes n k xs \<Longrightarrow> Put n k v \<notin> set xs"
  by (auto simp: writes_def list_ex_iff)

lemma increment_run:
  assumes "increments n k xs" "run_ops xs S = Some S'" "S n = Some m" "m k = Some (int_to_string x)" "in_int x"
  shows "\<exists>m'. S' n = Some m' \<and> m' k = Some (int_to_string (x + 1)) \<and> in_int (x + 1)"
  using assms stoi_to_string [OF assms(5)]
  by (cases rule: increments.cases [of "(n, k, xs)"]) (auto simp: c_add_def to_int_Some split: sum.splits if_splits)

lemma increments_run:
  assumes "run_serially us S = Some S'" "S n = Some m" "m k = Some (int_to_string x)" "in_int x"
    and "\<forall>(i, xs) \<in> set us. writes n k xs \<longrightarrow> increments n k xs"
  shows "\<exists>m'. S' n = Some m' \<and> m' k = Some (int_to_string (x + int (length (filter (\<lambda>(i, xs). writes n k xs) us))))"
  using assms
proof (induction us arbitrary: S m x)
  case (Cons u us)
  obtain i xs where u: "u = (i, xs)"
    by (cases u)
  obtain S1 where S1: "run_ops xs S = Some S1" "run_serially us S1 = Some S'"
    using Cons.prems(1) by (auto simp: u run_serially_def run_ops_append bind_eq_Some_conv)
  show ?case
  proof (cases "writes n k xs")
    case True
    then obtain m1 where m1: "S1 n = Some m1" "m1 k = Some (int_to_string (x + 1))" "in_int (x + 1)"
      using increment_run [OF _ S1(1) Cons.prems(2-4)] Cons.prems(5) by (auto simp: u)
    show ?thesis
      using Cons.IH [OF S1(2) m1] Cons.prems(5) True by (auto simp: u algebra_simps)
  next
    case False
    then obtain m1 where "S1 n = Some m1" "m1 k = m k"
      using run_ops_keeps [OF S1(1) Cons.prems(2)] not_writes by metis
    then show ?thesis
      using Cons.IH [OF S1(2)] Cons.prems(3-5) False by (auto simp: u)
  qed
qed (simp add: run_serially_def)

section \<open>Two clients that count\<close>

definition turn_of :: "tid \<Rightarrow> string \<Rightarrow> nat \<Rightarrow> th_event list" where
  "turn_of i s n = Th_line i (a_line s) # runs_of i n"

text \<open>A key with the value 7, and two more clients.\<close>

definition counter_setup :: "th_event list" where
  "counter_setup = [Th_accept 4 True] @ turn_of 0 ''LOGIN ann'' 0 @ turn_of 0 ''CREATE t'' 4 @ turn_of 0 ''PUSH 7'' 0
     @ turn_of 0 ''SET t k'' 8 @ [Th_accept 5 True, Th_accept 6 True]"

definition counter :: threads where
  "counter = the (run_th counter_setup (th_start (server_main 2 3)))"

lemma counter_run: "run_th counter_setup (th_start (server_main 2 3)) = Some counter"
proof -
  have "run_th counter_setup (th_start (server_main 2 3)) \<noteq> None"
    by code_simp
  then show ?thesis
    by (simp add: counter_def)
qed

lemma counter_seven: "committed (table_at 0 (sys_srv (th_sys counter))) ''k'' = Some ''7''"
  by code_simp

text \<open>The second client asks between the requests of the first, with and without transactions.\<close>

definition txn_counts :: "th_event list" where
  "txn_counts = turn_of 1 ''LOGIN bob'' 0 @ turn_of 1 ''BEGIN'' 0 @ turn_of 1 ''GET t k'' 6 @ turn_of 2 ''LOGIN eve'' 0
     @ turn_of 1 ''PUSH 1'' 0 @ turn_of 2 ''BEGIN'' 0 @ turn_of 1 ''ADD'' 0 @ turn_of 1 ''SET t k'' 6 @ turn_of 1 ''COMMIT'' 2
     @ turn_of 2 ''GET t k'' 6 @ runs_of 1 2 @ turn_of 1 ''BYE'' 2 @ turn_of 2 ''PUSH 1'' 0 @ turn_of 2 ''ADD'' 0
     @ turn_of 2 ''SET t k'' 6 @ turn_of 2 ''COMMIT'' 4 @ turn_of 2 ''BYE'' 2"

definition plain_counts :: "th_event list" where
  "plain_counts = turn_of 1 ''LOGIN bob'' 0 @ turn_of 2 ''LOGIN eve'' 0 @ turn_of 1 ''GET t k'' 7 @ turn_of 2 ''GET t k'' 7
     @ turn_of 1 ''PUSH 1'' 0 @ turn_of 1 ''ADD'' 0 @ turn_of 1 ''SET t k'' 8 @ turn_of 1 ''BYE'' 2
     @ turn_of 2 ''PUSH 1'' 0 @ turn_of 2 ''ADD'' 0 @ turn_of 2 ''SET t k'' 8 @ turn_of 2 ''BYE'' 2"

definition txn_counter :: threads where
  "txn_counter = the (run_th txn_counts counter)"

definition plain_counter :: threads where
  "plain_counter = the (run_th plain_counts counter)"

lemma txn_counter_evaluated:
  "case run_th txn_counts counter of None \<Rightarrow> False
   | Some T \<Rightarrow> wire (world_of 1 (th_sys T)) = ok_responses True @ ok_bytes
       \<and> wire (world_of 2 (th_sys T)) = ok_responses True @ ok_bytes
       \<and> committed (table_at 0 (sys_srv (th_sys T))) ''k'' = Some ''9''"
  by code_simp

lemma txn_counter_run: "run_th txn_counts counter = Some txn_counter"
  using txn_counter_evaluated by (cases "run_th txn_counts counter") (simp_all add: txn_counter_def del: run_th.simps)

lemma txn_counter_facts:
  "wire (world_of 1 (th_sys txn_counter)) = ok_responses True @ ok_bytes"
  "wire (world_of 2 (th_sys txn_counter)) = ok_responses True @ ok_bytes"
  "committed (table_at 0 (sys_srv (th_sys txn_counter))) ''k'' = Some ''9''"
  using txn_counter_evaluated unfolding txn_counter_run option.case by blast+

lemma plain_counter_evaluated:
  "case run_th plain_counts counter of None \<Rightarrow> False
   | Some T \<Rightarrow> wire (world_of 1 (th_sys T)) = ok_responses False @ ok_bytes
       \<and> wire (world_of 2 (th_sys T)) = ok_responses False @ ok_bytes
       \<and> committed (table_at 0 (sys_srv (th_sys T))) ''k'' = Some ''8''"
  by code_simp

lemma plain_counter_run: "run_th plain_counts counter = Some plain_counter"
  using plain_counter_evaluated by (cases "run_th plain_counts counter") (simp_all add: plain_counter_def del: run_th.simps)

lemma plain_counter_facts:
  "wire (world_of 1 (th_sys plain_counter)) = ok_responses False @ ok_bytes"
  "wire (world_of 2 (th_sys plain_counter)) = ok_responses False @ ok_bytes"
  "committed (table_at 0 (sys_srv (th_sys plain_counter))) ''k'' = Some ''8''"
  using plain_counter_evaluated unfolding plain_counter_run option.case by blast+

lemma counted_lines:
  "handed 1 plain_counts = incr_lines False (a_line ''LOGIN bob'') (a_line ''GET t k'') (a_line ''SET t k'')"
  "handed 2 plain_counts = incr_lines False (a_line ''LOGIN eve'') (a_line ''GET t k'') (a_line ''SET t k'')"
  "handed 1 txn_counts = incr_lines True (a_line ''LOGIN bob'') (a_line ''GET t k'') (a_line ''SET t k'')"
  "handed 2 txn_counts = incr_lines True (a_line ''LOGIN eve'') (a_line ''GET t k'') (a_line ''SET t k'')"
  by code_simp+

lemma int_to_string_seven: "int_to_string 7 = ''7''" "int_to_string 9 = ''9''"
  by code_simp+

lemma counter_store: "map_option (\<lambda>m. m ''k'') (m_store (shown counter) ''t'') = Some (Some ''7'')"
  by code_simp

lemma txn_history:
  "drop (length (snd (history counter_setup (th_start (server_main 2 3)))))
      (snd (history (counter_setup @ txn_counts) (th_start (server_main 2 3)))) =
    [(1, [Got ''t'' ''k'' (Some ''7''), Put ''t'' ''k'' ''8'']), (2, [Got ''t'' ''k'' (Some ''8''), Put ''t'' ''k'' ''9''])]"
  by code_simp

section \<open>Properties\<close>

text \<open>C34: Counting is safe in transactions. Let the server run on from any moment at which a key holds
  the number x, and let every transaction that commits from then on and writes that key be an
  increment as incr_value -t makes it: it read the number and put back the next. Then the key
  holds x plus the number of those transactions, however their requests and the steps inside them
  interleave with one another and with anything else the clients do.\<close>

theorem increments_add_up:
  assumes "run_th es (th_start (server_main argc fd)) = Some T" "run_th es' T = Some T'"
    and "m_store (shown T) n = Some m" "m k = Some (int_to_string x)" "in_int x"
  defines "later \<equiv> drop (length (snd (history es (th_start (server_main argc fd)))))
    (snd (history (es @ es') (th_start (server_main argc fd))))"
  assumes "\<forall>(i, xs) \<in> set later. writes n k xs \<longrightarrow> increments n k xs"
  shows "\<exists>m'. m_store (shown T') n = Some m'
    \<and> m' k = Some (int_to_string (x + int (length (filter (\<lambda>(i, xs). writes n k xs) later))))"
proof -
  have "run_serially later (m_store (shown T)) = Some (m_store (shown T'))"
    using longer_history [OF assms(1,2)] by (auto simp: later_def)
  from increments_run [OF this assms(3-5,7)] show ?thesis .
qed

theorem increments_add_up_witness:
  "\<exists>m'. m_store (shown txn_counter) ''t'' = Some m' \<and> m' ''k'' = Some ''9''"
proof -
  obtain m where m: "m_store (shown counter) ''t'' = Some m" "m ''k'' = Some (int_to_string 7)" and x: "in_int 7"
    using counter_store by (auto simp: in_int_bounds int_to_string_seven)
  have "\<forall>(i, xs) \<in> set (drop (length (snd (history counter_setup (th_start (server_main 2 3)))))
      (snd (history (counter_setup @ txn_counts) (th_start (server_main 2 3))))). writes ''t'' ''k'' xs \<longrightarrow> increments ''t'' ''k'' xs"
    unfolding txn_history by code_simp
  from increments_add_up [OF counter_run txn_counter_run m x this] show ?thesis
    unfolding txn_history by (simp add: writes_def int_to_string_seven)
qed


end
