(* ===== verification/RioWrappers.thy ===== *)
theory RioWrappers
  imports Rio Csapp
begin

text \<open>
  The capitalised wrappers of the robust I/O functions of \<^verbatim>\<open>csapp.c\<close>, which end the process when the
  function fails.  \<open>errno\<close> is the error number at that time.  \<^verbatim>\<open>Rio_writen\<close> compares the result with
  the length cast to \<^verbatim>\<open>int\<close>.
\<close>

section \<open>The wrappers\<close>

definition check_rio :: "texts \<Rightarrow> int \<Rightarrow> string \<Rightarrow> int \<Rightarrow> int call" where
  "check_rio strerror errno msg n = check_neg strerror msg (n, errno)"

definition Rio_readn :: "texts \<Rightarrow> int \<Rightarrow> nat \<Rightarrow> input \<Rightarrow> int call \<times> string \<times> input" where
  "Rio_readn strerror errno nbytes inp = (case rio_readn nbytes inp of
     (n, bs, inp') \<Rightarrow> (check_rio strerror errno ''Rio_readn error'' n, bs, inp'))"

definition Rio_readinitb :: "rio_t \<Rightarrow> int \<Rightarrow> rio_t" where
  "Rio_readinitb rp fd = rio_readinitb rp fd"

definition Rio_readnb :: "texts \<Rightarrow> int \<Rightarrow> rio_t \<Rightarrow> nat \<Rightarrow> input \<Rightarrow> int call \<times> string \<times> rio_t \<times> input" where
  "Rio_readnb strerror errno rp n inp = (case rio_readnb rp n inp of
     (rc, bs, rp', inp') \<Rightarrow> (check_rio strerror errno ''Rio_readnb error'' rc, bs, rp', inp'))"

definition Rio_readlineb :: "texts \<Rightarrow> int \<Rightarrow> rio_t \<Rightarrow> string \<Rightarrow> nat \<Rightarrow> input \<Rightarrow>
    int call \<times> string \<times> rio_t \<times> input" where
  "Rio_readlineb strerror errno rp usrbuf maxlen inp = (case rio_readlineb rp usrbuf maxlen inp of
     (rc, buf, rp', inp') \<Rightarrow> (check_rio strerror errno ''Rio_readlineb error'' rc, buf, rp', inp'))"

text \<open>The cast of a \<^verbatim>\<open>size_t\<close> to \<^verbatim>\<open>int\<close> keeps the low 32 bits.\<close>

definition cast_int :: "nat \<Rightarrow> int" where
  "cast_int n = sint (word_of_nat n :: 32 word)"

definition Rio_writen :: "texts \<Rightarrow> int \<Rightarrow> string \<Rightarrow> write_event list \<Rightarrow> unit call \<times> string \<times> write_event list" where
  "Rio_writen strerror errno usrbuf evs = (case rio_writen usrbuf evs of
     (rc, sent, evs') \<Rightarrow>
       (if rc \<noteq> cast_int (length usrbuf) then unix_error strerror errno ''Rio_writen error'' else Returns (),
        sent, evs'))"

section \<open>Lemmas\<close>

lemma cast_int_bits: "cast_int n = signed_take_bit 31 (int n)"
  unfolding cast_int_def by transfer simp

lemma cast_int_small: "n < 2 ^ 31 \<Longrightarrow> cast_int n = int n"
  unfolding cast_int_bits by (rule signed_take_bit_int_eq_self) simp_all

lemma cast_int_range: "- (2 ^ 31) \<le> cast_int n" "cast_int n < 2 ^ 31"
  using signed_take_bit_int_greater_eq_minus_exp [of 31 "int n"] signed_take_bit_int_less_exp [of 31 "int n"]
  by (simp_all add: cast_int_bits)

lemma rio_writen_cases:
  assumes "rio_writen s evs = (rc, sent, evs')"
  shows "rc = -1 \<or> (rc = int (length s) \<and> sent = s)"
proof -
  obtain ok where "writen_loop s evs = (ok, sent, evs')" "rc = (if ok then int (length s) else -1)"
    using assms by (cases "writen_loop s evs") (simp add: rio_writen_def)
  then show ?thesis
    using writen_loop_prefix [of s evs ok sent evs'] by auto
qed

text \<open>For a buffer below 2 GiB, \<^verbatim>\<open>Rio_writen\<close> returns exactly when \<^verbatim>\<open>rio_writen\<close> has sent everything.\<close>

lemma Rio_writen_sent:
  assumes "length s < 2 ^ 31" "rio_writen s evs = (rc, sent, evs')"
  shows "fst (Rio_writen strerror errno s evs) = Returns () \<longleftrightarrow> rc = int (length s)"
    and "fst (Rio_writen strerror errno s evs) = Returns () \<Longrightarrow> sent = s"
  using assms rio_writen_cases [OF assms(2)] by (auto simp: Rio_writen_def cast_int_small unix_error_def)

text \<open>Above that it ends the process although everything was sent.\<close>

lemma Rio_writen_huge:
  assumes "2 ^ 31 \<le> length s" "rio_writen s evs = (int (length s), sent, evs')"
  shows "fst (Rio_writen strerror errno s evs) = Exits 0 (''Rio_writen error: '' @ strerror errno @ [newline])"
  using assms cast_int_range(2) [of "length s"] by (simp add: Rio_writen_def unix_error_def)

text \<open>The reading wrappers return what the function returned, and never a negative count.\<close>

lemma Rio_read_returns:
  "fst (Rio_readn strerror errno n inp) = Returns rc \<longleftrightarrow> fst (rio_readn n inp) = rc \<and> 0 \<le> rc"
  "fst (Rio_readnb strerror errno rp n inp) = Returns rc \<longleftrightarrow> fst (rio_readnb rp n inp) = rc \<and> 0 \<le> rc"
  "fst (Rio_readlineb strerror errno rp buf maxlen inp) = Returns rc \<longleftrightarrow>
    fst (rio_readlineb rp buf maxlen inp) = rc \<and> 0 \<le> rc"
  by (auto simp: Rio_readn_def Rio_readnb_def Rio_readlineb_def check_rio_def check_neg_def unix_error_def
      split: prod.splits)

end
