(* ===== verification/Sio.thy ===== *)
theory Sio
  imports CInt Csapp
begin

text \<open>
  The signal-safe output functions of \<^verbatim>\<open>csapp.c\<close>: printing a number without the C library.  An array
  is the list of its bytes; an access outside it, the negation of the least \<^verbatim>\<open>long\<close> and a division by
  zero are \<open>None\<close>.  \<open>sio_ltoa_decimal\<close> says that the result is the decimal numeral of the number.
\<close>

section \<open>The functions\<close>

definition LONG_MIN :: int where "LONG_MIN = -(2 ^ 63)"
definition LONG_MAX :: int where "LONG_MAX = 2 ^ 63 - 1"

definition in_long :: "int \<Rightarrow> bool" where
  "in_long v \<longleftrightarrow> LONG_MIN \<le> v \<and> v \<le> LONG_MAX"

text \<open>\<^verbatim>\<open>s[i] = c\<close>\<close>

definition store_at :: "nat \<Rightarrow> char \<Rightarrow> string \<Rightarrow> string option" where
  "store_at i c s = (if i < length s then Some (s[i := c]) else None)"

text \<open>The number of bytes before the first NUL; an array without one is read past its end.\<close>

fun sio_strlen :: "string \<Rightarrow> nat option" where
  "sio_strlen [] = None"
| "sio_strlen (c # s) = (if c = nul then Some 0 else map_option Suc (sio_strlen s))"

text \<open>The loop of \<^verbatim>\<open>sio_reverse\<close>, from both ends to the middle.\<close>

function reverse_loop :: "nat \<Rightarrow> int \<Rightarrow> string \<Rightarrow> string" where
  "reverse_loop i j s =
    (if int i < j then reverse_loop (Suc i) (j - 1) (s[i := s ! nat j, nat j := s ! i]) else s)"
  by pat_completeness auto
termination
  by (relation "measure (\<lambda>(i, j, s). nat (j - int i))") auto

declare reverse_loop.simps [simp del]

definition sio_reverse :: "string \<Rightarrow> string option" where
  "sio_reverse s = map_option (\<lambda>n. reverse_loop 0 (int n - 1) s) (sio_strlen s)"

definition ltoa_digit :: "int \<Rightarrow> char" where
  "ltoa_digit c = (if c < 10 then char_of (nat (c + 48)) else char_of (nat (c - 10 + 97)))"

text \<open>
  The \<^verbatim>\<open>do\<close> loop, which writes the digits from the last to the first.  It ends for a base of at
  least two; for base one it would not, so the loop is a partial function.
\<close>

partial_function (option) ltoa_loop :: "int \<Rightarrow> nat \<Rightarrow> string \<Rightarrow> int \<Rightarrow> (nat \<times> string) option" where
  "ltoa_loop v i s b =
    (if b = 0 then None
     else case store_at i (ltoa_digit (v smod b)) s of
         None \<Rightarrow> None
       | Some s' \<Rightarrow> (if v sdiv b > 0 then ltoa_loop (v sdiv b) (Suc i) s' b else Some (Suc i, s')))"

definition sio_ltoa :: "int \<Rightarrow> string \<Rightarrow> int \<Rightarrow> string option" where
  "sio_ltoa v s b =
    (if v = LONG_MIN then None
     else (case ltoa_loop (if v < 0 then - v else v) 0 s b of
         None \<Rightarrow> None
       | Some (i, s1) \<Rightarrow>
          (case (if v < 0 then store_at i (CHR ''-'') s1 else Some s1) of
             None \<Rightarrow> None
           | Some s2 \<Rightarrow>
              (case store_at (if v < 0 then Suc i else i) nul s2 of
                 None \<Rightarrow> None
               | Some s3 \<Rightarrow> sio_reverse s3))))"

text \<open>\<^verbatim>\<open>write(STDOUT_FILENO, s, n)\<close> returned \<open>rc\<close>: the result and the bytes offered.\<close>

definition sio_puts :: "string \<Rightarrow> int \<Rightarrow> (int \<times> string) option" where
  "sio_puts s rc = map_option (\<lambda>n. (rc, take n s)) (sio_strlen s)"

text \<open>\<open>s\<close> is the local array \<^verbatim>\<open>char s[128]\<close>, whose contents are indeterminate.\<close>

definition sio_putl :: "string \<Rightarrow> int \<Rightarrow> int \<Rightarrow> (int \<times> string) option" where
  "sio_putl s v rc = Option.bind (sio_ltoa v s 10) (\<lambda>t. sio_puts t rc)"

definition sio_error :: "string \<Rightarrow> int \<Rightarrow> ('a call) option" where
  "sio_error s rc = map_option (\<lambda>p. Exits 1 (snd p)) (sio_puts s rc)"

definition Sio_error :: "string \<Rightarrow> int \<Rightarrow> ('a call) option" where
  "Sio_error s rc = sio_error s rc"

definition Sio_puts :: "string \<Rightarrow> int \<Rightarrow> (int call) option" where
  "Sio_puts s rc = Option.bind (sio_puts s rc) (\<lambda>p.
     if fst p < 0 then sio_error (''Sio_puts error'' @ [nul]) rc else Some (Returns (fst p)))"

definition Sio_putl :: "string \<Rightarrow> int \<Rightarrow> int \<Rightarrow> (int call) option" where
  "Sio_putl s v rc = Option.bind (sio_putl s v rc) (\<lambda>p.
     if fst p < 0 then sio_error (''Sio_putl error'' @ [nul]) rc else Some (Returns (fst p)))"

section \<open>Reversing\<close>

lemma sio_strlen_app: "nul \<notin> set t \<Longrightarrow> sio_strlen (t @ nul # rest) = Some (length t)"
  by (induction t) auto

text \<open>One step of the loop swaps the ends of a segment.\<close>

lemma reverse_loop_segment:
  "reverse_loop (length pre) (int (length pre) + int (length t) - 1) (pre @ t @ post) = pre @ rev t @ post"
proof (induction "length t" arbitrary: pre t post rule: less_induct)
  case less
  show ?case
  proof (cases "length t < 2")
    case True
    then have "rev t = t"
      by (cases t; cases "tl t") auto
    with True show ?thesis
      by (simp add: reverse_loop.simps)
  next
    case False
    then obtain x m y where t: "t = x # m @ [y]"
      by (cases t; cases "tl t" rule: rev_cases) auto
    let ?j = "int (length pre) + int (length t) - 1"
    have j: "nat ?j = length pre + Suc (length m)"
      by (simp add: t)
    have "(pre @ t @ post) ! nat ?j = y" "(pre @ t @ post) ! length pre = x"
      unfolding j by (simp_all add: t nth_append)
    then have "(pre @ t @ post)[length pre := (pre @ t @ post) ! nat ?j, nat ?j := (pre @ t @ post) ! length pre]
        = (pre @ [y]) @ m @ (x # post)"
      unfolding j by (simp add: t list_update_append)
    then have "reverse_loop (length pre) ?j (pre @ t @ post) =
        reverse_loop (length (pre @ [y])) (int (length (pre @ [y])) + int (length m) - 1) ((pre @ [y]) @ m @ (x # post))"
      using False by (subst reverse_loop.simps) (simp add: t)
    also have "\<dots> = (pre @ [y]) @ rev m @ (x # post)"
      using t by (intro less.hyps) simp
    finally show ?thesis by (simp add: t)
  qed
qed

lemma sio_reverse_run:
  "nul \<notin> set t \<Longrightarrow> sio_reverse (t @ nul # rest) = Some (rev t @ nul # rest)"
  using reverse_loop_segment [of "[]" t "nul # rest"] by (simp add: sio_reverse_def sio_strlen_app)

section \<open>The digits\<close>

text \<open>\<open>low_digits n\<close>: the numeral of \<open>n\<close> from its last digit to its first.\<close>

definition low_digits :: "nat \<Rightarrow> string" where
  "low_digits n = rev (nat_digits n)"

lemma low_digits_step:
  "low_digits n = (if n < 10 then [digit_char n] else digit_char (n mod 10) # low_digits (n div 10))"
  by (simp add: low_digits_def nat_digits.simps [of n])

lemma ltoa_digit_char: "n < 10 \<Longrightarrow> ltoa_digit (int n) = digit_char n"
  by (simp add: ltoa_digit_def digit_char_def nat_add_distrib)

lemma sdiv_ten: "int n sdiv 10 = int (n div 10)" "int n smod 10 = int (n mod 10)"
  by (simp_all add: signed_divide_int_def signed_modulo_int_def sgn_if zdiv_int zmod_int)

lemma ltoa_loop_decimal:
  "length pre + length (low_digits n) \<le> length pre + length post \<Longrightarrow>
   ltoa_loop (int n) (length pre) (pre @ post) 10 =
     Some (length pre + length (low_digits n), pre @ low_digits n @ drop (length (low_digits n)) post)"
proof (induction n arbitrary: pre post rule: less_induct)
  case (less n)
  obtain c post' where post: "post = c # post'"
    using less.prems by (cases post) (auto simp: low_digits_def nat_digits_ne)
  have digit: "ltoa_digit (int (n mod 10)) = digit_char (n mod 10)"
    by (rule ltoa_digit_char) simp
  have store: "store_at (length pre) (digit_char (n mod 10)) (pre @ post) = Some ((pre @ [digit_char (n mod 10)]) @ post')"
    by (simp add: store_at_def post list_update_append)
  have unfold: "ltoa_loop (int n) (length pre) (pre @ post) 10 =
      (if int (n div 10) > 0 then ltoa_loop (int (n div 10)) (Suc (length pre)) ((pre @ [digit_char (n mod 10)]) @ post') 10
       else Some (Suc (length pre), (pre @ [digit_char (n mod 10)]) @ post'))"
    by (subst ltoa_loop.simps) (simp only: sdiv_ten digit store, simp)
  show ?case
  proof (cases "n < 10")
    case True
    then show ?thesis
      unfolding unfold by (simp add: low_digits_step [of n] post)
  next
    case False
    then have "n div 10 < n" "0 < n div 10"
      by simp_all
    moreover have "length (low_digits n) = Suc (length (low_digits (n div 10)))"
      using False by (subst low_digits_step) simp
    ultimately have ih: "ltoa_loop (int (n div 10)) (length (pre @ [digit_char (n mod 10)]))
        ((pre @ [digit_char (n mod 10)]) @ post') 10 =
      Some (length (pre @ [digit_char (n mod 10)]) + length (low_digits (n div 10)),
        (pre @ [digit_char (n mod 10)]) @ low_digits (n div 10) @ drop (length (low_digits (n div 10))) post')"
      using less.prems post by (intro less.IH) simp_all
    have ne: "n div 10 \<noteq> 0"
      using False by simp
    show ?thesis
      unfolding unfold using False ih ne by (simp add: low_digits_step [of n] post)
  qed
qed

text \<open>The number is printed in decimal, whatever was in the array before.\<close>

lemma low_digits_nul: "nul \<notin> set (low_digits n)"
  using nat_digits_digits [of nul n] by (auto simp: low_digits_def isdigit_def char_code_def)

lemma sio_ltoa_decimal:
  assumes "in_long v" "v \<noteq> LONG_MIN" "length (int_to_string v) < length s"
  shows "\<exists>rest. sio_ltoa v s 10 = Some (int_to_string v @ nul # rest)"
proof -
  let ?n = "nat \<bar>v\<bar>"
  let ?ds = "low_digits ?n"
  have abs: "(if v < 0 then - v else v) = int ?n"
    by simp
  have str: "int_to_string v = (if v < 0 then CHR ''-'' # rev ?ds else rev ?ds)"
    by (auto simp: int_to_string_def low_digits_def abs_if)
  have len: "length ?ds + (if v < 0 then 1 else 0) < length s"
    using assms(3) str by (auto split: if_splits)
  have loop: "ltoa_loop (int ?n) 0 s 10 = Some (length ?ds, ?ds @ drop (length ?ds) s)"
    using ltoa_loop_decimal [of "[]" ?n s] len by simp
  show ?thesis
  proof (cases "v < 0")
    case True
    obtain c d rest where rest: "drop (length ?ds) s = c # d # rest"
      using len True by (cases "drop (length ?ds) s"; cases "tl (drop (length ?ds) s)")
        (auto dest: arg_cong [where f = length])
    have "store_at (length ?ds) (CHR ''-'') (?ds @ c # d # rest) = Some (?ds @ CHR ''-'' # d # rest)"
      "store_at (Suc (length ?ds)) nul (?ds @ CHR ''-'' # d # rest) = Some ((?ds @ [CHR ''-'']) @ nul # rest)"
      by (simp_all add: store_at_def list_update_append)
    moreover have "sio_reverse ((?ds @ [CHR ''-'']) @ nul # rest) = Some (rev (?ds @ [CHR ''-'']) @ nul # rest)"
      using low_digits_nul by (intro sio_reverse_run) auto
    ultimately show ?thesis
      using True assms(2) loop rest str unfolding sio_ltoa_def abs by simp
  next
    case False
    obtain c rest where rest: "drop (length ?ds) s = c # rest"
      using len False by (cases "drop (length ?ds) s") auto
    have "store_at (length ?ds) nul (?ds @ c # rest) = Some (?ds @ nul # rest)"
      by (simp add: store_at_def list_update_append)
    moreover have "sio_reverse (?ds @ nul # rest) = Some (rev ?ds @ nul # rest)"
      using low_digits_nul by (rule sio_reverse_run)
    ultimately show ?thesis
      using False assms(2) loop rest str unfolding sio_ltoa_def abs by simp
  qed
qed

text \<open>The array of \<^verbatim>\<open>sio_putl\<close> is long enough for every \<^verbatim>\<open>long\<close>.\<close>

lemma length_long:
  assumes "in_long v"
  shows "length (int_to_string v) \<le> 20"
proof -
  have "nat v < 10 ^ 19" "nat (- v) < 10 ^ 19"
    using assms by (auto simp: in_long_def LONG_MIN_def LONG_MAX_def)
  then have "length (nat_digits (nat v)) \<le> 19" "length (nat_digits (nat (- v))) \<le> 19"
    by (auto intro: length_nat_digits)
  then show ?thesis
    by (simp add: int_to_string_def)
qed

lemma putl_decimal:
  assumes "in_long v" "v \<noteq> LONG_MIN" "length s = 128"
  shows "sio_putl s v rc = Some (rc, int_to_string v)"
proof -
  have "length (int_to_string v) < length s"
    using length_long [OF assms(1)] assms(3) by simp
  then obtain rest where "sio_ltoa v s 10 = Some (int_to_string v @ nul # rest)"
    using sio_ltoa_decimal [OF assms(1,2)] by blast
  moreover have "nul \<notin> set (int_to_string v)"
    using int_to_string_chars [of nul v] by (auto simp: isdigit_def char_code_def)
  ultimately show ?thesis
    by (simp add: sio_putl_def sio_puts_def sio_strlen_app)
qed

section \<open>Properties\<close>

text \<open>C40: sio_putl prints the decimal numeral of its argument, the same text as std::to_string gives, for
  every long but the least one; its array of 128 bytes is long enough whatever it holds.\<close>

theorem putl_prints_decimal:
  assumes "in_long v" "v \<noteq> LONG_MIN" "length s = 128"
  shows "sio_putl s v rc = Some (rc, int_to_string v)"
  by (rule putl_decimal [OF assms])

theorem putl_prints_decimal_witness:
  "sio_putl (replicate 128 nul) (-42) 3 = Some (3, ''-42'')"
proof -
  have "int_to_string (-42) = ''-42''"
    by code_simp
  then show ?thesis
    using putl_prints_decimal [of "-42" "replicate 128 nul" 3]
    by (simp add: in_long_def LONG_MIN_def LONG_MAX_def)
qed

end
