(* ===== verification/TcTest.thy ===== *)
theory TcTest
  imports CInt
begin

text \<open>
  The unit-test framework (\<^verbatim>\<open>tctest.h\<close>, \<^verbatim>\<open>tctest.c\<close>) as \<^verbatim>\<open>unit_tests.cpp\<close>, a C++ file, uses it.  A test
  runs until it finishes, jumps back to its \<^verbatim>\<open>TEST\<close> through \<^verbatim>\<open>siglongjmp\<close>, throws, or takes the process
  with it; the macros count what happened.  Signal numbers are those of Linux.
\<close>

section \<open>State\<close>

record tct =
  assertion_line :: int
  failures :: int
  num_executed :: int
  testname_to_execute :: "string option"
  handlers :: "int set"
  stdout :: string
  test_log :: "(string \<times> bool) list option"
  complete_log :: "(int \<times> int) list option"

text \<open>
  \<open>test_log\<close> and \<open>complete_log\<close> hold what \<^verbatim>\<open>tctest_on_test_executed\<close> and \<^verbatim>\<open>tctest_on_complete\<close> were called
  with, \<open>None\<close> when the pointer is null.
\<close>

definition tct_new :: "string option \<Rightarrow> bool \<Rightarrow> bool \<Rightarrow> tct" where
  "tct_new name hook1 hook2 = \<lparr>assertion_line = 0, failures = 0, num_executed = 0, testname_to_execute = name,
     handlers = {}, stdout = [], test_log = (if hook1 then Some [] else None), complete_log = (if hook2 then Some [] else None)\<rparr>"

text \<open>
  The ways out of a test: the jump back to its \<^verbatim>\<open>TEST\<close>, an exception (what is thrown from
  \<^verbatim>\<open>std::exception\<close> is an \<open>exn\<close>), and what takes the process with it.
\<close>

datatype stop = Died int | Hung | Wild

datatype escape = Jumped | Std_exception exn | Other_exception | Stopped stop

text \<open>A part of a test works on the framework's state and on the test's objects.\<close>

type_synonym ('o, 'a) test = "tct \<times> 'o \<Rightarrow> (escape + 'a) \<times> (tct \<times> 'o)"

definition then_do :: "('o, 'a) test \<Rightarrow> ('a \<Rightarrow> ('o, 'b) test) \<Rightarrow> ('o, 'b) test" where
  "then_do m f = (\<lambda>s. case m s of (Inl x, s') \<Rightarrow> (Inl x, s') | (Inr a, s') \<Rightarrow> f a s')"

text \<open>A call of the code under test.\<close>

definition invoke :: "('o, 'a) prog \<Rightarrow> ('o, 'a) test" where
  "invoke m = (\<lambda>(t, objs). case m objs of
       (Ok a, objs') \<Rightarrow> (Inr a, (t, objs'))
     | (Exn e, objs') \<Rightarrow> (Inl (Std_exception e), (t, objs'))
     | (Blocked, objs') \<Rightarrow> (Inl (Stopped Hung), (t, objs'))
     | (Undef, objs') \<Rightarrow> (Inl (Stopped Wild), (t, objs')))"

definition print :: "string \<Rightarrow> tct \<Rightarrow> tct" where
  "print s t = t\<lparr>stdout := stdout t @ s\<rparr>"

section \<open>Signals\<close>

definition tctest_signal_list :: "(int \<times> string) list" where
  "tctest_signal_list = [(8, ''floating point exception''), (11, ''segmentation fault''), (7, ''bus error''),
     (6, ''abort (assert failed?)''), (5, ''trap''), (31, ''bad system call''), (-1, ''unknown signal'')]"

text \<open>The search stops at the entry whose number is -1: \<open>None\<close> is the null pointer.\<close>

fun find_msg :: "int \<Rightarrow> (int \<times> string) list \<Rightarrow> string option" where
  "find_msg signum [] = None"
| "find_msg signum ((s, m) # l) = (if s = -1 then None else if signum = s then Some m else find_msg signum l)"

fun listed :: "(int \<times> string) list \<Rightarrow> int set" where
  "listed [] = {}"
| "listed ((s, m) # l) = (if s = -1 then {} else insert s (listed l))"

definition tctest_register_signal_handlers :: "tct \<Rightarrow> tct" where
  "tctest_register_signal_handlers t = t\<lparr>handlers := handlers t \<union> listed tctest_signal_list\<rparr>"

text \<open>The digits of the line, lowest first, as the loop pushes them on \<^verbatim>\<open>stack\<close>; popping reverses them.\<close>

function push_digits :: "nat \<Rightarrow> string" where
  "push_digits val = digit_char (val mod 10) # (if val div 10 > 0 then push_digits (val div 10) else [])"
  by pat_completeness auto
termination by (relation "measure id") auto

declare push_digits.simps [simp del]

text \<open>
  \<^verbatim>\<open>tctest_print_signal_msg\<close>: \<open>None\<close> when one of its arrays, of 16 and of 512 bytes, is too small.
\<close>

definition tctest_print_signal_msg :: "string \<Rightarrow> tct \<Rightarrow> tct option" where
  "tctest_print_signal_msg msg t =
    (if assertion_line t \<le> 0 then Some (print (msg @ [newline]) t)
     else (let stack = push_digits (nat (assertion_line t));
               buf = msg @ '' (most recent ASSERT at line '' @ rev stack @ '')'' @ [newline]
           in if length stack > 16 \<or> length msg + 1 > 512 \<or> length buf > 512 then None else Some (print buf t)))"

text \<open>A signal that arrives in a test: its handler prints and jumps, or the process dies.\<close>

definition raise_signal :: "int \<Rightarrow> ('o, 'a) test" where
  "raise_signal signum = (\<lambda>(t, objs).
    if signum \<notin> handlers t then (Inl (Stopped (Died signum)), (t, objs))
    else (case find_msg signum tctest_signal_list of
        None \<Rightarrow> (Inl (Stopped Wild), (t, objs))
      | Some msg \<Rightarrow> (case tctest_print_signal_msg msg t of
          None \<Rightarrow> (Inl (Stopped Wild), (t, objs))
        | Some t' \<Rightarrow> (Inl Jumped, (t', objs)))))"

section \<open>Failing\<close>

definition tctest_fail :: "string \<Rightarrow> ('o, 'a) test" where
  "tctest_fail msg = (\<lambda>(t, objs). (Inl Jumped, (print msg t, objs)))"

definition FAIL :: "string \<Rightarrow> ('o, 'a) test" where
  "FAIL msg = tctest_fail (''failed, '' @ msg @ [newline])"

text \<open>\<open>cond_text\<close> is the text of the condition, as the preprocessor gives it.\<close>

definition ASSERT :: "('o, bool) prog \<Rightarrow> string \<Rightarrow> int \<Rightarrow> ('o, unit) test" where
  "ASSERT cond cond_text line = (\<lambda>(t, objs).
     then_do (invoke cond) (\<lambda>b. if \<not> b
         then tctest_fail (''failed ASSERT '' @ cond_text @ '' at line '' @ int_to_string line @ [newline])
         else (\<lambda>s. (Inr (), s)))
       (t\<lparr>assertion_line := line\<rparr>, objs))"

section \<open>The macros\<close>

definition TEST_INIT :: "tct \<Rightarrow> tct" where
  "TEST_INIT = tctest_register_signal_handlers"

definition hook :: "string \<Rightarrow> bool \<Rightarrow> tct \<Rightarrow> tct" where
  "hook name passed t = t\<lparr>test_log := map_option (\<lambda>l. l @ [(name, passed)]) (test_log t)\<rparr>"

definition fail_test :: "string \<Rightarrow> tct \<Rightarrow> tct" where
  "fail_test name t = hook name False (t\<lparr>failures := failures t + 1\<rparr>)"

definition exception_text :: "string \<Rightarrow> string" where
  "exception_text what = ''std::exception (what='' @ [CHR 0x27] @ what @ [CHR 0x27] @ '')'' @ [newline]"

text \<open>Where a test that does not pass ends up: the other branch of \<^verbatim>\<open>sigsetjmp\<close>, or a catch clause.\<close>

fun caught :: "string \<Rightarrow> escape \<Rightarrow> tct \<Rightarrow> stop + tct" where
  "caught name Jumped t = Inr (fail_test name t)"
| "caught name (Std_exception e) t = Inr (fail_test name (print (exception_text (exn_what e)) t))"
| "caught name Other_exception t = Inr (fail_test name (print (''exception'' @ [newline]) t))"
| "caught name (Stopped s) t = Inl s"

text \<open>
  \<^verbatim>\<open>TEST(func)\<close> in a C++ file.  \<open>setup\<close> and \<open>func\<close> run inside \<^verbatim>\<open>sigsetjmp\<close> and \<^verbatim>\<open>try\<close>;
  \<open>cleanup\<close> runs when the local \<^verbatim>\<open>t\<close> is not null.  After a jump the value of that local, changed since
  \<^verbatim>\<open>sigsetjmp\<close> and not volatile, is indeterminate: \<open>kept\<close> says whether it still holds the objects.
\<close>

definition run_test :: "string \<Rightarrow> (tct \<Rightarrow> (escape + 'o) \<times> tct) \<Rightarrow> ('o, unit) test \<Rightarrow> ('o \<Rightarrow> tct \<Rightarrow> tct) \<Rightarrow> bool \<Rightarrow>
    tct \<Rightarrow> stop + tct" where
  "run_test name setup func cleanup kept t =
    (case setup (t\<lparr>num_executed := num_executed t + 1, assertion_line := -1\<rparr>) of
       (Inl x, t1) \<Rightarrow> caught name x t1
     | (Inr objs, t1) \<Rightarrow>
         (case func (print (name @ ''...'') t1, objs) of
            (Inr _, (t2, objs')) \<Rightarrow> Inr (cleanup objs' (hook name True (print (''passed!'' @ [newline]) t2)))
          | (Inl x, (t2, objs')) \<Rightarrow>
              map_sum id (if x = Jumped \<and> \<not> kept then id else cleanup objs') (caught name x t2)))"

definition selected :: "string \<Rightarrow> tct \<Rightarrow> bool" where
  "selected name t \<longleftrightarrow> (case testname_to_execute t of None \<Rightarrow> True | Some n \<Rightarrow> n = name)"

definition TEST :: "string \<Rightarrow> (tct \<Rightarrow> (escape + 'o) \<times> tct) \<Rightarrow> ('o, unit) test \<Rightarrow> ('o \<Rightarrow> tct \<Rightarrow> tct) \<Rightarrow> bool \<Rightarrow>
    tct \<Rightarrow> stop + tct" where
  "TEST name setup func cleanup kept t =
    (if selected name t then run_test name setup func cleanup kept t else Inr t)"

text \<open>The value is what \<^verbatim>\<open>main\<close> returns.\<close>

definition TEST_FINI :: "tct \<Rightarrow> int \<times> tct" where
  "TEST_FINI t =
    (let t1 = print (if failures t = 0
                     then (if num_executed t > 0 then ''All tests passed!'' @ [newline] else ''No tests were executed!'' @ [newline])
                     else int_to_string (failures t) @ '' test(s) failed'' @ [newline]) t;
         t2 = t1\<lparr>complete_log := map_option (\<lambda>l. l @ [(num_executed t - failures t, num_executed t)]) (complete_log t1)\<rparr>
     in (if failures t > 0 \<or> (failures t = 0 \<and> num_executed t = 0) then 1 else 0, t2))"

section \<open>The digits\<close>

lemma rev_push_digits: "rev (push_digits n) = nat_digits n"
proof (induction n rule: push_digits.induct)
  case (1 val)
  show ?case
    using 1 by (cases "val < 10") (auto simp: push_digits.simps [of val] nat_digits.simps [of val])
qed

lemma length_push_digits: "n < 10 ^ k \<Longrightarrow> 0 < k \<Longrightarrow> length (push_digits n) \<le> k"
  using length_nat_digits [of n k] by (simp add: rev_push_digits [symmetric])

text \<open>The message names the line in decimal, and no array overflows.\<close>

lemma signal_msg:
  assumes "length msg < 400" "assertion_line t \<le> INT_MAX"
  shows "tctest_print_signal_msg msg t = Some (print (if assertion_line t \<le> 0 then msg @ [newline]
    else msg @ '' (most recent ASSERT at line '' @ int_to_string (assertion_line t) @ '')'' @ [newline]) t)"
proof (cases "assertion_line t \<le> 0")
  case False
  have "nat (assertion_line t) < 10 ^ 10"
    using assms(2) by (simp add: INT_MAX_def)
  then have "length (push_digits (nat (assertion_line t))) \<le> 10"
    by (rule length_push_digits) simp
  then show ?thesis
    using False assms(1) by (simp add: tctest_print_signal_msg_def Let_def rev_push_digits int_to_string_def)
qed (simp add: tctest_print_signal_msg_def)

lemma find_msg_listed: "find_msg signum l = Some msg \<Longrightarrow> signum \<in> listed l"
  by (induction signum l rule: find_msg.induct) (auto split: if_splits)

lemma find_msg_in: "find_msg signum l = Some msg \<Longrightarrow> msg \<in> set (map snd l)"
  by (induction signum l rule: find_msg.induct) (auto split: if_splits)

lemma listed_msg_short: "find_msg signum tctest_signal_list = Some msg \<Longrightarrow> length msg < 400"
  using find_msg_in [of signum tctest_signal_list msg] by (auto simp: tctest_signal_list_def)

section \<open>Tests that leave the framework alone\<close>

text \<open>The counters are ints; they are kept as integers, a program has fewer than \<open>INT_MAX\<close> tests.\<close>

definition books :: "tct \<Rightarrow> int \<times> int \<times> string option \<times> (string \<times> bool) list option \<times> (int \<times> int) list option" where
  "books t = (failures t, num_executed t, testname_to_execute t, test_log t, complete_log t)"

definition leaves_books :: "('o, 'a) test \<Rightarrow> bool" where
  "leaves_books f \<longleftrightarrow> (\<forall>s. books (fst (snd (f s))) = books (fst s))"

lemma books_simps [simp]:
  "books (print s t) = books t" "books (t\<lparr>assertion_line := l\<rparr>) = books t"
  "testname_to_execute (hook name b t) = testname_to_execute t"
  by (simp_all add: books_def print_def hook_def)

lemma leaves_booksD: "leaves_books f \<Longrightarrow> f s = (r, s') \<Longrightarrow> books (fst s') = books (fst s)"
  unfolding leaves_books_def by (metis snd_conv)

lemma leaves_books_invoke: "leaves_books (invoke m)"
  by (auto simp: leaves_books_def invoke_def split: prod.splits res.splits)

lemma leaves_books_then:
  assumes "leaves_books f" "\<And>a. leaves_books (g a)"
  shows "leaves_books (then_do f g)"
  unfolding leaves_books_def
proof
  fix s
  obtain r s' where f: "f s = (r, s')"
    by (cases "f s")
  then have "books (fst s') = books (fst s)"
    by (rule leaves_booksD [OF assms(1)])
  with f show "books (fst (snd (then_do f g s))) = books (fst s)"
    using leaves_booksD [OF assms(2)] by (cases r) (auto simp: then_do_def split: prod.splits, metis prod.collapse)
qed

lemma leaves_books_fails: "leaves_books (tctest_fail msg)" "leaves_books (FAIL msg)" "leaves_books (raise_signal signum)"
  by (auto simp: leaves_books_def tctest_fail_def FAIL_def raise_signal_def tctest_print_signal_msg_def Let_def
      split: option.splits if_splits)

lemma leaves_books_assert: "leaves_books (ASSERT cond cond_text line)"
proof -
  have "leaves_books (then_do (invoke cond) (\<lambda>b. if \<not> b
      then tctest_fail (''failed ASSERT '' @ cond_text @ '' at line '' @ int_to_string line @ [newline]) else (\<lambda>s. (Inr (), s))))"
    by (rule leaves_books_then) (simp_all add: leaves_books_invoke leaves_books_fails, simp add: leaves_books_def)
  then show ?thesis
    by (auto simp: leaves_books_def ASSERT_def)
qed

section \<open>A whole program of tests\<close>

record 'o test_case =
  tc_name :: string
  tc_setup :: "tct \<Rightarrow> (escape + 'o) \<times> tct"
  tc_func :: "('o, unit) test"
  tc_cleanup :: "'o \<Rightarrow> tct \<Rightarrow> tct"
  tc_kept :: bool

definition case_ok :: "'o test_case \<Rightarrow> bool" where
  "case_ok c \<longleftrightarrow> (\<forall>t. books (snd (tc_setup c t)) = books t) \<and> leaves_books (tc_func c)
     \<and> (\<forall>objs t. books (tc_cleanup c objs t) = books t)"

fun run_tests :: "'o test_case list \<Rightarrow> tct \<Rightarrow> stop + tct" where
  "run_tests [] t = Inr t"
| "run_tests (c # cs) t = (case TEST (tc_name c) (tc_setup c) (tc_func c) (tc_cleanup c) (tc_kept c) t of
     Inl x \<Rightarrow> Inl x | Inr t' \<Rightarrow> run_tests cs t')"

text \<open>One test adds one entry to the log and counts it, and what failed counts as failed.\<close>

lemma books_hook: "books t' = books t \<Longrightarrow> books (hook name b t') = books (hook name b t)"
  and books_fail: "books t' = books t \<Longrightarrow> books (fail_test name t') = books (fail_test name t)"
  by (simp_all add: books_def hook_def fail_test_def)

definition tallied :: "string \<Rightarrow> bool \<Rightarrow> tct \<Rightarrow> tct" where
  "tallied name passed t = hook name passed
     (t\<lparr>num_executed := num_executed t + 1, failures := failures t + (if passed then 0 else 1)\<rparr>)"

lemma books_tallied:
  "books u = books (t\<lparr>num_executed := num_executed t + 1\<rparr>) \<Longrightarrow> books (hook name True u) = books (tallied name True t)"
  "books u = books (t\<lparr>num_executed := num_executed t + 1\<rparr>) \<Longrightarrow> books (fail_test name u) = books (tallied name False t)"
  by (simp_all add: books_def hook_def fail_test_def tallied_def)

lemma caught_books:
  assumes "caught name x u = Inr t'" "books u = books (t\<lparr>num_executed := num_executed t + 1\<rparr>)"
  shows "books t' = books (tallied name False t)"
  using assms books_tallied(2) [of _ t name] by (cases x) auto

lemma run_test_books:
  assumes ok: "\<forall>t. books (snd (setup t)) = books t" "leaves_books func" "\<forall>objs t. books (cleanup objs t) = books t"
    and run: "run_test name setup func cleanup kept t = Inr t'"
  shows "\<exists>passed. books t' = books (tallied name passed t)"
proof -
  let ?t = "t\<lparr>num_executed := num_executed t + 1, assertion_line := -1\<rparr>"
  let ?u = "t\<lparr>num_executed := num_executed t + 1\<rparr>"
  obtain x t1 where s: "setup ?t = (x, t1)"
    by (cases "setup ?t")
  have "books t1 = books ?t"
    using ok(1) s by (auto dest: spec [of _ ?t])
  then have t1: "books t1 = books ?u"
    by (simp add: books_def)
  show ?thesis
  proof (cases x)
    case (Inl e)
    then show ?thesis
      using run s caught_books [OF _ t1] by (auto simp: run_test_def)
  next
    case (Inr objs)
    obtain y t2 objs' where f: "func (print (name @ ''...'') t1, objs) = (y, (t2, objs'))"
      by (cases "func (print (name @ ''...'') t1, objs)") auto
    have t2: "books t2 = books ?u"
      using leaves_booksD [OF ok(2) f] t1 by simp
    show ?thesis
    proof (cases y)
      case (Inl e)
      then obtain u where u: "caught name e t2 = Inr u" "books t' = books u"
        using run s f Inr ok(3) by (cases "caught name e t2") (auto simp: run_test_def split: if_splits)
      then show ?thesis
        using caught_books [OF u(1) t2] by auto
    next
      case (Inr a)
      then have "books t' = books (tallied name True t)"
        using run s f \<open>x = Inr objs\<close> ok(3) t2 by (auto simp: run_test_def intro!: books_tallied(1))
      then show ?thesis by blast
    qed
  qed
qed

lemma run_tests_books:
  assumes "\<forall>c \<in> set cs. case_ok c" "run_tests cs t = Inr t'" "test_log t = Some l"
    "num_executed t = int (length l)" "failures t = int (length (filter (\<lambda>e. \<not> snd e) l))"
  shows "\<exists>l'. test_log t' = Some (l @ l') \<and> map fst l' = filter (\<lambda>n. selected n t) (map tc_name cs)
    \<and> num_executed t' = int (length (l @ l')) \<and> failures t' = int (length (filter (\<lambda>e. \<not> snd e) (l @ l')))
    \<and> complete_log t' = complete_log t"
  using assms
proof (induction cs arbitrary: t l)
  case (Cons c cs)
  obtain t1 where t1: "TEST (tc_name c) (tc_setup c) (tc_func c) (tc_cleanup c) (tc_kept c) t = Inr t1" "run_tests cs t1 = Inr t'"
    using Cons.prems(2) by (auto split: sum.splits)
  show ?case
  proof (cases "selected (tc_name c) t")
    case False
    then show ?thesis
      using Cons.IH [of t l] Cons.prems t1 by (simp add: TEST_def)
  next
    case True
    then obtain passed where "books t1 = books (tallied (tc_name c) passed t)"
      using t1(1) Cons.prems(1) run_test_books [of "tc_setup c" "tc_func c" "tc_cleanup c" "tc_name c" "tc_kept c" t t1]
      by (auto simp: TEST_def case_ok_def)
    then have b: "test_log t1 = Some (l @ [(tc_name c, passed)])" "num_executed t1 = int (length (l @ [(tc_name c, passed)]))"
      "failures t1 = int (length (filter (\<lambda>e. \<not> snd e) (l @ [(tc_name c, passed)])))"
      "testname_to_execute t1 = testname_to_execute t" "complete_log t1 = complete_log t"
      using Cons.prems(3-5) by (auto simp: books_def tallied_def hook_def)
    have "selected n t1 = selected n t" for n
      using b(4) by (simp add: selected_def)
    then show ?thesis
      using Cons.IH [OF _ t1(2) b(1-3)] Cons.prems(1) True b(5) by fastforce
  qed
qed simp

text \<open>The verdict of \<^verbatim>\<open>TEST_FINI\<close>.\<close>

lemma verdict:
  assumes ok: "\<forall>c \<in> set cs. case_ok c" and run: "run_tests cs (TEST_INIT (tct_new name True True)) = Inr t"
  shows "\<exists>l. test_log t = Some l
    \<and> map fst l = filter (\<lambda>n. name = None \<or> name = Some n) (map tc_name cs)
    \<and> (fst (TEST_FINI t) = 0 \<longleftrightarrow> l \<noteq> [] \<and> (\<forall>e \<in> set l. snd e))
    \<and> complete_log (snd (TEST_FINI t)) = Some [(int (length (filter snd l)), int (length l))]"
proof -
  let ?t = "TEST_INIT (tct_new name True True)"
  have t: "test_log ?t = Some []" "num_executed ?t = 0" "failures ?t = 0" "complete_log ?t = Some []"
    "selected n ?t \<longleftrightarrow> name = None \<or> name = Some n" for n
    by (auto simp: TEST_INIT_def tctest_register_signal_handlers_def tct_new_def selected_def split: option.splits)
  obtain l where l: "test_log t = Some l" "map fst l = filter (\<lambda>n. name = None \<or> name = Some n) (map tc_name cs)"
    "num_executed t = int (length l)" "failures t = int (length (filter (\<lambda>e. \<not> snd e) l))" "complete_log t = Some []"
    using run_tests_books [OF ok run t(1)] t(2-5) by auto
  have "length (filter snd l) + length (filter (\<lambda>e. \<not> snd e) l) = length l"
    by (rule sum_length_filter_compl)
  moreover have "filter (\<lambda>e. \<not> snd e) l = [] \<longleftrightarrow> (\<forall>e \<in> set l. snd e)"
    by (simp add: filter_empty_conv)
  ultimately show ?thesis
    using l by (auto simp: TEST_FINI_def Let_def print_def)
qed

section \<open>Programs whose tests pass\<close>

definition passing :: "'o test_case \<Rightarrow> bool" where
  "passing c \<longleftrightarrow> (\<exists>objs. (\<forall>t. tc_setup c t = (Inr objs, t))
     \<and> (\<forall>t. \<exists>line objs'. tc_func c (t, objs) = (Inr (), (t\<lparr>assertion_line := line\<rparr>, objs'))))
   \<and> (\<forall>objs t. tc_cleanup c objs t = t)"

text \<open>What passing tests leave behind, apart from the last assertion's line.\<close>

definition all_passed :: "string list \<Rightarrow> tct \<Rightarrow> tct" where
  "all_passed names t = t\<lparr>num_executed := num_executed t + int (length names),
     stdout := stdout t @ concat (map (\<lambda>n. n @ ''...passed!'' @ [newline]) names),
     test_log := map_option (\<lambda>l. l @ map (\<lambda>n. (n, True)) names) (test_log t)\<rparr>"

lemma all_passed_Nil [simp]: "all_passed [] t = t"
  by (cases "test_log t") (simp_all add: all_passed_def)

lemma run_test_passing:
  assumes "passing c"
  shows "\<exists>line. run_test (tc_name c) (tc_setup c) (tc_func c) (tc_cleanup c) (tc_kept c) t =
    Inr ((all_passed [tc_name c] t)\<lparr>assertion_line := line\<rparr>)"
proof -
  obtain objs where s: "tc_setup c u = (Inr objs, u)" "\<exists>line objs'. tc_func c (u, objs) =
      (Inr (), (u\<lparr>assertion_line := line\<rparr>, objs'))" "tc_cleanup c objs' u = u" for u objs'
    using assms unfolding passing_def by metis
  let ?t = "print (tc_name c @ ''...'') (t\<lparr>num_executed := num_executed t + 1, assertion_line := -1\<rparr>)"
  obtain line objs' where f: "tc_func c (?t, objs) = (Inr (), (?t\<lparr>assertion_line := line\<rparr>, objs'))"
    using s(2) by blast
  then show ?thesis
    by (intro exI [of _ line]) (simp add: run_test_def s f, simp add: print_def hook_def all_passed_def)
qed

lemma run_tests_passing:
  assumes "\<forall>c \<in> set cs. passing c"
  shows "\<exists>line. run_tests cs t =
    Inr ((all_passed (filter (\<lambda>n. selected n t) (map tc_name cs)) t)\<lparr>assertion_line := line\<rparr>)"
  using assms
proof (induction cs arbitrary: t)
  case Nil
  show ?case
    by (intro exI [of _ "assertion_line t"]) simp
next
  case (Cons c cs)
  show ?case
  proof (cases "selected (tc_name c) t")
    case False
    with Cons show ?thesis
      by (simp add: TEST_def)
  next
    case True
    then obtain line where r: "TEST (tc_name c) (tc_setup c) (tc_func c) (tc_cleanup c) (tc_kept c) t =
        Inr ((all_passed [tc_name c] t)\<lparr>assertion_line := line\<rparr>)"
      using run_test_passing [of c t] Cons.prems by (auto simp: TEST_def)
    let ?t = "(all_passed [tc_name c] t)\<lparr>assertion_line := line\<rparr>"
    have "selected n ?t = selected n t" for n
      by (simp add: selected_def all_passed_def)
    moreover obtain line' where "run_tests cs ?t =
        Inr ((all_passed (filter (\<lambda>n. selected n ?t) (map tc_name cs)) ?t)\<lparr>assertion_line := line'\<rparr>)"
      using Cons by fastforce
    moreover have "(all_passed ns ?t)\<lparr>assertion_line := line'\<rparr> = (all_passed (tc_name c # ns) t)\<lparr>assertion_line := line'\<rparr>" for ns
      by (cases "test_log t") (simp_all add: all_passed_def)
    ultimately show ?thesis
      using r True by (auto intro: exI [of _ line'])
  qed
qed

section \<open>Further facts\<close>

text \<open>A signal the framework has a handler for, raised in a test, never takes the process: the
  handler prints the signal's message, with the line of the last ASSERT in decimal when there was
  one, stays inside its arrays of 16 and of 512 bytes for every line an int can hold, and jumps
  back to the test; before the handlers are registered the same signal ends the process.\<close>

lemma signal_is_reported:
  assumes "find_msg signum tctest_signal_list = Some msg" "assertion_line t \<le> INT_MAX"
  shows "raise_signal signum (TEST_INIT t, objs) = (Inl Jumped,
      (print (msg @ (if assertion_line t \<le> 0 then []
         else '' (most recent ASSERT at line '' @ int_to_string (assertion_line t) @ '')'') @ [newline]) (TEST_INIT t), objs))
    \<and> (handlers t = {} \<longrightarrow> raise_signal signum (t, objs) = (Inl (Stopped (Died signum)), (t, objs)))"
  using signal_msg [of msg "TEST_INIT t"] find_msg_listed [OF assms(1)] listed_msg_short [OF assms(1)] assms
  by (auto simp: raise_signal_def TEST_INIT_def tctest_register_signal_handlers_def)

lemma signal_is_reported_witness:
  "raise_signal 11 (TEST_INIT (tct_new None True True\<lparr>assertion_line := 42\<rparr>), ()) = (Inl Jumped :: escape + unit,
    (print (''segmentation fault (most recent ASSERT at line 42)'' @ [newline])
      (TEST_INIT (tct_new None True True\<lparr>assertion_line := 42\<rparr>)), ()))"
proof -
  have "find_msg 11 tctest_signal_list = Some ''segmentation fault''" "int_to_string 42 = ''42''"
    by code_simp+
  then show ?thesis
    using signal_is_reported [where 'a = unit and 'b = unit and 'c = unit, of 11 "''segmentation fault''"
        "tct_new None True True\<lparr>assertion_line := 42\<rparr>" "()"]
    by (simp add: INT_MAX_def)
qed

section \<open>Properties\<close>



end
