(* ===== verification/UnitTests.thy ===== *)
theory UnitTests
  imports TcTest Tables ValueStack Serialization "HOL-Library.Code_Target_Nat"
begin

text \<open>
  \<^verbatim>\<open>unit_tests.cpp\<close>: its fixture, its nineteen tests and its \<^verbatim>\<open>main\<close>, over the definitions of
  \<open>Messages\<close>, \<open>Serialization\<close>, \<open>Tables\<close> and \<open>ValueStack\<close>.  Every test passes on them, so the model
  does what the repository's own tests ask of the code.  The number in a \<open>check\<close> is the line of the
  \<^verbatim>\<open>ASSERT\<close>; \<open>text_of\<close> gives the text of the condition on a line, which is only printed when it
  fails.
\<close>

section \<open>What tests are made of\<close>

definition pass :: "('o, unit) test" where
  "pass = (\<lambda>s. (Inr (), s))"

fun do_all :: "('o, unit) test list \<Rightarrow> ('o, unit) test" where
  "do_all [] = pass"
| "do_all (f # fs) = then_do f (\<lambda>_. do_all fs)"

definition check :: "(int \<Rightarrow> string) \<Rightarrow> int \<Rightarrow> ('o, bool) prog \<Rightarrow> ('o, unit) test" where
  "check text_of line cond = ASSERT cond (text_of line) line"

definition gives :: "('o, 'a) prog \<Rightarrow> 'a \<Rightarrow> ('o, bool) prog" where
  "gives m a = bind m (\<lambda>b. ret (a = b))"

definition unused :: "('o, 'a) test \<Rightarrow> ('o, unit) test" where
  "unused f = then_do f (\<lambda>_. pass)"

text \<open>\<^verbatim>\<open>try { f } catch (...) {}\<close>: a jump is not an exception.\<close>

definition try_catch :: "(exn \<Rightarrow> bool) \<Rightarrow> ('o, unit) test \<Rightarrow> ('o, unit) test" where
  "try_catch catches f = (\<lambda>s. case f s of
       (Inl (Std_exception e), s') \<Rightarrow> if catches e then (Inr (), s') else (Inl (Std_exception e), s')
     | (r, s') \<Rightarrow> (r, s'))"

fun is_InvalidMessage :: "exn \<Rightarrow> bool" where
  "is_InvalidMessage (InvalidMessage _) = True"
| "is_InvalidMessage _ = False"

fun is_OperationException :: "exn \<Rightarrow> bool" where
  "is_OperationException (OperationException _) = True"
| "is_OperationException _ = False"

section \<open>The fixture\<close>

record test_objs =
  objs_m :: message
  login_req :: message
  create_req :: message
  push_req :: message
  pop_req :: message
  set_req :: message
  get_req :: message
  add_req :: message
  mul_req :: message
  sub_req :: message
  div_req :: message
  bye_req :: message
  ok_resp :: message
  failed_resp :: message
  error_resp :: message
  data_resp :: message
  long_get_req :: message
  create_req_2 :: message
  invalid_login_req :: message
  invalid_create_req :: message
  invalid_data_resp :: message
  invalid_too_long :: message
  encoded_login_req :: string
  encoded_create_req :: string
  encoded_data_resp :: string
  encoded_get_req :: string
  encoded_failed_resp :: string
  encoded_error_resp :: string
  encoded_bye_req :: string
  encoded_push_req_no_nl :: string
  encoded_get_req_too_long :: string
  invoices :: table
  line_items :: table
  valstack :: value_stack

definition TestObjs :: test_objs where
  "TestObjs = \<lparr>
     objs_m = message_empty,
     login_req = Message LOGIN [''alice''],
     create_req = Message CREATE [''accounts''],
     push_req = Message PUSH [''47374''],
     pop_req = Message POP [],
     set_req = Message SET [''accounts'', ''acct123''],
     get_req = Message GET [''accounts'', ''acct123''],
     add_req = Message ADD [],
     mul_req = Message MUL [],
     sub_req = Message SUB [],
     div_req = Message DIV [],
     bye_req = Message BYE [],
     ok_resp = Message OK [],
     failed_resp = Message FAILED [''The operation failed''],
     error_resp = Message ERROR [''An error occurred''],
     data_resp = Message DATA [''10012''],
     long_get_req = push_arg (replicate 509 (CHR 0x79)) (push_arg (replicate 509 (CHR 0x79)) (Message GET [])),
     create_req_2 = Message CREATE [''line_items''],
     invalid_login_req = Message LOGIN [''bob'', ''extra''],
     invalid_create_req = Message CREATE [''8foobar''],
     invalid_data_resp = Message DATA [],
     invalid_too_long = push_arg (replicate 510 (CHR 0x78)) (push_arg (replicate 509 (CHR 0x78)) (Message SET [])),
     encoded_login_req = ''LOGIN alice'' @ [newline],
     encoded_create_req = ''     CREATE   invoices  '' @ [newline],
     encoded_data_resp = ''DATA 90125'' @ [newline],
     encoded_get_req = ''GET lineitems foobar'' @ [newline],
     encoded_failed_resp = ''FAILED '' @ [CHR 0x22] @ ''Something went wrong, shucks!'' @ [CHR 0x22] @ [newline],
     encoded_error_resp = '' ERROR '' @ [CHR 0x22] @ ''Wow, something really got messed up'' @ [CHR 0x22] @ [newline],
     encoded_bye_req = ''BYE'' @ [newline],
     encoded_push_req_no_nl = ''PUSH 91025'',
     encoded_get_req_too_long = ''GET foo '' @ replicate MAX_ENCODED_LEN (CHR 0x78),
     invoices = table_new ''invoices'',
     line_items = table_new ''line_items'',
     valstack = vs_new\<rparr>"


section \<open>Access to the fixture\<close>

text \<open>A table of the fixture: how to read it and how to change it.\<close>

type_synonym a_table = "(test_objs \<Rightarrow> table) \<times> ((table \<Rightarrow> table) \<Rightarrow> test_objs \<Rightarrow> test_objs)"

definition the_invoices :: a_table where
  "the_invoices = (invoices, invoices_update)"

definition the_line_items :: a_table where
  "the_line_items = (line_items, line_items_update)"

definition on_table :: "a_table \<Rightarrow> (table, 'a) prog \<Rightarrow> (test_objs, 'a) prog" where
  "on_table T m = (\<lambda>objs. case m (fst T objs) of (r, t) \<Rightarrow> (r, snd T (\<lambda>_. t) objs))"

text \<open>The tests run in one thread, with id 0; a table is used under its mutex.\<close>

definition under_mutex :: "(table \<Rightarrow> exn + 'a) \<Rightarrow> (table \<Rightarrow> table) \<Rightarrow> (table, 'a) prog" where
  "under_mutex f u = (\<lambda>t. if table_mutex t = Some 0
     then (case f t of Inl e \<Rightarrow> (Exn e, t) | Inr a \<Rightarrow> (Ok a, u t)) else (Undef, t))"

definition tbl_set :: "string \<Rightarrow> string \<Rightarrow> (table, unit) prog" where
  "tbl_set key val = under_mutex (\<lambda>_. Inr ()) (table_set key val)"

definition tbl_get :: "string \<Rightarrow> (table, string) prog" where
  "tbl_get key = under_mutex (table_get key) id"

definition tbl_has_key :: "string \<Rightarrow> (table, bool) prog" where
  "tbl_has_key key = under_mutex (\<lambda>t. Inr (has_key key t)) id"

definition tbl_commit :: "(table, unit) prog" where
  "tbl_commit = under_mutex (\<lambda>_. Inr ()) commit_changes"

definition tbl_rollback :: "(table, unit) prog" where
  "tbl_rollback = under_mutex (\<lambda>_. Inr ()) rollback_changes"

text \<open>
  \<^verbatim>\<open>{ TableGuard g(T); f }\<close>.  A jump out of the scope does not run the destructor: the table stays
  locked.
\<close>

definition with_guard :: "a_table \<Rightarrow> (test_objs, unit) test \<Rightarrow> (test_objs, unit) test" where
  "with_guard T f = then_do (invoke (on_table T (lock_table 0))) (\<lambda>_ s. case f s of
       (Inl Jumped, s') \<Rightarrow> (Inl Jumped, s')
     | (Inl (Stopped x), s') \<Rightarrow> (Inl (Stopped x), s')
     | (r, s') \<Rightarrow> then_do (invoke (on_table T (unlock_table 0))) (\<lambda>_ s. (r, s)) s')"

definition valstack_push :: "string \<Rightarrow> (test_objs, unit) prog" where
  "valstack_push val = modify (\<lambda>objs. objs\<lparr>valstack := vs_push val (valstack objs)\<rparr>)"

definition valstack_get_top :: "(test_objs, string) prog" where
  "valstack_get_top = (\<lambda>objs. of_sum (vs_get_top (valstack objs)) objs)"

definition valstack_pop :: "(test_objs, unit) prog" where
  "valstack_pop = (\<lambda>objs. case vs_pop (valstack objs) of
     Inl e \<Rightarrow> (Exn e, objs) | Inr s \<Rightarrow> (Ok (), objs\<lparr>valstack := s\<rparr>))"

definition arg :: "(message \<Rightarrow> string option) \<Rightarrow> (test_objs \<Rightarrow> message) \<Rightarrow> (test_objs, string) prog" where
  "arg getter msg = (\<lambda>objs. of_option (getter (msg objs)) objs)"

definition encodes :: "(test_objs \<Rightarrow> message) \<Rightarrow> (string \<Rightarrow> (test_objs, unit) test) \<Rightarrow> (test_objs, unit) test" where
  "encodes msg f = then_do (invoke (\<lambda>objs. of_sum (encode (msg objs)) objs)) f"

definition decodes :: "(test_objs \<Rightarrow> string) \<Rightarrow> (message \<Rightarrow> (test_objs, unit) test) \<Rightarrow> (test_objs, unit) test" where
  "decodes s f = then_do (invoke (\<lambda>objs. of_sum (decode (s objs)) objs)) f"

section \<open>The tests\<close>

definition test_message_default_ctor :: "(int \<Rightarrow> string) \<Rightarrow> (test_objs, unit) test" where
  "test_message_default_ctor text_of = do_all [
     check text_of 222 (gets (\<lambda>objs. get_message_type (objs_m objs) = NONE)),
     check text_of 223 (gets (\<lambda>objs. get_num_args (objs_m objs) = 0))]"

definition test_message_get_message_type :: "(int \<Rightarrow> string) \<Rightarrow> (test_objs, unit) test" where
  "test_message_get_message_type text_of = do_all [
     check text_of 228 (gets (\<lambda>objs. get_message_type (login_req objs) = LOGIN)),
     check text_of 229 (gets (\<lambda>objs. get_message_type (create_req objs) = CREATE)),
     check text_of 230 (gets (\<lambda>objs. get_message_type (push_req objs) = PUSH)),
     check text_of 231 (gets (\<lambda>objs. get_message_type (pop_req objs) = POP)),
     check text_of 232 (gets (\<lambda>objs. get_message_type (set_req objs) = SET)),
     check text_of 233 (gets (\<lambda>objs. get_message_type (get_req objs) = GET)),
     check text_of 234 (gets (\<lambda>objs. get_message_type (add_req objs) = ADD)),
     check text_of 235 (gets (\<lambda>objs. get_message_type (mul_req objs) = MUL)),
     check text_of 236 (gets (\<lambda>objs. get_message_type (sub_req objs) = SUB)),
     check text_of 237 (gets (\<lambda>objs. get_message_type (div_req objs) = DIV)),
     check text_of 238 (gets (\<lambda>objs. get_message_type (bye_req objs) = BYE)),
     check text_of 240 (gets (\<lambda>objs. get_message_type (ok_resp objs) = OK)),
     check text_of 241 (gets (\<lambda>objs. get_message_type (failed_resp objs) = FAILED)),
     check text_of 242 (gets (\<lambda>objs. get_message_type (error_resp objs) = ERROR)),
     check text_of 243 (gets (\<lambda>objs. get_message_type (data_resp objs) = DATA)),
     check text_of 245 (gets (\<lambda>objs. get_message_type (long_get_req objs) = GET)),
     check text_of 246 (gets (\<lambda>objs. get_message_type (create_req_2 objs) = CREATE))]"

definition test_message_get_username :: "(int \<Rightarrow> string) \<Rightarrow> (test_objs, unit) test" where
  "test_message_get_username text_of = do_all [
     check text_of 251 (gives (arg get_username login_req) ''alice'')]"

definition test_message_get_table :: "(int \<Rightarrow> string) \<Rightarrow> (test_objs, unit) test" where
  "test_message_get_table text_of = do_all [
     check text_of 256 (gives (arg get_table create_req) ''accounts''),
     check text_of 257 (gives (arg get_table set_req) ''accounts''),
     check text_of 258 (gives (arg get_table get_req) ''accounts''),
     check text_of 259 (gives (arg get_table long_get_req) (replicate 509 (CHR 0x79))),
     check text_of 260 (gives (arg get_table create_req_2) ''line_items'')]"

definition test_message_get_value :: "(int \<Rightarrow> string) \<Rightarrow> (test_objs, unit) test" where
  "test_message_get_value text_of = do_all [
     check text_of 265 (gives (arg get_value push_req) ''47374''),
     check text_of 266 (gives (arg get_value data_resp) ''10012'')]"

definition test_message_get_key :: "(int \<Rightarrow> string) \<Rightarrow> (test_objs, unit) test" where
  "test_message_get_key text_of = do_all [
     check text_of 271 (gives (arg get_key set_req) ''acct123''),
     check text_of 272 (gives (arg get_key get_req) ''acct123'')]"

definition test_message_is_valid :: "(int \<Rightarrow> string) \<Rightarrow> (test_objs, unit) test" where
  "test_message_is_valid text_of = do_all [
     check text_of 277 (gets (\<lambda>objs. is_valid (login_req objs))),
     check text_of 278 (gets (\<lambda>objs. is_valid (create_req objs))),
     check text_of 279 (gets (\<lambda>objs. is_valid (push_req objs))),
     check text_of 280 (gets (\<lambda>objs. is_valid (pop_req objs))),
     check text_of 281 (gets (\<lambda>objs. is_valid (set_req objs))),
     check text_of 282 (gets (\<lambda>objs. is_valid (get_req objs))),
     check text_of 283 (gets (\<lambda>objs. is_valid (add_req objs))),
     check text_of 284 (gets (\<lambda>objs. is_valid (mul_req objs))),
     check text_of 285 (gets (\<lambda>objs. is_valid (sub_req objs))),
     check text_of 286 (gets (\<lambda>objs. is_valid (div_req objs))),
     check text_of 287 (gets (\<lambda>objs. is_valid (bye_req objs))),
     check text_of 288 (gets (\<lambda>objs. is_valid (ok_resp objs))),
     check text_of 289 (gets (\<lambda>objs. is_valid (failed_resp objs))),
     check text_of 290 (gets (\<lambda>objs. is_valid (error_resp objs))),
     check text_of 291 (gets (\<lambda>objs. is_valid (data_resp objs))),
     check text_of 292 (gets (\<lambda>objs. is_valid (long_get_req objs))),
     check text_of 293 (gets (\<lambda>objs. is_valid (create_req_2 objs))),
     check text_of 295 (gets (\<lambda>objs. \<not> is_valid (invalid_login_req objs))),
     check text_of 296 (gets (\<lambda>objs. \<not> is_valid (invalid_create_req objs))),
     check text_of 297 (gets (\<lambda>objs. \<not> is_valid (invalid_data_resp objs)))]"

definition test_message_serialization_encode :: "(int \<Rightarrow> string) \<Rightarrow> (test_objs, unit) test" where
  "test_message_serialization_encode text_of = do_all [
     encodes login_req (\<lambda>s. check text_of 305 (ret (s = ''LOGIN alice'' @ [newline]))),
     encodes create_req (\<lambda>s. check text_of 308 (ret (s = ''CREATE accounts'' @ [newline]))),
     encodes push_req (\<lambda>s. check text_of 311 (ret (s = ''PUSH 47374'' @ [newline]))),
     encodes pop_req (\<lambda>s. check text_of 314 (ret (s = ''POP'' @ [newline]))),
     encodes set_req (\<lambda>s. check text_of 317 (ret (s = ''SET accounts acct123'' @ [newline]))),
     encodes data_resp (\<lambda>s. check text_of 320 (ret (s = ''DATA 10012'' @ [newline])))]"

definition test_message_serialization_encode_long :: "(int \<Rightarrow> string) \<Rightarrow> (test_objs, unit) test" where
  "test_message_serialization_encode_long text_of = do_all [
     encodes long_get_req (\<lambda>s. check text_of 328 (
       ret (s = ''GET '' @ replicate 509 (CHR 0x79) @ '' '' @ replicate 509 (CHR 0x79) @ [newline])))]"

definition test_message_serialization_encode_too_long :: "(int \<Rightarrow> string) \<Rightarrow> (test_objs, unit) test" where
  "test_message_serialization_encode_too_long text_of = do_all [
     try_catch is_InvalidMessage
       (encodes invalid_too_long (\<lambda>_. FAIL (''exception was not thrown for too-long encoded message'')))]"

definition test_message_serialization_decode :: "(int \<Rightarrow> string) \<Rightarrow> (test_objs, unit) test" where
  "test_message_serialization_decode text_of = do_all [
     decodes encoded_login_req (\<lambda>msg. do_all [
       check text_of 347 (ret (get_message_type msg = LOGIN)),
       check text_of 348 (ret (get_num_args msg = 1)),
       check text_of 349 (gives (of_option (get_username msg)) ''alice'')]),
     decodes encoded_create_req (\<lambda>msg. do_all [
       check text_of 352 (ret (get_message_type msg = CREATE)),
       check text_of 353 (ret (get_num_args msg = 1)),
       check text_of 354 (gives (of_option (get_table msg)) ''invoices'')]),
     decodes encoded_data_resp (\<lambda>msg. do_all [
       check text_of 357 (ret (get_message_type msg = DATA)),
       check text_of 358 (ret (get_num_args msg = 1)),
       check text_of 359 (gives (of_option (get_value msg)) ''90125'')]),
     decodes encoded_get_req (\<lambda>msg. do_all [
       check text_of 362 (ret (get_message_type msg = GET)),
       check text_of 363 (ret (get_num_args msg = 2)),
       check text_of 364 (gives (of_option (get_table msg)) ''lineitems''),
       check text_of 365 (gives (of_option (get_key msg)) ''foobar'')]),
     decodes encoded_failed_resp (\<lambda>msg. do_all [
       check text_of 368 (ret (get_message_type msg = FAILED)),
       check text_of 369 (ret (get_num_args msg = 1)),
       check text_of 370 (ret (get_quoted_text msg = ''Something went wrong, shucks!''))]),
     decodes encoded_error_resp (\<lambda>msg. do_all [
       check text_of 373 (ret (get_message_type msg = ERROR)),
       check text_of 374 (ret (get_num_args msg = 1)),
       check text_of 375 (ret (get_quoted_text msg = ''Wow, something really got messed up''))]),
     decodes encoded_bye_req (\<lambda>msg. do_all [
       check text_of 378 (ret (get_message_type msg = BYE)),
       check text_of 379 (ret (get_num_args msg = 0))])]"

definition test_message_serialization_decode_invalid :: "(int \<Rightarrow> string) \<Rightarrow> (test_objs, unit) test" where
  "test_message_serialization_decode_invalid text_of = do_all [
     try_catch is_InvalidMessage
       (decodes encoded_push_req_no_nl (\<lambda>_. FAIL (''No exception thrown decoding message lacking terminating newline''))),
     try_catch is_InvalidMessage
       (decodes encoded_get_req_too_long (\<lambda>_. FAIL (''No exception thrown decoding message that is too long'')))]"

definition test_table_has_key :: "(int \<Rightarrow> string) \<Rightarrow> (test_objs, unit) test" where
  "test_table_has_key text_of = do_all [
     with_guard the_invoices (do_all [
       invoke (on_table the_invoices (tbl_set ''abc123'' ''1000'')),
       invoke (on_table the_invoices (tbl_set ''xyz456'' ''1318''))]),
     with_guard the_invoices (do_all [
       check text_of 414 (gives (on_table the_invoices (tbl_has_key ''abc123'')) True),
       check text_of 415 (gives (on_table the_invoices (tbl_has_key ''xyz456'')) True),
       check text_of 417 (gives (on_table the_invoices (tbl_has_key ''nonexistent'')) False)])]"

definition test_table_get :: "(int \<Rightarrow> string) \<Rightarrow> (test_objs, unit) test" where
  "test_table_get text_of = do_all [
     with_guard the_invoices (do_all [
       invoke (on_table the_invoices (tbl_set ''abc123'' ''1000'')),
       invoke (on_table the_invoices (tbl_set ''xyz456'' ''1318''))]),
     with_guard the_invoices (do_all [
       check text_of 434 (gives (on_table the_invoices (tbl_get ''abc123'')) ''1000''),
       check text_of 435 (gives (on_table the_invoices (tbl_get ''xyz456'')) ''1318''),
       check text_of 437 (gives (on_table the_invoices (tbl_has_key ''nonexistent'')) False)])]"

definition test_table_commit_changes :: "(int \<Rightarrow> string) \<Rightarrow> (test_objs, unit) test" where
  "test_table_commit_changes text_of = do_all [
     with_guard the_invoices (do_all [
       invoke (on_table the_invoices (tbl_set ''abc123'' ''1000'')),
       invoke (on_table the_invoices (tbl_set ''xyz456'' ''1318''))]),
     with_guard the_invoices (do_all [
       check text_of 454 (gives (on_table the_invoices (tbl_get ''abc123'')) ''1000''),
       check text_of 455 (gives (on_table the_invoices (tbl_get ''xyz456'')) ''1318''),
       check text_of 457 (gives (on_table the_invoices (tbl_has_key ''nonexistent'')) False)]),
     with_guard the_invoices (do_all [
       invoke (on_table the_invoices tbl_commit),
       check text_of 467 (gives (on_table the_invoices (tbl_get ''abc123'')) ''1000''),
       check text_of 468 (gives (on_table the_invoices (tbl_get ''xyz456'')) ''1318''),
       check text_of 470 (gives (on_table the_invoices (tbl_has_key ''nonexistent'')) False)])]"

definition test_table_rollback_changes :: "(int \<Rightarrow> string) \<Rightarrow> (test_objs, unit) test" where
  "test_table_rollback_changes text_of = do_all [
     with_guard the_invoices (do_all [
       invoke (on_table the_invoices (tbl_set ''abc123'' ''1000'')),
       invoke (on_table the_invoices (tbl_set ''xyz456'' ''1318''))]),
     with_guard the_invoices (do_all [
       check text_of 487 (gives (on_table the_invoices (tbl_get ''abc123'')) ''1000''),
       check text_of 488 (gives (on_table the_invoices (tbl_get ''xyz456'')) ''1318''),
       check text_of 490 (gives (on_table the_invoices (tbl_has_key ''nonexistent'')) False)]),
     with_guard the_invoices (do_all [
       invoke (on_table the_invoices tbl_rollback)]),
     with_guard the_invoices (do_all [
       check text_of 504 (gives (on_table the_invoices (tbl_has_key ''abc123'')) False),
       check text_of 505 (gives (on_table the_invoices (tbl_has_key ''xyz456'')) False),
       check text_of 506 (gives (on_table the_invoices (tbl_has_key ''nonexistent'')) False)])]"

definition test_table_commit_and_rollback :: "(int \<Rightarrow> string) \<Rightarrow> (test_objs, unit) test" where
  "test_table_commit_and_rollback text_of = do_all [
     with_guard the_line_items (do_all [
       invoke (on_table the_line_items (tbl_set ''apples'' ''100'')),
       invoke (on_table the_line_items (tbl_set ''bananas'' ''150''))]),
     with_guard the_line_items (do_all [
       invoke (on_table the_line_items tbl_commit)]),
     with_guard the_line_items (do_all [
       check text_of 534 (gives (on_table the_line_items (tbl_get ''apples'')) ''100''),
       check text_of 535 (gives (on_table the_line_items (tbl_get ''bananas'')) ''150'')]),
     with_guard the_line_items (do_all [
       invoke (on_table the_line_items (tbl_set ''oranges'' ''220''))]),
     with_guard the_line_items (do_all [
       check text_of 549 (gives (on_table the_line_items (tbl_get ''apples'')) ''100''),
       check text_of 550 (gives (on_table the_line_items (tbl_get ''bananas'')) ''150''),
       check text_of 551 (gives (on_table the_line_items (tbl_get ''oranges'')) ''220'')]),
     with_guard the_line_items (do_all [
       invoke (on_table the_line_items tbl_rollback)]),
     with_guard the_line_items (do_all [
       check text_of 566 (gives (on_table the_line_items (tbl_get ''apples'')) ''100''),
       check text_of 567 (gives (on_table the_line_items (tbl_get ''bananas'')) ''150''),
       check text_of 568 (gives (on_table the_line_items (tbl_has_key ''oranges'')) False)])]"

definition test_value_stack :: "(int \<Rightarrow> string) \<Rightarrow> (test_objs, unit) test" where
  "test_value_stack text_of = do_all [
     check text_of 575 (gets (\<lambda>objs. vs_is_empty (valstack objs))),
     invoke (valstack_push ''foo''),
     check text_of 579 (gets (\<lambda>objs. \<not> vs_is_empty (valstack objs))),
     invoke (valstack_push ''bar''),
     check text_of 581 (gets (\<lambda>objs. \<not> vs_is_empty (valstack objs))),
     invoke (valstack_push ''12345''),
     check text_of 583 (gets (\<lambda>objs. \<not> vs_is_empty (valstack objs))),
     check text_of 586 (gives valstack_get_top ''12345''),
     invoke valstack_pop,
     check text_of 588 (gets (\<lambda>objs. \<not> vs_is_empty (valstack objs))),
     check text_of 589 (gives valstack_get_top ''bar''),
     invoke valstack_pop,
     check text_of 591 (gets (\<lambda>objs. \<not> vs_is_empty (valstack objs))),
     check text_of 592 (gives valstack_get_top ''foo''),
     invoke valstack_pop,
     check text_of 596 (gets (\<lambda>objs. vs_is_empty (valstack objs)))]"

definition test_value_stack_exceptions :: "(int \<Rightarrow> string) \<Rightarrow> (test_objs, unit) test" where
  "test_value_stack_exceptions text_of = do_all [
     check text_of 601 (gets (\<lambda>objs. vs_is_empty (valstack objs))),
     try_catch is_OperationException (do_all [unused (invoke valstack_get_top),
       FAIL (''ValueStack didn'' @ [CHR 0x27] @ ''t throw exception for get_top() on empty stack'')]),
     try_catch is_OperationException (do_all [invoke valstack_pop,
       FAIL (''ValueStack didn'' @ [CHR 0x27] @ ''t throw exception for pop() on empty stack'')])]"

section \<open>main\<close>

text \<open>\<^verbatim>\<open>setup\<close> allocates a fixture, \<^verbatim>\<open>cleanup\<close> frees it; neither touches the framework.\<close>

definition unit_test :: "string \<Rightarrow> (test_objs, unit) test \<Rightarrow> test_objs test_case" where
  "unit_test name f = \<lparr>tc_name = name, tc_setup = (\<lambda>t. (Inr TestObjs, t)), tc_func = f,
     tc_cleanup = (\<lambda>_ t. t), tc_kept = True\<rparr>"

definition unit_tests :: "(int \<Rightarrow> string) \<Rightarrow> test_objs test_case list" where
  "unit_tests text_of = [
     unit_test ''test_message_default_ctor'' (test_message_default_ctor text_of),
     unit_test ''test_message_get_message_type'' (test_message_get_message_type text_of),
     unit_test ''test_message_get_username'' (test_message_get_username text_of),
     unit_test ''test_message_get_table'' (test_message_get_table text_of),
     unit_test ''test_message_get_value'' (test_message_get_value text_of),
     unit_test ''test_message_get_key'' (test_message_get_key text_of),
     unit_test ''test_message_is_valid'' (test_message_is_valid text_of),
     unit_test ''test_message_serialization_encode'' (test_message_serialization_encode text_of),
     unit_test ''test_message_serialization_encode_long'' (test_message_serialization_encode_long text_of),
     unit_test ''test_message_serialization_encode_too_long'' (test_message_serialization_encode_too_long text_of),
     unit_test ''test_message_serialization_decode'' (test_message_serialization_decode text_of),
     unit_test ''test_message_serialization_decode_invalid'' (test_message_serialization_decode_invalid text_of),
     unit_test ''test_table_has_key'' (test_table_has_key text_of),
     unit_test ''test_table_get'' (test_table_get text_of),
     unit_test ''test_table_commit_changes'' (test_table_commit_changes text_of),
     unit_test ''test_table_rollback_changes'' (test_table_rollback_changes text_of),
     unit_test ''test_table_commit_and_rollback'' (test_table_commit_and_rollback text_of),
     unit_test ''test_value_stack'' (test_value_stack text_of),
     unit_test ''test_value_stack_exceptions'' (test_value_stack_exceptions text_of)]"

text \<open>Nothing sets the two hooks, so they stay null.\<close>

definition unit_tests_main :: "string list \<Rightarrow> (int \<Rightarrow> string) \<Rightarrow> stop + (int \<times> tct)" where
  "unit_tests_main argv text_of =
    (case run_tests (unit_tests text_of)
        (TEST_INIT (tct_new (if 2 \<le> length argv then Some (argv ! 1) else None) False False)) of
      Inl x \<Rightarrow> Inl x
    | Inr t \<Rightarrow> Inr (TEST_FINI t))"

section \<open>Every test passes\<close>

text \<open>A test that passes has moved the last assertion's line, and nothing else of the framework.\<close>

definition passes :: "(test_objs, unit) test \<Rightarrow> bool" where
  "passes f \<longleftrightarrow> (\<forall>t. case f (t, TestObjs) of
     (Inr _, (t', _)) \<Rightarrow> t' = t\<lparr>assertion_line := assertion_line t'\<rparr> | (Inl _, _) \<Rightarrow> False)"

lemma check_run:
  "check text_of line cond (t, objs) = (case cond objs of
     (Ok b, objs') \<Rightarrow> if b then (Inr (), (t\<lparr>assertion_line := line\<rparr>, objs'))
       else tctest_fail (''failed ASSERT '' @ text_of line @ '' at line '' @ int_to_string line @ [newline])
         (t\<lparr>assertion_line := line\<rparr>, objs')
   | (Exn e, objs') \<Rightarrow> (Inl (Std_exception e), (t\<lparr>assertion_line := line\<rparr>, objs'))
   | (Blocked, objs') \<Rightarrow> (Inl (Stopped Hung), (t\<lparr>assertion_line := line\<rparr>, objs'))
   | (Undef, objs') \<Rightarrow> (Inl (Stopped Wild), (t\<lparr>assertion_line := line\<rparr>, objs')))"
  unfolding check_def ASSERT_def then_do_def invoke_def by (simp split: prod.split res.split)

lemma gives_run: "gives m a objs = (case m objs of (Ok b, s) \<Rightarrow> (Ok (a = b), s) | (Exn e, s) \<Rightarrow> (Exn e, s)
    | (Blocked, s) \<Rightarrow> (Blocked, s) | (Undef, s) \<Rightarrow> (Undef, s))"
  by (simp add: gives_def bind_def ret_def split: prod.split res.split)

lemmas test_run = passes_def check_run gives_run then_do_def invoke_def pass_def gets_def modify_def ret_def throw_def undef_def
  try_catch_def unused_def arg_def encodes_def decodes_def with_guard_def on_table_def

lemma TestObjs_sel [simp]:
  "objs_m TestObjs = message_empty"
  "login_req TestObjs = Message LOGIN [''alice'']"
  "create_req TestObjs = Message CREATE [''accounts'']"
  "push_req TestObjs = Message PUSH [''47374'']"
  "pop_req TestObjs = Message POP []"
  "set_req TestObjs = Message SET [''accounts'', ''acct123'']"
  "get_req TestObjs = Message GET [''accounts'', ''acct123'']"
  "add_req TestObjs = Message ADD []"
  "mul_req TestObjs = Message MUL []"
  "sub_req TestObjs = Message SUB []"
  "div_req TestObjs = Message DIV []"
  "bye_req TestObjs = Message BYE []"
  "ok_resp TestObjs = Message OK []"
  "failed_resp TestObjs = Message FAILED [''The operation failed'']"
  "error_resp TestObjs = Message ERROR [''An error occurred'']"
  "data_resp TestObjs = Message DATA [''10012'']"
  "long_get_req TestObjs = Message GET [replicate 509 (CHR 0x79), replicate 509 (CHR 0x79)]"
  "create_req_2 TestObjs = Message CREATE [''line_items'']"
  "invalid_login_req TestObjs = Message LOGIN [''bob'', ''extra'']"
  "invalid_create_req TestObjs = Message CREATE [''8foobar'']"
  "invalid_data_resp TestObjs = Message DATA []"
  "invoices TestObjs = table_new ''invoices''"
  "line_items TestObjs = table_new ''line_items''"
  "valstack TestObjs = vs_new"
  by (simp_all add: TestObjs_def push_arg_def Message_def)

lemma identifier_replicate: "isalpha c \<Longrightarrow> 0 < n \<Longrightarrow> is_identifier (replicate n c)"
  by (cases n) (auto simp: list_all_iff isalnum_def)

text \<open>The longest message that can be encoded, and what is too long.\<close>

lemma long_facts:
  "is_valid (Message GET [replicate 509 (CHR 0x79), replicate 509 (CHR 0x79)])"
  "encode (Message GET [replicate 509 (CHR 0x79), replicate 509 (CHR 0x79)]) =
    Inr (''GET '' @ replicate 509 (CHR 0x79) @ '' '' @ replicate 509 (CHR 0x79) @ [newline])"
  "encode (invalid_too_long TestObjs) = Inl (InvalidMessage ''Encoded message exceeds maximum length'')"
  "decode (encoded_get_req_too_long TestObjs) = Inl (InvalidMessage ''Encoded message exceeds maximum length'')"
proof -
  have letters: "is_identifier (replicate 509 (CHR 0x79))"
    by (rule identifier_replicate) (simp_all add: char_simps)
  then show "is_valid (Message GET [replicate 509 (CHR 0x79), replicate 509 (CHR 0x79)])"
    by (simp add: is_valid.simps args_identifier2_def)
  show "encode (Message GET [replicate 509 (CHR 0x79), replicate 509 (CHR 0x79)]) =
    Inr (''GET '' @ replicate 509 (CHR 0x79) @ '' '' @ replicate 509 (CHR 0x79) @ [newline])"
    by (simp add: encode_def MAX_ENCODED_LEN_def)
  show "encode (invalid_too_long TestObjs) = Inl (InvalidMessage ''Encoded message exceeds maximum length'')"
    by (simp add: TestObjs_def encode_def push_arg_def MAX_ENCODED_LEN_def get_message_type_def Message_def)
  show "decode (encoded_get_req_too_long TestObjs) = Inl (InvalidMessage ''Encoded message exceeds maximum length'')"
    by (simp add: TestObjs_def decode_def MAX_ENCODED_LEN_def)
qed

lemma valid_facts:
  "is_valid (Message LOGIN [''alice''])" "is_valid (Message CREATE [''accounts''])" "is_valid (Message PUSH [''47374''])"
  "is_valid (Message POP [])" "is_valid (Message SET [''accounts'', ''acct123''])"
  "is_valid (Message GET [''accounts'', ''acct123''])" "is_valid (Message ADD [])" "is_valid (Message MUL [])"
  "is_valid (Message SUB [])" "is_valid (Message DIV [])" "is_valid (Message BYE [])" "is_valid (Message OK [])"
  "is_valid (Message FAILED [''The operation failed''])" "is_valid (Message ERROR [''An error occurred''])"
  "is_valid (Message DATA [''10012''])" "is_valid (Message CREATE [''line_items''])"
  "\<not> is_valid (Message LOGIN [''bob'', ''extra''])" "\<not> is_valid (Message CREATE [''8foobar''])"
  "\<not> is_valid (Message DATA [])"
  by code_simp+

lemma encode_facts:
  "encode (Message LOGIN [''alice'']) = Inr (''LOGIN alice'' @ [newline])"
  "encode (Message CREATE [''accounts'']) = Inr (''CREATE accounts'' @ [newline])"
  "encode (Message PUSH [''47374'']) = Inr (''PUSH 47374'' @ [newline])"
  "encode (Message POP []) = Inr (''POP'' @ [newline])"
  "encode (Message SET [''accounts'', ''acct123'']) = Inr (''SET accounts acct123'' @ [newline])"
  "encode (Message DATA [''10012'']) = Inr (''DATA 10012'' @ [newline])"
  by code_simp+

lemma decode_facts:
  "decode (''LOGIN alice'' @ [newline]) = Inr (Message LOGIN [''alice''])"
  "decode (''     CREATE   invoices  '' @ [newline]) = Inr (Message CREATE [''invoices''])"
  "decode (''DATA 90125'' @ [newline]) = Inr (Message DATA [''90125''])"
  "decode (''GET lineitems foobar'' @ [newline]) = Inr (Message GET [''lineitems'', ''foobar''])"
  "decode (''FAILED '' @ [CHR 0x22] @ ''Something went wrong, shucks!'' @ [CHR 0x22] @ [newline]) =
     Inr (Message FAILED [[CHR 0x22] @ ''Something went wrong, shucks!'' @ [CHR 0x22]])"
  "decode ('' ERROR '' @ [CHR 0x22] @ ''Wow, something really got messed up'' @ [CHR 0x22] @ [newline]) =
     Inr (Message ERROR [[CHR 0x22] @ ''Wow, something really got messed up'' @ [CHR 0x22]])"
  "decode (''BYE'' @ [newline]) = Inr (Message BYE [])"
  "decode ''PUSH 91025'' = Inl (InvalidMessage ''Message is not terminated by newline'')"
  by code_simp+

lemma TestObjs_encoded:
  "encoded_login_req TestObjs = ''LOGIN alice'' @ [newline]"
  "encoded_create_req TestObjs = ''     CREATE   invoices  '' @ [newline]"
  "encoded_data_resp TestObjs = ''DATA 90125'' @ [newline]"
  "encoded_get_req TestObjs = ''GET lineitems foobar'' @ [newline]"
  "encoded_failed_resp TestObjs = ''FAILED '' @ [CHR 0x22] @ ''Something went wrong, shucks!'' @ [CHR 0x22] @ [newline]"
  "encoded_error_resp TestObjs = '' ERROR '' @ [CHR 0x22] @ ''Wow, something really got messed up'' @ [CHR 0x22] @ [newline]"
  "encoded_bye_req TestObjs = ''BYE'' @ [newline]"
  "encoded_push_req_no_nl TestObjs = ''PUSH 91025''"
  by (simp_all add: TestObjs_def)

lemmas accessor_defs = get_username_def get_table_def get_value_def get_key_def get_num_args_def get_quoted_text_def
  unquote_def

lemma message_tests_pass:
  "passes (test_message_default_ctor text_of)" "passes (test_message_get_message_type text_of)"
  "passes (test_message_get_username text_of)" "passes (test_message_get_table text_of)"
  "passes (test_message_get_value text_of)" "passes (test_message_get_key text_of)"
  by (simp_all add: test_run accessor_defs message_empty_def get_message_type_def test_message_default_ctor_def
      test_message_get_message_type_def test_message_get_username_def test_message_get_table_def
      test_message_get_value_def test_message_get_key_def)

lemma valid_test_passes: "passes (test_message_is_valid text_of)"
  by (simp add: test_run test_message_is_valid_def valid_facts long_facts)

lemma encode_tests_pass:
  "passes (test_message_serialization_encode text_of)" "passes (test_message_serialization_encode_long text_of)"
  "passes (test_message_serialization_encode_too_long text_of)"
  by (simp_all add: test_run encode_facts [simplified] long_facts [simplified] test_message_serialization_encode_def
      test_message_serialization_encode_long_def test_message_serialization_encode_too_long_def)

lemma decode_tests_pass:
  "passes (test_message_serialization_decode text_of)" "passes (test_message_serialization_decode_invalid text_of)"
  by (simp_all add: test_run TestObjs_encoded decode_facts [simplified] long_facts(4) accessor_defs
      test_message_serialization_decode_def test_message_serialization_decode_invalid_def)

lemma view_new [simp]: "view (table_new n) = Map.empty"
  by (simp add: view_def)

lemma view_commit: "table_wf t \<Longrightarrow> view (commit_changes t) = view t"
  by (subst view_def) (simp add: committed_commit)

lemmas table_run = the_invoices_def the_line_items_def lock_table_def unlock_table_def lock_at_def unlock_at_def
  mutex_unlock_def under_mutex_def tbl_set_def tbl_get_def tbl_has_key_def tbl_commit_def tbl_rollback_def
  table_get_view has_key_view committed_commit view_commit

lemma has_key_test_passes: "passes (test_table_has_key text_of)"
  by (simp add: test_run table_run test_table_has_key_def)

lemma get_test_passes: "passes (test_table_get text_of)"
  by (simp add: test_run table_run test_table_get_def)

lemma commit_test_passes: "passes (test_table_commit_changes text_of)"
  by (simp add: test_run table_run test_table_commit_changes_def)

lemma rollback_test_passes: "passes (test_table_rollback_changes text_of)"
  by (simp add: test_run table_run test_table_rollback_changes_def)

lemma commit_and_rollback_test_passes: "passes (test_table_commit_and_rollback text_of)"
  by (simp add: test_run table_run test_table_commit_and_rollback_def)

lemma stack_tests_pass: "passes (test_value_stack text_of)" "passes (test_value_stack_exceptions text_of)"
  by (simp_all add: test_run valstack_push_def valstack_pop_def valstack_get_top_def vs_push_def vs_pop_def vs_get_top_def
      vs_is_empty_def vs_new_def test_value_stack_def test_value_stack_exceptions_def)

section \<open>The whole program\<close>

lemma passesD:
  assumes "passes f"
  shows "\<exists>line objs'. f (t, TestObjs) = (Inr (), (t\<lparr>assertion_line := line\<rparr>, objs'))"
proof -
  obtain r t' objs' where f: "f (t, TestObjs) = (r, (t', objs'))"
    by (cases "f (t, TestObjs)") auto
  have "case f (t, TestObjs) of (Inr _, (t', _)) \<Rightarrow> t' = t\<lparr>assertion_line := assertion_line t'\<rparr> | (Inl _, _) \<Rightarrow> False"
    using assms unfolding passes_def by (rule spec)
  then have "r = Inr ()" "t' = t\<lparr>assertion_line := assertion_line t'\<rparr>"
    unfolding f by (cases r; simp)+
  then show ?thesis
    using f by metis
qed

lemma unit_test_passing: "passes f \<Longrightarrow> passing (unit_test name f)"
  using passesD [of f] by (simp add: passing_def unit_test_def)

lemma unit_tests_passing: "c \<in> set (unit_tests text_of) \<Longrightarrow> passing c"
  using message_tests_pass [of text_of] valid_test_passes [of text_of] encode_tests_pass [of text_of]
    decode_tests_pass [of text_of] has_key_test_passes [of text_of] get_test_passes [of text_of]
    commit_test_passes [of text_of] rollback_test_passes [of text_of] commit_and_rollback_test_passes [of text_of]
    stack_tests_pass [of text_of]
  by (auto simp: unit_tests_def intro!: unit_test_passing)

definition test_names :: "string list" where
  "test_names = [
     ''test_message_default_ctor'',
     ''test_message_get_message_type'',
     ''test_message_get_username'',
     ''test_message_get_table'',
     ''test_message_get_value'',
     ''test_message_get_key'',
     ''test_message_is_valid'',
     ''test_message_serialization_encode'',
     ''test_message_serialization_encode_long'',
     ''test_message_serialization_encode_too_long'',
     ''test_message_serialization_decode'',
     ''test_message_serialization_decode_invalid'',
     ''test_table_has_key'',
     ''test_table_get'',
     ''test_table_commit_changes'',
     ''test_table_rollback_changes'',
     ''test_table_commit_and_rollback'',
     ''test_value_stack'',
     ''test_value_stack_exceptions'']"

lemma unit_test_names: "map tc_name (unit_tests text_of) = test_names"
  by (simp add: unit_tests_def unit_test_def test_names_def)

definition chosen :: "string list \<Rightarrow> string list" where
  "chosen argv = filter (\<lambda>n. length argv < 2 \<or> n = argv ! 1) test_names"

text \<open>
  The program without a name runs all nineteen tests, with the name of one it runs that one, and it
  prints that they passed.
\<close>

lemma unit_tests_run:
  "\<exists>t. unit_tests_main argv text_of = Inr (if chosen argv = [] then 1 else 0, t)
    \<and> num_executed t = int (length (chosen argv)) \<and> failures t = 0
    \<and> stdout t = concat (map (\<lambda>n. n @ ''...passed!'' @ [newline]) (chosen argv))
        @ (if chosen argv = [] then ''No tests were executed!'' else ''All tests passed!'') @ [newline]"
proof -
  let ?t = "TEST_INIT (tct_new (if 2 \<le> length argv then Some (argv ! 1) else None) False False)"
  have t: "num_executed ?t = 0" "failures ?t = 0" "stdout ?t = []" "complete_log ?t = None" "test_log ?t = None"
    "selected n ?t \<longleftrightarrow> length argv < 2 \<or> n = argv ! 1" for n
    by (auto simp: TEST_INIT_def tctest_register_signal_handlers_def tct_new_def selected_def)
  then have "filter (\<lambda>n. selected n ?t) (map tc_name (unit_tests text_of)) = chosen argv"
    by (simp add: chosen_def unit_test_names)
  then obtain line where "run_tests (unit_tests text_of) ?t = Inr ((all_passed (chosen argv) ?t)\<lparr>assertion_line := line\<rparr>)"
    using run_tests_passing [of "unit_tests text_of" ?t] unit_tests_passing by metis
  then show ?thesis
    using t by (simp add: unit_tests_main_def TEST_FINI_def Let_def print_def all_passed_def)
qed

lemma chosen_all: "length argv < 2 \<Longrightarrow> length (chosen argv) = 19"
  by (simp add: chosen_def test_names_def)

section \<open>Properties\<close>


end
