(* ===== verification/Lifetimes.thy ===== *)
theory Lifetimes
  imports SystemFacts UnitTests Demo
begin

text \<open>
  The ends of the objects: the destructors of \<^verbatim>\<open>Table\<close>, \<^verbatim>\<open>Server\<close> and the test fixture, and assignment
  between messages, which may be the same object.  Destroying a mutex that is held, and deleting
  what is deleted already or was never allocated, is undefined.
\<close>

section \<open>Destructors\<close>

definition mutex_destroy :: "tid option \<Rightarrow> unit res" where
  "mutex_destroy m = (if m = None then Ok () else Undef)"

definition table_destroy :: "table \<Rightarrow> unit res" where
  "table_destroy t = mutex_destroy (table_mutex t)"

text \<open>The server with the addresses of the tables that were deleted, in that order.\<close>

record memory =
  mem_server :: server
  mem_freed :: "addr list"

definition memory_of :: "server \<Rightarrow> memory" where
  "memory_of s = \<lparr>mem_server = s, mem_freed = []\<rparr>"

definition delete_table :: "addr \<Rightarrow> (memory, unit) prog" where
  "delete_table a = (\<lambda>m.
     if valid_ptr a (mem_server m) \<and> a \<notin> set (mem_freed m)
     then (case table_destroy (table_at a (mem_server m)) of
             Ok _ \<Rightarrow> (Ok (), m\<lparr>mem_freed := mem_freed m @ [a]\<rparr>)
           | r \<Rightarrow> (r, m))
     else (Undef, m))"

primrec delete_tables :: "(string \<times> addr) list \<Rightarrow> (memory, unit) prog" where
  "delete_tables [] = ret ()"
| "delete_tables (kv # kvs) = seq (delete_table (snd kv)) (delete_tables kvs)"

definition server_destroy :: "(memory, unit) prog" where
  "server_destroy = (\<lambda>m.
     seq (delete_tables (set_of_table (mem_server m))) (\<lambda>m. (mutex_destroy (table_lock (mem_server m)), m)) m)"

text \<open>The fixture of the unit tests owns two tables.\<close>

definition TestObjs_destroy :: "test_objs \<Rightarrow> unit res" where
  "TestObjs_destroy objs = (case table_destroy (invoices objs) of Ok _ \<Rightarrow> table_destroy (line_items objs) | r \<Rightarrow> r)"

section \<open>Assignment\<close>

text \<open>\<^verbatim>\<open>*this = rhs\<close>, the objects given by their addresses: nothing happens when they are the same one.\<close>

definition message_assign :: "addr \<Rightarrow> addr \<Rightarrow> (addr \<Rightarrow> message) \<Rightarrow> (addr \<Rightarrow> message)" where
  "message_assign this rhs objs =
    (if this = rhs then objs
     else objs(this := (objs this)\<lparr>m_message_type := m_message_type (objs rhs), m_args := m_args (objs rhs)\<rparr>))"

lemma message_assign_copies: "message_assign this rhs objs = objs(this := objs rhs)"
  by (cases "objs this"; cases "objs rhs") (simp add: message_assign_def fun_upd_idem)

section \<open>The server's tables\<close>

lemma delete_table_run:
  "valid_ptr a (mem_server m) \<Longrightarrow> a \<notin> set (mem_freed m) \<Longrightarrow> delete_table a m =
    (if table_mutex (table_at a (mem_server m)) = None then (Ok (), m\<lparr>mem_freed := mem_freed m @ [a]\<rparr>) else (Undef, m))"
  by (simp add: delete_table_def table_destroy_def mutex_destroy_def)

text \<open>The loop stops at the first table somebody holds.\<close>

lemma delete_tables_run:
  "\<forall>a \<in> set (map snd kvs). valid_ptr a (mem_server m) \<Longrightarrow> distinct (mem_freed m @ map snd kvs) \<Longrightarrow>
   delete_tables kvs m =
    (let unheld = takeWhile (\<lambda>a. table_mutex (table_at a (mem_server m)) = None) (map snd kvs)
     in (if unheld = map snd kvs then Ok () else Undef, m\<lparr>mem_freed := mem_freed m @ unheld\<rparr>))"
proof (induction kvs arbitrary: m)
  case (Cons kv kvs)
  then show ?case
    by (cases "table_mutex (table_at (snd kv) (mem_server m)) = None")
      (auto simp: delete_table_run seq_run basic_runs Let_def)
qed (simp add: basic_runs)

lemma tables_of_map:
  assumes "server_wf s"
  shows "distinct (map snd (set_of_table s))" "set (map snd (set_of_table s)) = {a. valid_ptr a s}"
proof -
  have d: "distinct (map fst (set_of_table s))"
    using server_wfD(1) [OF assms] by (simp add: smap_wf_def)
  then have f: "(n, a) \<in> set (set_of_table s) \<longleftrightarrow> smap_find n (set_of_table s) = Some a" for n a
    by (simp add: smap_find_map_of)
  have "x = y" if "x \<in> set (set_of_table s)" "y \<in> set (set_of_table s)" "snd x = snd y" for x y
    using that f server_wf_inj [OF assms] by (metis prod.collapse)
  then show "distinct (map snd (set_of_table s))"
    using d by (auto simp: distinct_map inj_on_def)
  show "set (map snd (set_of_table s)) = {a. valid_ptr a s}"
    using f server_wfD(3,7) [OF assms] by force
qed

lemma server_destroy_run:
  assumes "server_wf s"
  defines "unheld \<equiv> takeWhile (\<lambda>a. table_mutex (table_at a s) = None) (map snd (set_of_table s))"
  shows "server_destroy (memory_of s) =
    (if \<forall>a. valid_ptr a s \<longrightarrow> table_mutex (table_at a s) = None then Ok () else Undef,
     \<lparr>mem_server = s, mem_freed = unheld\<rparr>)"
proof -
  have "unheld = map snd (set_of_table s) \<longleftrightarrow> (\<forall>a. valid_ptr a s \<longrightarrow> table_mutex (table_at a s) = None)"
    using tables_of_map(2) [OF assms(1)] unfolding unheld_def takeWhile_eq_all_conv by blast
  moreover have "delete_tables (set_of_table s) (memory_of s) =
      (if unheld = map snd (set_of_table s) then Ok () else Undef, \<lparr>mem_server = s, mem_freed = unheld\<rparr>)"
  proof -
    have "\<forall>a \<in> set (map snd (set_of_table s)). valid_ptr a (mem_server (memory_of s))"
      "distinct (mem_freed (memory_of s) @ map snd (set_of_table s))"
      unfolding tables_of_map(2) [OF assms(1)] using tables_of_map(1) [OF assms(1)] by (simp_all add: memory_of_def)
    from delete_tables_run [OF this] show ?thesis
      unfolding Let_def unheld_def by (simp only: memory_of_def memory.simps append_Nil)
  qed
  ultimately show ?thesis
    using server_wfD(2) [OF assms(1)] by (simp add: server_destroy_def memory_of_def seq_run mutex_destroy_def)
qed

lemma server_destroy_unheld:
  assumes "server_wf s" "\<forall>a. valid_ptr a s \<longrightarrow> table_mutex (table_at a s) = None"
  shows "server_destroy (memory_of s) = (Ok (), \<lparr>mem_server = s, mem_freed = map snd (set_of_table s)\<rparr>)"
proof -
  have "takeWhile (\<lambda>a. table_mutex (table_at a s) = None) (map snd (set_of_table s)) = map snd (set_of_table s)"
    using assms(2) tables_of_map(2) [OF assms(1)] unfolding takeWhile_eq_all_conv by blast
  then show ?thesis
    using server_destroy_run [OF assms(1)] assms(2) by simp
qed

text \<open>Who holds a table: a session in a transaction that has locked it.\<close>

lemma all_unheld_iff:
  assumes "sys_inv \<sigma>"
  shows "(\<forall>a. valid_ptr a (sys_srv \<sigma>) \<longrightarrow> table_mutex (table_at a (sys_srv \<sigma>)) = None)
    \<longleftrightarrow> (\<forall>i. live i \<sigma> \<longrightarrow> locked_tables (conn (world_of i \<sigma>)) = [])"
proof -
  have own: "a \<in> set (locked_tables (conn (world_of i \<sigma>))) \<longleftrightarrow>
      valid_ptr a (sys_srv \<sigma>) \<and> table_mutex (table_at a (sys_srv \<sigma>)) = Some i" if "live i \<sigma>" for i a
    using conn_invD(3,4,5) [OF sys_invD(3) [OF assms that]] by auto
  show ?thesis
  proof (intro iffI allI impI)
    fix i
    assume "\<forall>a. valid_ptr a (sys_srv \<sigma>) \<longrightarrow> table_mutex (table_at a (sys_srv \<sigma>)) = None" "live i \<sigma>"
    then have "a \<notin> set (locked_tables (conn (world_of i \<sigma>)))" for a
      using own by auto
    then show "locked_tables (conn (world_of i \<sigma>)) = []"
      by (cases "locked_tables (conn (world_of i \<sigma>))") auto
  next
    fix a
    assume *: "\<forall>i. live i \<sigma> \<longrightarrow> locked_tables (conn (world_of i \<sigma>)) = []" "valid_ptr a (sys_srv \<sigma>)"
    show "table_mutex (table_at a (sys_srv \<sigma>)) = None"
      using * own sys_invD(5) [OF assms *(2)] by (cases "table_mutex (table_at a (sys_srv \<sigma>))") fastforce+
  qed
qed

section \<open>The fixture\<close>

definition tidy :: "(test_objs, unit) test \<Rightarrow> bool" where
  "tidy f \<longleftrightarrow> (\<forall>t. TestObjs_destroy (snd (snd (f (t, TestObjs)))) = Ok ())"

text \<open>Whichever test has passed, the fixture can be destroyed: no test leaves a table locked.\<close>

lemmas tidy_run = tidy_def TestObjs_destroy_def table_destroy_def mutex_destroy_def test_run

text \<open>
  A failed assertion in the scope of a \<^verbatim>\<open>TableGuard\<close> is another matter: the jump leaves the table
  locked, and \<^verbatim>\<open>cleanup\<close> then destroys a mutex that is held.
\<close>

lemma jump_leaves_fixture_locked:
  assumes "table_mutex (invoices objs) = None"
    and "\<And>t objs. f (t, objs) = (Inl Jumped, (g t, objs))"
  shows "\<exists>objs'. with_guard the_invoices f (t, objs) = (Inl Jumped, (g t, objs')) \<and> TestObjs_destroy objs' = Undef"
  using assms by (simp add: tidy_run table_run)

lemma message_tests_tidy:
  "tidy (test_message_default_ctor text_of)" "tidy (test_message_get_message_type text_of)"
  "tidy (test_message_get_username text_of)" "tidy (test_message_get_table text_of)"
  "tidy (test_message_get_value text_of)" "tidy (test_message_get_key text_of)"
  by (simp_all add: tidy_run accessor_defs message_empty_def get_message_type_def test_message_default_ctor_def
      test_message_get_message_type_def test_message_get_username_def test_message_get_table_def
      test_message_get_value_def test_message_get_key_def)

lemma wire_tests_tidy:
  "tidy (test_message_is_valid text_of)"
  "tidy (test_message_serialization_encode text_of)" "tidy (test_message_serialization_encode_long text_of)"
  "tidy (test_message_serialization_encode_too_long text_of)"
  "tidy (test_message_serialization_decode text_of)" "tidy (test_message_serialization_decode_invalid text_of)"
  by (simp_all add: tidy_run valid_facts encode_facts [simplified] long_facts [simplified] TestObjs_encoded
      decode_facts [simplified] accessor_defs test_message_is_valid_def test_message_serialization_encode_def
      test_message_serialization_encode_long_def test_message_serialization_encode_too_long_def
      test_message_serialization_decode_def test_message_serialization_decode_invalid_def)

lemma table_tests_tidy:
  "tidy (test_table_has_key text_of)" "tidy (test_table_get text_of)" "tidy (test_table_commit_changes text_of)"
  "tidy (test_table_rollback_changes text_of)" "tidy (test_table_commit_and_rollback text_of)"
  by (simp_all add: tidy_run table_run test_table_has_key_def test_table_get_def test_table_commit_changes_def
      test_table_rollback_changes_def test_table_commit_and_rollback_def)

lemma stack_tests_tidy: "tidy (test_value_stack text_of)" "tidy (test_value_stack_exceptions text_of)"
  by (simp_all add: tidy_run valstack_push_def valstack_pop_def valstack_get_top_def vs_push_def vs_pop_def vs_get_top_def
      vs_is_empty_def vs_new_def test_value_stack_def test_value_stack_exceptions_def)

lemma tests_leave_fixture_destroyable: "c \<in> set (unit_tests text_of) \<Longrightarrow> tidy (tc_func c)"
  using message_tests_tidy [of text_of] wire_tests_tidy [of text_of] table_tests_tidy [of text_of] stack_tests_tidy [of text_of]
  by (auto simp: unit_tests_def unit_test_def)

section \<open>Properties\<close>

text \<open>C28: The destructor of the server against every state the server can be in: if no session holds a
  table in a transaction, it deletes every table that was ever created exactly once and destroys
  no mutex that is held; and if one does, it comes to the destruction of a held mutex, which is
  undefined. main therefore may destroy a Server only when the transactions are over; it does so
  only after listen has failed, when there are none.\<close>

theorem tables_destroyed_once:
  assumes "reachable \<sigma>"
  shows "case server_destroy (memory_of (sys_srv \<sigma>)) of (r, m) \<Rightarrow>
    if \<forall>i. live i \<sigma> \<longrightarrow> locked_tables (conn (world_of i \<sigma>)) = []
    then r = Ok () \<and> distinct (mem_freed m) \<and> set (mem_freed m) = {a. valid_ptr a (sys_srv \<sigma>)}
    else r = Undef"
proof -
  note inv = reachable_inv [OF assms]
  note wf = sys_invD(1) [OF inv]
  show ?thesis
  proof (cases "\<forall>i. live i \<sigma> \<longrightarrow> locked_tables (conn (world_of i \<sigma>)) = []")
    case True
    then show ?thesis
      using server_destroy_unheld [OF wf] all_unheld_iff [OF inv] tables_of_map [OF wf] by simp
  next
    case False
    then show ?thesis
      using server_destroy_run [OF wf] all_unheld_iff [OF inv] by auto
  qed
qed

theorem tables_destroyed_once_witness:
  "fst (server_destroy (memory_of (sys_srv demo))) = Undef
    \<and> set (mem_freed (snd (server_destroy (memory_of (sys_srv (the (exec_event (Line 0 (a_line ''COMMIT'')) demo))))))) = {0}"
proof -
  let ?after = "the (exec_event (Line 0 (a_line ''COMMIT'')) demo)"
  have "exec_event (Line 0 (a_line ''COMMIT'')) demo \<noteq> None"
    by code_simp
  note re = demo_step_reachable [OF this]
  have n: "next_tid (?after) = 2" "locked_tables (conn (world_of 0 ?after)) = []"
    "locked_tables (conn (world_of 1 ?after)) = []" "length (table_heap (sys_srv ?after)) = 1"
    by code_simp+
  have "i = 0 \<or> i = 1" if "live i ?after" for i
    using sys_invD(6) [OF reachable_inv [OF re], of i] that n(1) by (auto simp: live_def split: option.splits)
  then have "\<forall>i. live i ?after \<longrightarrow> locked_tables (conn (world_of i ?after)) = []"
    using n(2,3) by blast
  with tables_destroyed_once [OF re] n(4) have
    "set (mem_freed (snd (server_destroy (memory_of (sys_srv ?after))))) = {0}"
    by (auto simp: valid_ptr_def split: prod.splits)
  moreover have "\<not> (\<forall>i. live i demo \<longrightarrow> locked_tables (conn (world_of i demo)) = [])"
    using demo_live(1) demo_txn(2) by (auto intro!: exI [of _ 0])
  with tables_destroyed_once [OF demo_reachable] have "fst (server_destroy (memory_of (sys_srv demo))) = Undef"
    by (simp split: prod.splits)
  ultimately show ?thesis
    by blast
qed

end
