(* ===== verification/Spec2Isabelle.thy ===== *)
theory Spec2Isabelle
  imports Online Counters RioWrappers Sio Lifetimes
begin

text \<open>
  A verification of the multi-threaded key/value server with transaction support: the server, the
  protocol it speaks, the three client programs, the part of \<^verbatim>\<open>csapp.c\<close> they run on, and the unit
  tests with their framework.

  \<^bold>\<open>The program.\<close> \<^verbatim>\<open>server_main.cpp\<close> opens a listening
  socket and runs \<^verbatim>\<open>Server::server_loop\<close>, which accepts connections and starts
  one thread per client. A client's thread runs
  \<^verbatim>\<open>ClientConnection::chat_with_client\<close>: it reads a line
  (\<^verbatim>\<open>rio_readlineb\<close>), decodes it into a \<^verbatim>\<open>Message\<close>,
  calls the handler of its type, and answers with exactly one encoded message. Handlers work on the
  connection's \<^verbatim>\<open>ValueStack\<close> and on the \<^verbatim>\<open>Table\<close>
  objects of the shared \<^verbatim>\<open>Server\<close>. A table holds committed entries and a
  staging map of uncommitted ones, under its own mutex. Outside a transaction a GET or SET takes that
  mutex for its own duration, waiting if it must; inside one it takes it with
  \<^verbatim>\<open>trylock\<close>, keeps it until COMMIT, and is rolled back when it cannot get it.

  \<^bold>\<open>The theories\<close>, from the bottom up.

  \<^item> \<open>KV_Prelude\<close>: the results a piece of C++ can have (\<open>Ok\<close>, a C++ exception \<open>Exn\<close>, \<open>Blocked\<close> on a
    mutex, \<open>Undef\<close> for undefined behaviour), programs as state transformers with those results, their
    sequencing and exception handling, the exceptions of \<^verbatim>\<open>exceptions.h\<close>, and character classes.
  \<^item> \<open>StdMap\<close>: \<^verbatim>\<open>std::map\<close> as a strictly sorted association list, and the contract \<open>std_map\<close>.
  \<^item> \<open>Mutexes\<close>: a pthread mutex as its owner, \<^verbatim>\<open>lock\<close>, \<^verbatim>\<open>trylock\<close>, \<^verbatim>\<open>unlock\<close>, and \<^verbatim>\<open>guard.h\<close>.
  \<^item> \<open>Tables\<close> (\<^verbatim>\<open>table.cpp\<close>), with the contract \<open>txn_store\<close> of a store with staging, commit and
    rollback; \<open>ValueStack\<close> (\<^verbatim>\<open>value_stack.cpp\<close>), with the contract \<open>lifo\<close>.
  \<^item> \<open>CInt\<close>: C \<^verbatim>\<open>int\<close> arithmetic with its overflows, \<^verbatim>\<open>std::stoi\<close> and \<^verbatim>\<open>std::to_string\<close>.
  \<^item> \<open>Messages\<close> (\<^verbatim>\<open>message.cpp\<close>) and \<open>Serialization\<close> (\<^verbatim>\<open>message_serialization.cpp\<close>).
  \<^item> \<open>Server\<close> (\<^verbatim>\<open>server.cpp\<close>: the map of tables) and \<open>Connection\<close> (\<^verbatim>\<open>client_connection.cpp\<close>: every
    handler, the dispatch, the two catch clauses, the destructor).
  \<^item> \<open>ConnectionFacts\<close>, \<open>SessionInv\<close>, \<open>SessionResults\<close>, \<open>Outcomes\<close>, \<open>ChatFacts\<close>: what each handler and
    then a whole turn of the conversation does, on every branch; the invariant \<open>conn_inv\<close> of a
    session and \<open>world_fits\<close> (every stored value fits in a response); which requests wait, lose, nest
    or overflow.
  \<^item> \<open>Sessions\<close>: the running server as a state with any number of sessions, its executable step
    function, and the step relation \<open>sys_step\<close>; \<open>SystemInv\<close>: the invariant of every reachable state.
  \<^item> \<open>Store\<close>: the abstract specification, a database of committed entries with one private buffer per
    client, and the effect of each turn on it; \<open>SystemFacts\<close>: refinement, isolation, liveness, how
    sessions and the process end.
  \<^item> \<open>Threads\<close>: the same server one step at a time: a turn as a sequence of places (\<open>pc\<close>) with one
    access to shared data per step, the executable step function \<open>exec_th\<close> and the relation \<open>th_step\<close>.
    \<open>ThreadInv\<close>, \<open>ThreadSteps\<close>, \<open>ThreadTurn\<close>, \<open>ThreadSafe\<close>: the invariant \<open>th_inv\<close> of every state, and
    that every step keeps it; \<open>ThreadLive\<close>: which steps are enabled, and a measure of the work left;
    \<open>ThreadAlone\<close>: a turn that is left alone is the handler of \<open>Connection\<close>; \<open>ThreadTyped\<close>: what may be
    a name, a key or a value; \<open>ThreadFacts\<close>, \<open>ThreadDemo\<close>: isolation, and a state evaluated in the kernel.
  \<^item> \<open>Serial\<close>: databases, operations, a serial execution, the transaction machine (a committed store,
    and a buffer per thread that acts on the tables it holds), and the contract \<open>two_phase\<close> of a system
    whose steps are labelled with acts of the machine; from it follows that histories are serializable.
    \<open>ThreadStore\<close> labels every step of the server; \<open>ThreadSerial\<close> proves the contract for it.
  \<^item> \<open>Rio\<close> (\<^verbatim>\<open>rio_*\<close> of \<^verbatim>\<open>csapp.c\<close>), \<open>Csapp\<close> (its error functions and wrappers), \<open>RioWrappers\<close> (\<^verbatim>\<open>Rio_*\<close>),
    \<open>Sio\<close> (\<^verbatim>\<open>sio_*\<close>), \<open>Sockets\<close> (\<^verbatim>\<open>open_clientfd\<close>, \<^verbatim>\<open>open_listenfd\<close>).
  \<^item> \<open>Network\<close>: the server between its sockets.  Each connection has the buffered reader \<^verbatim>\<open>m_fdbuf\<close>, a
    script of what \<^verbatim>\<open>read\<close> delivers and one of what \<^verbatim>\<open>write\<close> makes of the responses; a step is one of
    \<open>Threads\<close>, with the line or the response going through \<open>Rio\<close>.  \<open>Responses\<close>: each request is answered
    once, in order, while the threads interleave; \<open>NetFacts\<close>: the network refines the threads, a client
    served from its first byte to its last response, failed writes and peers that are gone;
    \<open>Descriptors\<close>: no two sessions share a descriptor; \<open>NetDemo\<close>: two clients, evaluated.
  \<^item> \<open>Wire\<close>: the encoded messages through the buffered reader; \<open>Clients\<close> (\<^verbatim>\<open>get_value.cpp\<close>,
    \<^verbatim>\<open>set_value.cpp\<close>, \<^verbatim>\<open>incr_value.cpp\<close>); \<open>EndToEnd\<close> and \<open>Increment\<close>: a client's lines served by a session.
  \<^item> \<open>Online\<close>: a conversation of \<^verbatim>\<open>chat_with_client\<close> as a run of the network on the bytes (\<open>session_online\<close>);
    so the clients are served as EndToEnd shows, by the server at its sockets (\<open>serves\<close>).
  \<^item> \<open>Counters\<close>: what the history says of transactions that count, and two clients that count at once,
    with and without a transaction, evaluated.
  \<^item> \<open>Lifetimes\<close>: the destructors of server, table and test fixture over the addresses they free, and the
    assignment of messages.
  \<^item> \<open>TcTest\<close> (\<^verbatim>\<open>tctest.h\<close>, \<^verbatim>\<open>tctest.c\<close>): a part of a test as a function of the framework's state and of the
    test's objects that may also jump, throw or take the process with it; the macros, the signal
    handlers, the verdict.  \<open>UnitTests\<close> (\<^verbatim>\<open>unit_tests.cpp\<close>): the repository's tests, over the definitions of
    the code they test.
  \<^item> \<open>Demo\<close>: a reachable state with a transaction in progress, evaluated in the kernel.

  \<^bold>\<open>How state and operations correspond.\<close> A C++ object is a record with the same
  fields; a table is reached through its address in the server's heap of tables, as
  \<^verbatim>\<open>Table*\<close> is, so that the aliasing of the map, the locked set and the
  handlers is kept. A C++ \<^verbatim>\<open>string\<close> is a list of bytes. A member function is a
  state transformer; one that takes a mutex takes the calling thread's id as well. Reading or writing
  a table without its mutex, unlocking a mutex one does not own, a signed overflow, and an index past
  the end of a vector are \<open>Undef\<close>, so that theorems which exclude \<open>Undef\<close>
  exclude data races on tables. A \<^verbatim>\<open>throw\<close> is \<open>Exn\<close>;
  \<open>chat_catch\<close> is the pair of catch clauses of
  \<^verbatim>\<open>chat_with_client\<close>, an exception inside one of them leaves the thread, and
  that ends the process (\<open>Terminated\<close>).

  \<^bold>\<open>Concurrency\<close> is modelled at two levels, and a third, \<open>Network\<close>,
  below them. A step of \<open>sys_step\<close> is one whole turn of one client's thread, a hang-up,
  or a connection accepted; a turn that would wait is not enabled (\<open>Blocked\<close>), and has
  changed nothing another thread can see. A step of \<open>th_step\<close> is one access of one thread
  to what the threads share: taking or releasing the lock of the table map or the mutex of a table,
  the body under the map's lock, one use of a table, one table committed, rolled back or unlocked;
  other threads run between any two of them, for instance after COMMIT has released its first table
  and before it has released its second. Accesses to shared data without the mutex are
  \<open>Undef\<close> at both levels, so a body under a mutex is taken as one step without loss.
  \<open>turnwise_runs_are_interleavings\<close> shows that every run of the first level is one of the
  second, \<open>turn_alone_is_handler\<close> that the steps of a turn add up to the handler, and
  \<open>threads_refine_machine\<close> and \<open>threads_serializable\<close> that all
  interleavings, turn by turn or not, are serializable: what commits can be taken one transaction
  after the other. The history of a run holds what was created, written and read, a read of a key
  without an entry included; a statement on a table that does not exist is not in it, and could not be
  (\<open>missing_table_appears\<close>).

  \<^bold>\<open>The system below.\<close> \<^verbatim>\<open>read\<close> and
  \<^verbatim>\<open>write\<close> are scripts of what the kernel does (bytes, an interruption, an
  error; how much is written), and theorems hold for every script; a \<^verbatim>\<open>write\<close>
  whose peer is gone raises \<^verbatim>\<open>SIGPIPE\<close>, which ends the process. Socket calls,
  \<^verbatim>\<open>getaddrinfo\<close>, \<^verbatim>\<open>strerror\<close> and thread creation are
  arguments that give their results. A descriptor's write in \<open>Connection\<close>,
  \<open>Sessions\<close> and \<open>Threads\<close> delivers all the bytes; \<open>Network\<close>
  puts the scripts below it. Buffer sizes are those of the source (1024 and 8192 bytes) and never near
  the range of \<^verbatim>\<open>int\<close>.

  \<^bold>\<open>Termination and fuel.\<close> Loops are structural recursions, or functions with a
  measure on the script and on what is left to do. \<open>ltoa_loop\<close> is a partial function, and
  \<open>putl_prints_decimal\<close> shows that it returns. \<open>read_lines\<close> takes fuel for
  the number of lines; the length of the list of lines is enough
  (\<open>messages_survive_the_wire\<close>). The server itself runs for ever; what ends is each turn,
  and \<open>turns_are_bounded\<close> gives the number of steps.

  \<^bold>\<open>What the theorems show.\<close> Below and in the component theories, in the order C1,
  C2, and so on: the serializability of all interleavings and the refinement of the transaction
  machine, step by step, and of the abstract database, turn by turn; isolation; no deadlock; the
  number of steps in a turn; the absence of data races; the invariant of every reachable state; the
  result of every turn and its one response; the round trip of messages, also over the wire; what GET
  reads; what types of values a state can hold; that an ended session leaves nothing behind; what a
  client gets on its socket for the lines it sends; that the repository's own unit tests pass on the
  definitions; and the exact conditions under which the server is ended by a client or runs into
  undefined behaviour. Committed
  transactions are durable: later steps only add to the history. The three clients are proved end to
  end, from their arguments to the tables of a server at its sockets, and the server's destructor
  against every reachable state. Increments in transactions
  add up; two without them can lose one. Some theorems record
  what the code does and does not mean to: \<open>threads_end_the_process_iff\<close>,
  \<open>server_terminates_iff\<close>, \<open>gone_peer_ends_server\<close>,
  \<open>responses_survive_writes\<close>, \<open>undefined_iff_overflow\<close>,
  \<open>created_tables_stay\<close>, \<open>missing_table_appears\<close>,
  \<open>longest_message_is_lost\<close>, \<open>set_value_trusts_old_response\<close>,
  \<open>operands_ignore_the_rest\<close>, \<open>failed_arithmetic_consumes\<close>,
  \<open>listen_misses_lookup_failure\<close>, \<open>accept_failure_ends_server\<close>,
  \<open>Rio_writen_huge\<close>.

  \<^bold>\<open>Not modelled.\<close> Failures of \<^verbatim>\<open>pthread_mutex_init\<close> and
  of memory allocation; the memory of strings, messages, stacks and connections, which own no mutex;
  \<^verbatim>\<open>Free\<close>, \<^verbatim>\<open>Freeaddrinfo\<close> and
  \<^verbatim>\<open>Pthread_exit\<close>, which only call the C library; the rest of
  \<^verbatim>\<open>csapp.h\<close>, which is declarations. Two things C++ leaves undefined
  are given what happens in practice: a jump out of a scope skips its destructors
  (\<open>with_guard\<close>), and the local \<^verbatim>\<open>t\<close> of
  \<^verbatim>\<open>TEST\<close> after a jump is old or new, as an argument says
  (\<open>run_test\<close>).
\<close>

section \<open>Further facts\<close>

text \<open>While a client holds a table, any run of events of other clients and of the accepting thread
  leaves that client's session and the table, with its committed and pending entries, exactly as
  they are, and the client still holds it.\<close>

lemma transaction_isolation:
  assumes "reachable \<sigma>" "run_events es \<sigma> = Some \<sigma>'" "holds j a \<sigma>" "\<forall>e \<in> set es. event_tid e \<noteq> Some j"
  shows "holds j a \<sigma>' \<and> table_at a (sys_srv \<sigma>') = table_at a (sys_srv \<sigma>) \<and> sessions \<sigma>' j = sessions \<sigma> j"
  using run_isolation [OF reachable_inv [OF assms(1)] assms(2) _ assms(4)] assms(3)
  by (auto simp: holds_def)

lemma transaction_isolation_witness:
  "\<exists>\<sigma>'. run_events [Line 1 (a_line ''PUSH 9''), Accepted 6 True, Hangup 1] demo = Some \<sigma>'
    \<and> table_at 0 (sys_srv \<sigma>') = table_at 0 (sys_srv demo)"
proof -
  let ?es = "[Line 1 (a_line ''PUSH 9''), Accepted 6 True, Hangup 1]"
  have "run_events ?es demo \<noteq> None"
    by code_simp
  then obtain \<sigma>' where run: "run_events ?es demo = Some \<sigma>'" by blast
  moreover have "holds 0 0 demo"
    using demo_live demo_txn by (simp add: holds_def)
  ultimately show ?thesis
    using transaction_isolation [OF demo_reachable run, of 0 0] by (simp add: event_tid_def)
qed

text \<open>No two clients ever have the same table in their locked sets, and a table in a client's locked
  set is one whose mutex that client owns.\<close>

lemma mutual_exclusion:
  assumes "reachable \<sigma>" "live i \<sigma>" "live j \<sigma>" "i \<noteq> j" "a \<in> set (locked_tables (conn (world_of i \<sigma>)))"
  shows "a \<notin> set (locked_tables (conn (world_of j \<sigma>))) \<and> table_mutex (table_at a (sys_srv \<sigma>)) = Some i"
  using assms(2-5) holds_owner(2) [OF reachable_inv [OF assms(1)], of i a]
    holds_owner(2) [OF reachable_inv [OF assms(1)], of j a]
  by (auto simp: holds_def)

lemma mutual_exclusion_witness:
  "0 \<notin> set (locked_tables (conn (world_of 1 demo))) \<and> table_mutex (table_at 0 (sys_srv demo)) = Some 0"
  using mutual_exclusion [OF demo_reachable demo_live(1,2) _ demo_txn(2)] by simp

text \<open>A request is made to wait only for a table that another client holds inside a transaction, and
  every request of that other client, whatever it is, can run at once, as can its hang-up: there
  is no cycle of waiting clients.\<close>

lemma no_deadlock:
  assumes "reachable \<sigma>" "status \<sigma> = Running" "live i \<sigma>" "exec_event (Line i buf) \<sigma> = None"
  shows "\<exists>j a. j \<noteq> i \<and> holds j a \<sigma> \<and> m_in_transaction (conn (world_of j \<sigma>))
    \<and> (\<forall>buf'. exec_event (Line j buf') \<sigma> \<noteq> None) \<and> exec_event (Hangup j) \<sigma> \<noteq> None"
proof -
  note inv = reachable_inv [OF assms(1)]
  obtain req a j where j: "j \<noteq> i" "holds j a \<sigma>" "m_in_transaction (conn (world_of j \<sigma>))"
    using waits_for_holder [OF inv assms(2-4)] by blast
  then have "live j \<sigma>"
    by (simp add: holds_def)
  with j txn_enabled [OF inv assms(2)] assms(2) show ?thesis
    by auto
qed

lemma no_deadlock_witness:
  "\<exists>j a. j \<noteq> 1 \<and> holds j a demo \<and> m_in_transaction (conn (world_of j demo))
    \<and> (\<forall>buf'. exec_event (Line j buf') demo \<noteq> None) \<and> exec_event (Hangup j) demo \<noteq> None"
  by (rule no_deadlock [OF demo_reachable demo_live(3,2) demo_waits])

text \<open>Before LOGIN, every request that decodes and is neither LOGIN nor BYE is answered with a FAILED
  message, the session goes on, and nothing but the bytes sent has changed.\<close>

lemma login_required:
  assumes "decode (c_str buf) = Inr req" "get_message_type req \<noteq> LOGIN" "get_message_type req \<noteq> BYE"
    and "\<not> m_logged_in (conn w)"
  shows "chat_iteration i buf w = (Ok True, say (''FAILED User has not logged in'' @ [newline]) w)"
proof -
  have body: "chat_body i buf w = (Exn (OperationException not_logged_in), w)"
    using assms by (simp add: chat_body_def bind_case basic_runs not_logged_in_def)
  have "encode (Message FAILED [not_logged_in]) = Inr (''FAILED User has not logged in'' @ [newline])"
    by (simp add: not_logged_in_def encode_def MAX_ENCODED_LEN_def)
  with body show ?thesis
    by (simp add: chat_iteration_def chat_catch_def seq_run send_message_run basic_runs)
qed

lemma login_required_witness:
  "fst (chat_iteration 0 (a_line ''CREATE t'') (world_new server_new 3)) = Ok True"
proof -
  have "decode (c_str (a_line ''CREATE t'')) = Inr (Message CREATE [''t''])"
    by code_simp
  with login_required [OF this] show ?thesis by (simp add: new_world)
qed

text \<open>A request that is made to wait has changed nothing another thread can see, and sent nothing: it
  may be taken as not begun.\<close>

lemma waiting_changes_nothing:
  assumes "conn_inv i w" "world_fits w" "fst (chat_iteration i buf w) = Blocked"
  shows "srv (snd (chat_iteration i buf w)) = srv w \<and> wire (snd (chat_iteration i buf w)) = wire w"
  by (rule blocked_turn [OF assms])

lemma waiting_changes_nothing_witness:
  "srv (snd (chat_iteration 1 (a_line ''GET t k'') (world_of 1 demo))) = sys_srv demo"
proof -
  note inv = reachable_inv [OF demo_reachable]
  have "fst (chat_iteration 1 (a_line ''GET t k'') (world_of 1 demo)) = Blocked"
    by code_simp
  with waiting_changes_nothing [OF sys_invD(3,4) [OF inv demo_live(2)]] show ?thesis by simp
qed

text \<open>An arithmetic request with an operand that is not a number, or is one that does not fit in an
  int, is refused, and both operands are gone from the client's stack.\<close>

lemma failed_arithmetic_consumes:
  assumes "operands w = r # l # vs" "stoi l = Inl e \<or> stoi r = Inl e"
  shows "\<forall>h \<in> {handle_add, handle_sub, handle_mul, handle_div}.
    \<exists>t. h w = (Exn (OperationException t), drop_value (drop_value w)) \<and> operands (snd (h w)) = vs"
  using assms
  by (cases "stoi l"; cases "stoi r")
     (auto simp: handle_add_def handle_sub_def handle_mul_def handle_div_def Let_def
       binary_operation_run [OF assms(1)] split: stoi_error.split)

lemma failed_arithmetic_consumes_witness:
  "operands (snd (handle_add (push_value ''x'' (push_value ''1'' (world_new server_new 3))))) = []"
proof -
  let ?w = "push_value ''x'' (push_value ''1'' (world_new server_new 3))"
  have "operands ?w = ''x'' # ''1'' # []" "stoi ''x'' = Inl Invalid_argument"
    by code_simp+
  with failed_arithmetic_consumes [of ?w "''x''" "''1''" "[]"] show ?thesis by blast
qed

text \<open>A turn that ends normally has sent the client exactly one response, a valid OK, DATA, FAILED or
  ERROR message in its encoded form, and nothing else; a turn that waits, is undefined or lets an
  exception escape has sent nothing.\<close>

lemma one_response_per_turn:
  assumes "reachable \<sigma>" "live i \<sigma>"
  shows "turn_answered (world_of i \<sigma>) (chat_iteration i buf (world_of i \<sigma>))"
  using turn_outcome [OF sys_invD(3,4) [OF reachable_inv [OF assms(1)] assms(2)]] by blast

lemma one_response_per_turn_witness:
  "turn_answered (world_of 1 demo) (chat_iteration 1 (a_line ''PUSH 8'') (world_of 1 demo))"
  by (rule one_response_per_turn [OF demo_reachable demo_live(2)])

text \<open>A client's line makes the whole server process end in std::terminate exactly when it is a GET
  or SET, inside a transaction, on a table another client holds and whose name has more than 984
  letters: the FAILED response is then too long to encode, and the exception is thrown inside a
  catch clause.\<close>

lemma server_terminates_iff:
  assumes "reachable \<sigma>" "status \<sigma> = Running" "live i \<sigma>"
  shows "(\<exists>\<sigma>'. sys_step \<sigma> (Line i buf) \<sigma>' \<and> status \<sigma>' = Terminated) \<longleftrightarrow>
    (\<exists>req. admitted buf (world_of i \<sigma>) = Some req \<and> oversize i req (world_of i \<sigma>))"
  by (rule terminated_iff [OF reachable_inv [OF assms(1)] assms(2,3)])

lemma server_terminates_iff_witness:
  "\<not> (\<exists>\<sigma>'. sys_step demo (Line 1 (a_line ''GET t k'')) \<sigma>' \<and> status \<sigma>' = Terminated)"
proof -
  have "(case admitted (a_line ''GET t k'') (world_of 1 demo) of None \<Rightarrow> False
      | Some req \<Rightarrow> oversize 1 req (world_of 1 demo)) = False"
    by code_simp
  then show ?thesis
    unfolding server_terminates_iff [OF demo_reachable demo_live(3,2)] by (auto split: option.splits)
qed

text \<open>In every reachable state, a client whose stack is not empty gets its top value: the DATA
  message fits in the protocol's 1024 bytes, although values reach the stack through PUSH,
  through GET and through arithmetic.\<close>

lemma top_always_answered:
  assumes "reachable \<sigma>" "live i \<sigma>" "operands (world_of i \<sigma>) = v # vs"
  shows "\<exists>line. encode (Message DATA [v]) = Inr line
    \<and> handle_top req (world_of i \<sigma>) = (Ok (), say line (world_of i \<sigma>))"
proof -
  have "fits v"
    using sys_invD(4) [OF reachable_inv [OF assms(1)] assms(2)] assms(3) by (simp add: world_fits_def)
  then obtain line where "encode (Message DATA [v]) = Inr line"
    using fits_encode by blast
  then show ?thesis
    using assms(3) by (simp add: handle_top_run send_message_run)
qed

lemma top_always_answered_witness:
  "\<exists>w. handle_top (Message TOP []) (world_of 1 (the (exec_event (Line 1 (a_line ''PUSH 5'')) demo))) = (Ok (), w)"
proof -
  let ?\<sigma> = "the (exec_event (Line 1 (a_line ''PUSH 5'')) demo)"
  have "exec_event (Line 1 (a_line ''PUSH 5'')) demo \<noteq> None" "live 1 ?\<sigma>" "operands (world_of 1 ?\<sigma>) = [''5'']"
    by code_simp+
  moreover from this(1) have "reachable ?\<sigma>"
    by (rule demo_step_reachable)
  ultimately show ?thesis
    using top_always_answered by blast
qed

text \<open>When getaddrinfo fails, open_listenfd returns -2, which Server::listen does not take for an
  error: the server starts serving on a listening descriptor that is none, and its first accept
  ends the process with status 0.\<close>

lemma listen_misses_lookup_failure:
  assumes "gai \<noteq> 0"
  shows "status (server_main 2 (fst (open_listenfd gai listp rc))) = Running
    \<and> listen_fd (sys_srv (server_main 2 (fst (open_listenfd gai listp rc)))) = -2
    \<and> status (server_main 2 (-1)) = Exited 1
    \<and> (client_fd < 0 \<longrightarrow> status (accept_connection client_fd c (server_main 2 (fst (open_listenfd gai listp rc)))) = Exited 0)"
  using assms
  by (simp add: open_listenfd_def server_main_def server_listen_def seq_run bind_case basic_runs modify_def
      system_start_def accept_connection_def log_error_def)

lemma listen_misses_lookup_failure_witness:
  "listen_fd (sys_srv (server_main 2 (fst (open_listenfd (-8) [] 0)))) = -2"
  using listen_misses_lookup_failure [of "-8" "[]" 0] by simp

text \<open>A failed accept, which may be transient, ends the whole server with exit status 0, as the
  wrapper Accept does, whatever sessions are running: no event is possible after it.\<close>

lemma accept_failure_ends_server:
  assumes "status \<sigma> = Running" "Accept strerror (client_fd, errno) = Exits st out"
    and "sys_step \<sigma> (Accepted client_fd created) \<sigma>'"
  shows "st = 0 \<and> status \<sigma>' = Exited st \<and> (\<forall>e. exec_event e \<sigma>' = None)"
proof -
  have "client_fd < 0" "st = 0"
    using assms(2) by (auto simp: Accept_cases split: if_splits)
  moreover have "status \<sigma>' = Exited 0"
    using assms(3) \<open>client_fd < 0\<close> by (simp add: accepted_iff accept_connection_def)
  moreover have "exec_event e \<sigma>' = None" for e
    using \<open>status \<sigma>' = Exited 0\<close> by (cases e) simp_all
  ultimately show ?thesis by simp
qed

lemma accept_failure_ends_server_witness:
  "status (accept_connection (-1) True demo) = Exited 0"
proof -
  have "Accept (\<lambda>_. ''Too many open files'') (-1, 24) =
      Exits 0 (''Accept error: '' @ ''Too many open files'' @ [newline])"
    by (simp add: Accept_cases)
  moreover have "sys_step demo (Accepted (-1) True) (accept_connection (-1) True demo)"
    by (rule sys_step.accepted [OF demo_live(3)])
  ultimately show ?thesis
    using accept_failure_ends_server [OF demo_live(3)] by blast
qed

section \<open>Properties\<close>

text \<open>C1: The transactions of the server are serializable, however its threads interleave inside their
  turns: take any execution from the start, let its history be the committed transactions and the
  statements outside transactions in the order they committed, each with what it created, wrote
  and read; then running that history one transaction after the other on an empty database
  succeeds, every read giving what the client got, and leaves the store the server has. When no
  COMMIT is half done that store is what the tables hold.\<close>

theorem threads_serializable:
  assumes "run_th es (th_start (server_main argc fd)) = Some T"
  shows "run_serially (snd (history es (th_start (server_main argc fd)))) Map.empty = Some (m_store (shown T))
    \<and> (status (th_sys T) = Running \<and> (\<forall>i. live i (th_sys T) \<longrightarrow> \<not> committing (th_pc T i)) \<longrightarrow>
      m_store (shown T) = abs_store (sys_srv (th_sys T)))"
  using db.serial_store [OF serial_history [OF assms]] shown_store [OF run_th_inv [OF th_inv_start assms]] by blast

theorem threads_serializable_witness:
  "run_serially [(0, [Made ''t'']), (0, [Put ''t'' ''k'' ''7'']), (1, [Got ''t'' ''k'' (Some ''7'')])] Map.empty
    = Some (abs_store (sys_srv (th_sys th_demo_end)))"
  using threads_serializable [OF th_demo_end_run] th_demo_history th_demo_end_calm by simp

text \<open>C2: Every single step of every thread, from any reachable state, is one act of the transaction
  machine or none: a statement outside a transaction acts on the committed store when it uses the
  table, one inside acts on its thread's buffer, COMMIT acts with its first step, before any
  table is touched, and a failed or abandoned transaction gives up its buffer with the first step
  of the rollback. All other steps, among them every step that locks, unlocks, commits or rolls
  back a table, change nothing the machine shows.\<close>

theorem threads_refine_machine:
  assumes "th_reachable T" "exec_th e T = Some T'"
  shows "machine_act (fst (label e T T')) (snd (label e T T')) (shown T) = Some (shown T')"
  using machine_step [OF th_reachable_inv [OF assms(1)], of "fst (label e T T')" "snd (label e T T')" T'] assms(2)
  by (auto simp: labelled_def)

theorem threads_refine_machine_witness:
  "\<exists>T'. exec_th (Th_line 0 (a_line ''COMMIT'')) th_demo = Some T' \<and> machine_act 0 Commit (shown th_demo) = Some (shown T')"
proof -
  have "exec_th (Th_line 0 (a_line ''COMMIT'')) th_demo \<noteq> None"
    by code_simp
  then obtain T' where T': "exec_th (Th_line 0 (a_line ''COMMIT'')) th_demo = Some T'"
    by blast
  have "label (Th_line 0 (a_line ''COMMIT'')) th_demo (the (exec_th (Th_line 0 (a_line ''COMMIT'')) th_demo)) = (0, Commit)"
    by code_simp
  then show ?thesis
    using threads_refine_machine [OF th_demo_reachable T'] T' by (simp del: exec_th.simps label.simps)
qed

text \<open>C3: What has committed stays committed. Let the threads run from the start, and then on in any way:
  the transactions that had committed are still in the history, in the same order and with the
  same statements, followed only by those that committed later; the store is what these later
  ones make of the earlier store; and an entry keeps its value as long as no later committed
  transaction writes that very key, so neither an unfinished transaction nor one that is rolled
  back ever changes it.\<close>

theorem commits_are_durable:
  assumes "run_th es (th_start (server_main argc fd)) = Some T" "run_th es' T = Some T'"
  shows "\<exists>more. snd (history (es @ es') (th_start (server_main argc fd))) = snd (history es (th_start (server_main argc fd))) @ more
    \<and> run_serially more (m_store (shown T)) = Some (m_store (shown T'))
    \<and> (\<forall>n m k. m_store (shown T) n = Some m \<and> (\<forall>(i, xs) \<in> set more. \<forall>v. Put n k v \<notin> set xs) \<longrightarrow>
         (\<exists>m'. m_store (shown T') n = Some m' \<and> m' k = m k))"
proof -
  obtain more where more: "snd (history (es @ es') (th_start (server_main argc fd))) =
      snd (history es (th_start (server_main argc fd))) @ more"
    "run_serially more (m_store (shown T)) = Some (m_store (shown T'))"
    using longer_history [OF assms] by blast
  have "\<exists>m'. m_store (shown T') n = Some m' \<and> m' k = m k"
    if "m_store (shown T) n = Some m" "\<forall>(i, xs) \<in> set more. \<forall>v. Put n k v \<notin> set xs" for n m k
    using run_ops_keeps [OF more(2) [unfolded run_serially_def] that(1)] that(2) by fastforce
  with more show ?thesis
    by blast
qed

theorem commits_are_durable_witness:
  "\<exists>more. snd (history (th_demo_events @ th_demo_more) (th_start (server_main 2 3))) =
      snd (history th_demo_events (th_start (server_main 2 3))) @ more
    \<and> run_serially more (m_store (shown th_demo)) = Some (m_store (shown th_demo_end))"
  using commits_are_durable [OF th_demo_run th_demo_more_run] by blast



text \<open>C5: Every step of the concrete server, from any reachable state, is one abstract effect of one
  client on the database of committed entries and per-client buffers: a SET outside a transaction
  stores, one inside buffers, COMMIT publishes the client's whole buffer, a failed transaction or
  the end of the session discards it, and nothing else changes anything for anybody.\<close>

theorem server_refines_database:
  assumes "reachable \<sigma>" "sys_step \<sigma> e \<sigma>'"
  shows "abs_of \<sigma>' = (case effect_of_event e \<sigma> of (i, eff) \<Rightarrow> apply_at i eff (abs_of \<sigma>))"
  by (rule step_effect [OF reachable_inv [OF assms(1)] assms(2)])

theorem server_refines_database_witness:
  "abs_of (the (exec_event (Hangup 0) demo)) = apply_at 0 Aborts (abs_of demo)"
proof -
  have "exec_event (Hangup 0) demo = Some (the (exec_event (Hangup 0) demo))"
    using demo_live by simp
  then have "sys_step demo (Hangup 0) (the (exec_event (Hangup 0) demo))"
    by (simp only: exec_step)
  from server_refines_database [OF demo_reachable this] show ?thesis
    by (simp add: effect_of_event_def)
qed

text \<open>C6: As long as a thread has a table, for one statement or for its transaction, any steps of the
  other threads, taken in any order between any two steps of its own, leave the table with its
  committed and pending entries, the thread's session and its place in the code exactly as they
  are; and two threads never have the same table.\<close>

theorem threads_isolated:
  assumes "th_reachable T" "owns j a T" "run_th es T = Some T'" "\<forall>e \<in> set es. th_event_tid e \<noteq> Some j"
  shows "table_at a (sys_srv (th_sys T')) = table_at a (sys_srv (th_sys T))
    \<and> sessions (th_sys T') j = sessions (th_sys T) j \<and> th_pc T' j = th_pc T j
    \<and> (\<forall>i. owns i a T \<longrightarrow> i = j)"
proof -
  have "i = j" if "owns i a T" for i
    using owns_mutex(2) [OF th_reachable_inv [OF assms(1)] that]
      owns_mutex(2) [OF th_reachable_inv [OF assms(1)] assms(2)] by simp
  with run_isolates [OF th_reachable_inv [OF assms(1)] assms(3,2,4)] show ?thesis
    by blast
qed

theorem threads_isolated_witness:
  "\<exists>T'. run_th [Th_accept 6 True, Th_line 2 (a_line ''BYE'')] th_demo = Some T'
    \<and> table_at 0 (sys_srv (th_sys T')) = table_at 0 (sys_srv (th_sys th_demo))"
proof -
  let ?es = "[Th_accept 6 True, Th_line 2 (a_line ''BYE'')]"
  have "run_th ?es th_demo \<noteq> None"
    by code_simp
  then obtain T' where run: "run_th ?es th_demo = Some T'"
    by blast
  moreover have "owns 0 0 th_demo"
    using th_demo_facts by (simp add: owns_def runnable_def)
  ultimately show ?thesis
    using threads_isolated [OF th_demo_reachable _ run, of 0 0] by (simp add: th_event_tid_def del: run_th.simps)
qed

text \<open>C7: There is no deadlock among the threads: if no thread can take another step, every thread that
  is in the middle of a turn waits to lock a table for a statement outside a transaction, and the
  thread that has this table waits for nobody but its own client, between two requests of a
  transaction in which it locked the table.\<close>

theorem threads_no_deadlock:
  assumes "th_reachable T" "\<forall>j. exec_th (Th_run j) T = None" "runnable i T" "th_pc T i \<noteq> Ready"
  shows "\<exists>a acc j. th_pc T i = Guard_enter a acc \<and> table_mutex (table_at a (sys_srv (th_sys T))) = Some j
    \<and> runnable j T \<and> th_pc T j = Ready \<and> m_in_transaction (conn (world_of j (th_sys T)))
    \<and> a \<in> set (locked_tables (conn (world_of j (th_sys T))))"
  using stuck_thread [OF th_reachable_inv [OF assms(1)] assms(2-4)] .

theorem threads_no_deadlock_witness:
  "\<exists>j. table_mutex (table_at 0 (sys_srv (th_sys th_demo))) = Some j \<and> runnable j th_demo \<and> th_pc th_demo j = Ready"
  using threads_no_deadlock [OF th_demo_reachable _ _ , of 1] th_demo_stuck th_demo_facts
  by (auto simp: runnable_def)

text \<open>C8: Turns end: whoever is chosen to run each time, without a new line from a client the threads
  take together at most 12 steps each and 2 more for every table they have locked, and then, or
  before, a state is reached in which no thread can take a step.\<close>

theorem turns_are_bounded:
  assumes "th_reachable T" "status (th_sys T) = Running" "run_th (map Th_run is) T = Some T'"
  shows "length is \<le> (\<Sum>i | i < next_tid (th_sys T) \<and> live i (th_sys T).
      2 * length (locked_tables (conn (world_of i (th_sys T)))) + 12)
    \<and> (\<exists>js T''. run_th (map Th_run js) T' = Some T'' \<and> (\<forall>j. exec_th (Th_run j) T'' = None))"
  using run_th_length [OF th_reachable_inv [OF assms(1)] assms(3)]
    total_work_le [OF th_reachable_inv [OF assms(1)] assms(2)]
    comes_to_rest [OF run_th_inv [OF th_reachable_inv [OF assms(1)] assms(3)]] by simp

theorem turns_are_bounded_witness:
  "\<exists>js T''. run_th (map Th_run js) th_demo = Some T'' \<and> (\<forall>j. exec_th (Th_run j) T'' = None)"
  using turns_are_bounded [OF th_demo_reachable, of "[]" th_demo] th_demo_facts(1)
  by (simp del: exec_th.simps)





text \<open>C11: In every state the running server reaches, whatever the clients send and in whatever order
  their requests are served: the map of tables is well-formed and every table is in it under its
  own name, every held mutex has a living owner, a table nobody holds has no pending entries,
  every session owns exactly the mutexes of its locked set and none outside a transaction, and
  every stored value fits in a response.\<close>

theorem reachable_invariant:
  "reachable \<sigma> \<Longrightarrow> sys_inv \<sigma>"
  by (rule reachable_inv)

theorem reachable_invariant_witness: "sys_inv demo"
  by (rule reachable_invariant [OF demo_reachable])

text \<open>C12: Taking whole turns at once describes executions the threads have: whatever states the server
  goes through when each turn of chat_with_client, with all its handler does, runs without
  interruption, the threads go through too when each thread in turn is let run step by step to
  the end of its turn.\<close>

theorem turnwise_runs_are_interleavings:
  assumes "run_events es (server_main argc fd) = Some \<sigma>"
  shows "\<exists>fs T. run_th fs (th_start (server_main argc fd)) = Some T \<and> th_sys T = \<sigma> \<and> (status \<sigma> = Running \<longrightarrow> at_rest T)"
proof -
  have "at_rest (th_start (server_main argc fd))"
    by (rule start_at_rest)
  then show ?thesis
    using events_are_run [OF th_inv_start, of argc fd es \<sigma>] assms by (simp add: th_start_def)
qed

theorem turnwise_runs_are_interleavings_witness:
  "\<exists>fs T. run_th fs (th_start (server_main 2 3)) = Some T \<and> th_sys T = demo \<and> at_rest T"
proof -
  have "run_events demo_events (server_main 2 3) = Some demo"
    using demo_runs by (simp add: demo_def)
  from turnwise_runs_are_interleavings [OF this] show ?thesis
    using demo_live by simp
qed

text \<open>C13: The steps of a turn are the turn: a thread that is let alone after it has read a line comes,
  step by step, exactly to the result and the state of the handlers of chat_with_client for that
  line, with every exception caught, response sent and table rolled back, and after the last turn
  to that of the destructor; where the handler would wait, the thread waits.\<close>

theorem turn_alone_is_handler:
  assumes "conn_inv i w" "begin_turn i buf w = (Ok p, w')"
  shows "alone i p w' (bind (chat_iteration i buf) (\<lambda>active.
    if active then ret True else seq (connection_destroy i) (ret False)) w)"
  using alone_turn [OF assms] by (simp add: serve_line_def until_next_def)

theorem turn_alone_is_handler_witness:
  "alone 0 (Commit_table [0]) (world_of 0 demo) (bind (chat_iteration 0 (a_line ''COMMIT'')) (\<lambda>active.
    if active then ret True else seq (connection_destroy 0) (ret False)) (world_of 0 demo))"
proof -
  have "begin_turn 0 (a_line ''COMMIT'') (world_of 0 demo) = (Ok (Commit_table [0]), world_of 0 demo)"
    by code_simp
  with turn_alone_is_handler [OF sys_invD(3) [OF reachable_inv [OF demo_reachable] demo_live(1)]] show ?thesis
    by blast
qed

text \<open>C14: A request that waits can run as soon as the client it waits for has gone: some other client's
  hang-up is possible now, and after it the same request is no longer made to wait.\<close>

theorem waiting_request_wakes:
  assumes "reachable \<sigma>" "status \<sigma> = Running" "live i \<sigma>" "exec_event (Line i buf) \<sigma> = None"
  shows "\<exists>j \<sigma>'. j \<noteq> i \<and> sys_step \<sigma> (Hangup j) \<sigma>' \<and> exec_event (Line i buf) \<sigma>' \<noteq> None"
proof -
  note inv = reachable_inv [OF assms(1)]
  obtain req a j where j: "admitted buf (world_of i \<sigma>) = Some req" "target req (world_of i \<sigma>) = Some a"
    "j \<noteq> i" "holds j a \<sigma>"
    using waits_for_holder [OF inv assms(2-4)] by blast
  then have "sys_step \<sigma> (Hangup j) (close_session j (world_of j \<sigma>) \<sigma>)"
    using assms(2) by (auto simp: holds_def intro: sys_step.hangup)
  with hangup_wakes [OF inv assms(2,3) j(3,1,2,4) this] j(3) show ?thesis
    by blast
qed

theorem waiting_request_wakes_witness:
  "\<exists>j \<sigma>'. j \<noteq> 1 \<and> sys_step demo (Hangup j) \<sigma>' \<and> exec_event (Line 1 (a_line ''GET t k'')) \<sigma>' \<noteq> None"
  by (rule waiting_request_wakes [OF demo_reachable demo_live(3,2) demo_waits])







text \<open>C20: A GET that is not refused for a lock pushes what the abstract database shows that client: its
  own uncommitted writes over the committed entries; it fails exactly when there is no such
  entry, and then the stack is as it was.\<close>

theorem get_reads_own_view:
  assumes "conn_inv i w" "get_message_type req = GET" "get_table req = Some n" "get_key req = Some k"
    and "rival i req w = None"
  shows "operands (snd (handle_get i req w)) =
      (case db_read (db_of i (srv w)) n k of Some v \<Rightarrow> v # operands w | None \<Rightarrow> operands w)
    \<and> (fst (handle_get i req w) = Ok () \<longleftrightarrow> db_read (db_of i (srv w)) n k \<noteq> None)"
  using get_reads [OF assms] by blast

theorem get_reads_own_view_witness:
  "operands (snd (handle_get 0 (Message GET [''t'', ''k'']) (world_of 0 demo))) = [''7'']"
proof -
  let ?w = "world_of 0 demo" and ?req = "Message GET [''t'', ''k'']"
  have "conn_inv 0 ?w"
    using sys_invD(3) [OF reachable_inv [OF demo_reachable] demo_live(1)] .
  moreover have "get_message_type ?req = GET" "get_table ?req = Some ''t''" "get_key ?req = Some ''k''"
    "rival 0 ?req ?w = None" "db_read (db_of 0 (srv ?w)) ''t'' ''k'' = Some ''7''" "operands ?w = []"
    by code_simp+
  ultimately show ?thesis
    using get_reads_own_view [of 0 ?w ?req "''t''" "''k''"] by simp
qed

text \<open>C21: In every state the interleaved threads reach, every table's name and every key, committed or
  pending, is an identifier; every stored value and every value on a stack is one that the
  protocol can carry in a response; and the same holds of every name, key and value a thread has
  in hand in the middle of a turn, whose exceptions carry texts of at most 100 characters, except
  for the one that names a table.\<close>

theorem well_typed_states:
  "th_reachable T \<Longrightarrow> typed T"
  by (rule reachable_typed)

theorem well_typed_states_witness: "typed th_demo"
  by (rule well_typed_states [OF th_demo_reachable])

text \<open>C22: Whatever ends a session (BYE, a line that does not decode, the client hanging up, inside a
  transaction or not), the step that ends it leaves every committed entry as it was, discards
  everything the client had written and not committed, and leaves no mutex owned by its thread.\<close>

theorem ended_session_leaves_nothing:
  assumes "reachable \<sigma>" "sys_step \<sigma> e \<sigma>'" "live i \<sigma>" "\<not> live i \<sigma>'"
  shows "abs_store (sys_srv \<sigma>') = abs_store (sys_srv \<sigma>) \<and> abs_buffer i (sys_srv \<sigma>') = (\<lambda>n. Map.empty)
    \<and> (\<forall>a. valid_ptr a (sys_srv \<sigma>') \<longrightarrow> table_mutex (table_at a (sys_srv \<sigma>')) \<noteq> Some i)"
  by (rule session_end [OF reachable_inv [OF assms(1)] assms(2-4)])

theorem ended_session_leaves_nothing_witness:
  "abs_store (sys_srv (the (exec_event (Line 0 (a_line ''nonsense'')) demo))) = abs_store (sys_srv demo)"
proof -
  let ?\<sigma> = "the (exec_event (Line 0 (a_line ''nonsense'')) demo)"
  have "exec_event (Line 0 (a_line ''nonsense'')) demo \<noteq> None" "\<not> live 0 ?\<sigma>"
    by code_simp+
  then have "sys_step demo (Line 0 (a_line ''nonsense'')) ?\<sigma>"
    by (auto simp flip: exec_step)
  with ended_session_leaves_nothing [OF demo_reachable this demo_live(1) \<open>\<not> live 0 ?\<sigma>\<close>] show ?thesis
    by blast
qed

text \<open>C23: From a reachable state some step of a thread ends the whole server, by an exception that leaves
  the thread, exactly when a thread has just rolled back a transaction that lost a table to
  another client, and the response that is to name this table does not fit because the name has
  more than 984 characters.\<close>

theorem threads_end_the_process_iff:
  assumes "th_reachable T"
  shows "(\<exists>e T'. th_step T e T' \<and> status (th_sys T') = Terminated) \<longleftrightarrow>
    (\<exists>i n. runnable i T \<and> length n > 984
       \<and> th_pc T i = Undo_table [] (Some (''Could not acquire lock on table '' @ n)))"
  using terminates_iff [OF th_reachable_inv [OF assms] reachable_typed [OF assms]] by (simp add: no_lock_def)

theorem threads_end_the_process_iff_witness:
  "\<not> (\<exists>e T'. th_step th_demo e T' \<and> status (th_sys T') = Terminated)"
proof -
  have "th_pc th_demo i \<noteq> Undo_table [] u" if "runnable i th_demo" for i u
    using th_demo_runnable [OF that] th_demo_facts(5,6) by auto
  then show ?thesis
    unfolding threads_end_the_process_iff [OF th_demo_reachable] by blast
qed



text \<open>C25: Whatever the kernel makes of the writes of a session, the bytes its peer has got are a
  subsequence of the bytes of the responses: nothing is ever sent twice or out of order. The
  result of rio_writen is ignored, so after a failed write the next response follows where the
  last one broke off.\<close>

theorem responses_survive_writes:
  assumes "net_reachable N"
  shows "subseq (p_got (n_peers N i)) (wire (world_of i (th_sys (n_threads N))))"
  using net_received [OF assms] by (simp add: received_def)

theorem responses_survive_writes_witness:
  "subseq (''OK'' @ [newline] @ ''OK'' @ [newline]) (wire (world_of 0 (th_sys (n_threads net_demo))))"
  using responses_survive_writes [OF net_demo_reachable, of 0] unfolding net_demo_facts .



text \<open>C27: A table that has been created stays, under its name and at its address, through any further
  steps of any threads: a CREATE is effective at once and for everybody, also in a transaction,
  and no rollback takes it back.\<close>

theorem created_tables_stay:
  assumes "th_reachable T" "smap_find n (set_of_table (sys_srv (th_sys T))) = Some a" "run_th es T = Some T'"
  shows "smap_find n (set_of_table (sys_srv (th_sys T'))) = Some a"
  by (rule run_keeps_tables [OF th_reachable_inv [OF assms(1)] assms(3,2)])

theorem created_tables_stay_witness:
  "\<exists>T'. run_th (Th_eof 0 # map Th_run [0, 0, 0, 0]) th_demo = Some T'
    \<and> smap_find ''t'' (set_of_table (sys_srv (th_sys T'))) = Some 0"
proof -
  have "run_th (Th_eof 0 # map Th_run [0, 0, 0, 0]) th_demo \<noteq> None"
    by code_simp
  then obtain T' where run: "run_th (Th_eof 0 # map Th_run [0, 0, 0, 0]) th_demo = Some T'"
    by blast
  from created_tables_stay [OF th_demo_reachable th_demo_facts(9) run] run show ?thesis
    by blast
qed







end
